(* ===== verification/Prelude.thy ===== *)
theory Prelude
  imports Main "HOL-Library.Word" "HOL-Library.List_Lexorder" "HOL-Library.Monad_Syntax"
begin

text \<open>
  Shared vocabulary of the De-Sentry development: machine integers and byte strings, the
  status codes of \<^verbatim>\<open>include/desentry/common/status.h\<close>, decimal rendering
  (\<^verbatim>\<open>std::to_string\<close>), and the generic lemmas on lists, association lists and words
  that the component theories use.

  A C++ \<^verbatim>\<open>std::string\<close> is a list of bytes. \<^verbatim>\<open>std::string::operator<\<close> compares
  bytes as unsigned values, lexicographically and with a proper prefix first, which is the
  order \<^verbatim>\<open>List_Lexorder\<close> puts on byte lists.
\<close>

unbundle bit_operations_syntax

section \<open>Machine integers and byte strings\<close>

type_synonym byte = "8 word"
type_synonym bytes = "byte list"
type_synonym u16 = "16 word"
type_synonym u32 = "32 word"
type_synonym u64 = "64 word"

text \<open>
  \<open>codec_simps\<close> collects the round-trip equations of the byte codecs, in the form the
  simplifier applies to an encoding followed by arbitrary further bytes.
\<close>

named_theorems codec_simps

section \<open>Status codes\<close>

text \<open>
  \<^verbatim>\<open>StatusCode\<close> without \<^verbatim>\<open>kOk\<close>: a \<^verbatim>\<open>StatusOr<T>\<close> is \<open>Inl\<close> of the failing code or
  \<open>Inr\<close> of the value. The message text of a status is for the log only and is left out.
\<close>

datatype status_code =
    kNotFound | kAlreadyExists | kInvalidArgument | kIOError | kCorruption | kOutOfSpace
  | kSchemaViolation | kAuthError | kNetworkError | kInternal

type_synonym 'a status_or = "status_code + 'a"

section \<open>String literals and decimal rendering\<close>

definition bytes_of :: "string \<Rightarrow> bytes" where
  "bytes_of s = map of_char s"

fun to_string_nat :: "nat \<Rightarrow> bytes" where
  "to_string_nat n =
     (if n < 10 then [of_nat (48 + n)]
      else to_string_nat (n div 10) @ [of_nat (48 + n mod 10)])"

declare to_string_nat.simps [simp del]

definition to_string_int :: "int \<Rightarrow> bytes" where
  "to_string_int i = (if i < 0 then 45 # to_string_nat (nat (- i)) else to_string_nat (nat i))"

lemma to_string_nat_nonempty [simp]: "to_string_nat n \<noteq> []" "[] \<noteq> to_string_nat n"
  by (subst to_string_nat.simps, simp)+

lemma of_nat_byte_inject:
  assumes "a < 256" "b < 256" "(of_nat a :: byte) = of_nat b"
  shows "a = b"
proof -
  have "unat (of_nat a :: byte) = unat (of_nat b :: byte)"
    using assms(3) by simp
  then show ?thesis
    using assms(1,2) by (simp add: unat_of_nat)
qed

lemma to_string_nat_digit:
  "a < 10 \<Longrightarrow> b < 10 \<Longrightarrow> (of_nat (48 + a) :: byte) = of_nat (48 + b) \<Longrightarrow> a = b"
  using of_nat_byte_inject [of "48 + a" "48 + b"] by simp

lemma to_string_nat_inject [simp]: "to_string_nat m = to_string_nat n \<longleftrightarrow> m = n"
proof
  show "to_string_nat m = to_string_nat n \<Longrightarrow> m = n"
  proof (induction m arbitrary: n rule: to_string_nat.induct)
    case (1 m)
    show ?case
    proof (cases "m < 10")
      case True
      with 1(2) show ?thesis
        using to_string_nat_digit [of m n]
        by (simp add: to_string_nat.simps [of m] to_string_nat.simps [of n] split: if_splits)
    next
      case False
      with 1(2) have n: "\<not> n < 10"
        by (auto simp: to_string_nat.simps [of m] to_string_nat.simps [of n])
      with False 1(2) have eq: "to_string_nat (m div 10) = to_string_nat (n div 10)"
        and d: "(of_nat (48 + m mod 10) :: byte) = of_nat (48 + n mod 10)"
        by (simp_all add: to_string_nat.simps [of m] to_string_nat.simps [of n])
      from 1(1) [OF False eq] have "m div 10 = n div 10" .
      moreover have "m mod 10 = n mod 10"
        by (rule to_string_nat_digit [OF _ _ d]) simp_all
      ultimately show ?thesis by (metis div_mult_mod_eq)
    qed
  qed
qed simp

section \<open>Association lists\<close>

text \<open>
  Two association lists that are sorted by key and have no duplicate key are equal when they
  have the same lookups: the canonical form behind every sorted layout of the code.
\<close>

lemma map_the_map_of:
  "distinct (map fst xs) \<Longrightarrow> map (\<lambda>k. the (map_of xs k)) (map fst xs) = map snd xs"
  by (auto simp: map_of_is_SomeI)

lemma sorted_distinct_map_of_eq:
  assumes "sorted (map fst xs)" "distinct (map fst xs)"
    and "sorted (map fst ys)" "distinct (map fst ys)"
    and "map_of xs = map_of ys"
  shows "xs = ys"
proof -
  have "set xs = set ys"
    using assms(2,4,5) by (metis map_of_inject_set)
  then have "set (map fst xs) = set (map fst ys)" by simp
  then have keys: "map fst xs = map fst ys"
    using assms(1-4) by (intro sorted_distinct_set_unique) auto
  show ?thesis
    by (rule pair_list_eqI [OF keys])
      (use keys assms(5) map_the_map_of [OF assms(2)] map_the_map_of [OF assms(4)] in metis)
qed

lemma map_of_sort_key [simp]:
  "distinct (map fst xs) \<Longrightarrow> map_of (sort_key fst xs) = map_of xs"
  by (rule map_of_eqI) (auto simp: distinct_map inj_on_def map_of_eq_Some_iff
      dest: map_of_SomeD intro!: map_of_is_SomeI)

lemma distinct_sort_key [simp]:
  "distinct (map fst (sort_key f xs)) = distinct (map fst xs)"
  by (simp add: distinct_map)

section \<open>In-memory maps\<close>

text \<open>
  \<^verbatim>\<open>std::unordered_map\<close> as an association list; its order stands for the unspecified order of
  iteration, and what is proved of the stores is about lookups.
\<close>

definition map_put :: "'k \<Rightarrow> 'v \<Rightarrow> ('k \<times> 'v) list \<Rightarrow> ('k \<times> 'v) list" where
  "map_put k v m = (k, v) # filter (\<lambda>p. fst p \<noteq> k) m"

definition map_erase :: "'k \<Rightarrow> ('k \<times> 'v) list \<Rightarrow> ('k \<times> 'v) list" where
  "map_erase k m = filter (\<lambda>p. fst p \<noteq> k) m"

text \<open>Updating a mapped value in place, and \<^verbatim>\<open>std::map\<close>, which iterates in the order of its keys.\<close>

definition map_adjust :: "'k \<Rightarrow> ('v \<Rightarrow> 'v) \<Rightarrow> ('k \<times> 'v) list \<Rightarrow> ('k \<times> 'v) list" where
  "map_adjust k f m = map (\<lambda>(k', v). (k', if k' = k then f v else v)) m"

definition omap_put :: "'k::linorder \<Rightarrow> 'v \<Rightarrow> ('k \<times> 'v) list \<Rightarrow> ('k \<times> 'v) list" where
  "omap_put k v m = insort_key fst (k, v) (map_erase k m)"

definition omap :: "('k::linorder \<times> 'v) list \<Rightarrow> bool" where
  "omap m \<longleftrightarrow> sorted (map fst m) \<and> distinct (map fst m)"

lemma map_of_filter_key: "map_of (filter (\<lambda>p. P (fst p)) m) = (map_of m) |` {k. P k}"
  by (induction m) (auto simp: restrict_map_def fun_eq_iff)

lemma map_of_map_put [simp]: "map_of (map_put k v m) = (map_of m)(k \<mapsto> v)"
  using map_of_filter_key [of "\<lambda>x. x \<noteq> k" m] by (auto simp: map_put_def restrict_map_def fun_eq_iff)

lemma map_of_map_erase [simp]: "map_of (map_erase k m) = (map_of m)(k := None)"
  using map_of_filter_key [of "\<lambda>x. x \<noteq> k" m] by (auto simp: map_erase_def restrict_map_def fun_eq_iff)

lemma distinct_map_put [simp]: "distinct (map fst m) \<Longrightarrow> distinct (map fst (map_put k v m))"
  by (auto simp: map_put_def distinct_map_filter)

lemma distinct_map_erase [simp]: "distinct (map fst m) \<Longrightarrow> distinct (map fst (map_erase k m))"
  by (simp add: map_erase_def distinct_map_filter)

lemma map_of_map_adjust [simp]: "map_of (map_adjust k f m) = (map_of m)(k := map_option f (map_of m k))"
  by (induction m) (auto simp: map_adjust_def fun_eq_iff)

lemma keys_map_adjust [simp]: "map fst (map_adjust k f m) = map fst m"
  by (induction m) (auto simp: map_adjust_def)

lemma set_omap_put: "set (omap_put k v m) = insert (k, v) {p \<in> set m. fst p \<noteq> k}"
  by (auto simp: omap_put_def map_erase_def set_insort_key)

lemma omap_put_omap [simp]: "omap m \<Longrightarrow> omap (omap_put k v m)"
  by (auto simp: omap_def omap_put_def map_erase_def sorted_insort_key sorted_filter distinct_map_filter distinct_map
      distinct_insort inj_on_def set_insort_key)

lemma omap_erase [simp]: "omap m \<Longrightarrow> omap (map_erase k m)"
  by (auto simp: omap_def map_erase_def sorted_filter distinct_map_filter)

lemma map_of_omap_put [simp]:
  assumes "omap m"
  shows "map_of (omap_put k v m) = (map_of m)(k \<mapsto> v)"
proof
  fix x
  have d: "distinct (map fst m)" "distinct (map fst (omap_put k v m))"
    using assms omap_put_omap [OF assms, of k v] by (simp_all add: omap_def)
  have "map_of (omap_put k v m) x = Some y \<longleftrightarrow> ((map_of m)(k \<mapsto> v)) x = Some y" for y
    using d by (auto simp: set_omap_put)
  then show "map_of (omap_put k v m) x = ((map_of m)(k \<mapsto> v)) x" by (metis option.exhaust)
qed

section \<open>Words\<close>

lemma xor_cancel_left [simp]: "p XOR a = p XOR b \<longleftrightarrow> a = (b :: 'a::len word)"
proof
  assume "p XOR a = p XOR b"
  then have "p XOR (p XOR a) = p XOR (p XOR b)" by simp
  then show "a = b" by (simp add: xor.assoc [symmetric])
qed simp

lemma xor_cancel_right [simp]: "a XOR p = b XOR p \<longleftrightarrow> a = (b :: 'a::len word)"
  by (simp add: xor.commute [of _ p])

lemma ucast_byte_inject: "(ucast (a :: byte) :: 'a::len word) = ucast b \<Longrightarrow> 8 \<le> LENGTH('a) \<Longrightarrow> a = b"
proof -
  assume eq: "(ucast a :: 'a word) = ucast b" and len: "8 \<le> LENGTH('a)"
  show "a = b"
  proof (rule bit_eqI)
    fix n
    assume n: "possible_bit TYPE(byte) n"
    have "bit (ucast a :: 'a word) n = bit (ucast b :: 'a word) n" using eq by simp
    then show "bit a n = bit b n" using n len by (simp add: bit_ucast_iff)
  qed
qed

end
