(* ===== verification/ByteBuffer.thy ===== *)
theory ByteBuffer
  imports Prelude
begin

text \<open>
  \<^verbatim>\<open>include/desentry/common/byte_buffer.h\<close>: the little-endian writer and reader every
  on-disk record and wire payload is built from. A \<^verbatim>\<open>ByteWriter\<close> only ever appends, so each
  of its methods is the byte string it appends and a sequence of writes is their
  concatenation. The reader is modelled twice: as the source has it, a buffer with a cursor
  (record \<open>byte_reader\<close>), and as a parser on the unread suffix, which is what the codecs of
  the other theories use; \<open>byte_reader_refines_parser\<close> says that the two agree.

  The interface the codecs rely on is the locale \<open>codec\<close>: what was put is got back, whatever
  bytes follow. The numbers are written with \<^verbatim>\<open>memcpy\<close> from host order; the supported
  hosts are little-endian.
\<close>

section \<open>Little-endian integers\<close>

definition le_bytes :: "nat \<Rightarrow> 'a::len word \<Rightarrow> bytes" where
  "le_bytes n v = map (\<lambda>i. ucast (drop_bit (8 * i) v)) [0..<n]"

fun le_word :: "bytes \<Rightarrow> 'a::len word" where
  "le_word [] = 0"
| "le_word (b # bs) = ucast b OR push_bit 8 (le_word bs)"

lemma length_le_bytes [simp]: "length (le_bytes n v) = n"
  by (simp add: le_bytes_def)

lemma bit_le_word:
  "bit (le_word bs :: 'a::len word) k \<longleftrightarrow>
     k < LENGTH('a) \<and> k div 8 < length bs \<and> bit (bs ! (k div 8)) (k mod 8)"
proof (induction bs arbitrary: k)
  case Nil
  then show ?case by simp
next
  case (Cons b bs)
  show ?case
  proof (cases "k < 8")
    case True
    then show ?thesis
      by (auto simp: bit_or_iff bit_push_bit_iff bit_ucast_iff)
  next
    case False
    then have "k div 8 = Suc ((k - 8) div 8)" "k mod 8 = (k - 8) mod 8"
      by (simp_all add: le_div_geq le_mod_geq)
    with False show ?thesis
      by (auto simp: bit_or_iff bit_push_bit_iff bit_ucast_iff Cons.IH dest: bit_imp_le_length)
  qed
qed

lemma le_word_le_bytes:
  assumes "LENGTH('a::len) \<le> 8 * n"
  shows "le_word (le_bytes n v) = (v :: 'a word)"
proof (rule bit_eqI)
  fix k
  assume "possible_bit TYPE('a word) k"
  then have k: "k < LENGTH('a)" by simp
  with assms have "k div 8 < n" by (simp add: less_mult_imp_div_less mult.commute)
  with k show "bit (le_word (le_bytes n v) :: 'a word) k = bit v k"
    by (simp add: bit_le_word le_bytes_def bit_ucast_iff bit_drop_bit_eq)
qed

lemma le_bytes_le_word:
  assumes "length bs = n" "8 * n \<le> LENGTH('a::len)"
  shows "le_bytes n (le_word bs :: 'a word) = bs"
proof (rule nth_equalityI)
  show "length (le_bytes n (le_word bs :: 'a word)) = length bs" using assms(1) by simp
  fix i
  assume "i < length (le_bytes n (le_word bs :: 'a word))"
  then have i: "i < n" by simp
  show "le_bytes n (le_word bs :: 'a word) ! i = bs ! i"
  proof (rule bit_eqI)
    fix k
    assume "possible_bit TYPE(byte) k"
    then have k: "k < 8" by simp
    then have "8 * i + k < LENGTH('a)" using i assms(2) by linarith
    with k i assms(1) show "bit (le_bytes n (le_word bs :: 'a word) ! i) k = bit (bs ! i) k"
      by (simp add: le_bytes_def bit_ucast_iff bit_drop_bit_eq bit_le_word)
  qed
qed

section \<open>ByteWriter\<close>

definition put_u8 :: "byte \<Rightarrow> bytes" where
  "put_u8 v = [v]"

definition put_u16 :: "u16 \<Rightarrow> bytes" where
  "put_u16 v = le_bytes 2 v"

definition put_u32 :: "u32 \<Rightarrow> bytes" where
  "put_u32 v = le_bytes 4 v"

definition put_u64 :: "u64 \<Rightarrow> bytes" where
  "put_u64 v = le_bytes 8 v"

definition put_i64 :: "int \<Rightarrow> bytes" where
  "put_i64 v = le_bytes 8 (word_of_int v :: u64)"

text \<open>A \<^verbatim>\<open>double\<close> is written as its eight bytes of IEEE 754 representation.\<close>

definition put_f64 :: "u64 \<Rightarrow> bytes" where
  "put_f64 v = le_bytes 8 v"

text \<open>\<^verbatim>\<open>Bytes\<close> casts the size to 32 bits: a string of 4 GiB or more wraps its length.\<close>

definition put_bytes :: "bytes \<Rightarrow> bytes" where
  "put_bytes s = put_u32 (of_nat (length s)) @ s"

definition put_raw :: "bytes \<Rightarrow> bytes" where
  "put_raw s = s"

definition put_bool :: "bool \<Rightarrow> bytes" where
  "put_bool b = put_u8 (if b then 1 else 0)"

section \<open>ByteReader, on the unread bytes\<close>

text \<open>A reader consumes a prefix of the unread bytes; \<open>None\<close> is the thrown exception.\<close>

type_synonym 'a reader = "bytes \<Rightarrow> ('a \<times> bytes) option"

definition get_raw :: "nat \<Rightarrow> bytes reader" where
  "get_raw n bs = (if length bs < n then None else Some (take n bs, drop n bs))"

definition get_u8 :: "byte reader" where
  "get_u8 bs = (case bs of [] \<Rightarrow> None | b # r \<Rightarrow> Some (b, r))"

definition get_le :: "nat \<Rightarrow> ('a::len word) reader" where
  "get_le n bs = do { (x, r) \<leftarrow> get_raw n bs; Some (le_word x, r) }"

definition get_u16 :: "u16 reader" where
  "get_u16 = get_le 2"

definition get_u32 :: "u32 reader" where
  "get_u32 = get_le 4"

definition get_u64 :: "u64 reader" where
  "get_u64 = get_le 8"

definition get_i64 :: "int reader" where
  "get_i64 bs = do { (x, r) \<leftarrow> get_le 8 bs; Some (sint (x :: u64), r) }"

definition get_f64 :: "u64 reader" where
  "get_f64 = get_le 8"

definition get_bytes :: "bytes reader" where
  "get_bytes bs = do { (n, r) \<leftarrow> get_u32 bs; get_raw (unat n) r }"

definition get_bool :: "bool reader" where
  "get_bool bs = do { (b, r) \<leftarrow> get_u8 bs; Some (b \<noteq> 0, r) }"

text \<open>A counted loop of reads, \<^verbatim>\<open>for (uint32_t i = 0; i < n; ++i)\<close>.\<close>

fun get_n :: "'a reader \<Rightarrow> nat \<Rightarrow> 'a list reader" where
  "get_n g 0 bs = Some ([], bs)"
| "get_n g (Suc n) bs = do { (x, bs) \<leftarrow> g bs; (xs, bs) \<leftarrow> get_n g n bs; Some (x # xs, bs) }"

text \<open>The trailing-tolerant read \<^verbatim>\<open>if (r.remaining() > 0)\<close>.\<close>

definition get_opt :: "'a reader \<Rightarrow> 'a \<Rightarrow> 'a reader" where
  "get_opt g d bs = (if bs = [] then Some (d, bs) else g bs)"

text \<open>Count-prefixed sequences.\<close>

definition put_list :: "('a \<Rightarrow> bytes) \<Rightarrow> 'a list \<Rightarrow> bytes" where
  "put_list p xs = put_u32 (of_nat (length xs)) @ concat (map p xs)"

definition get_list :: "'a reader \<Rightarrow> 'a list reader" where
  "get_list g bs = do { (n, bs) \<leftarrow> get_u32 bs; get_n g (unat n) bs }"

section \<open>ByteReader, as a buffer and a cursor\<close>

record byte_reader =
  br_data :: bytes
  br_pos :: nat

definition br_open :: "bytes \<Rightarrow> byte_reader" where
  "br_open s = \<lparr>br_data = s, br_pos = 0\<rparr>"

definition br_remaining :: "byte_reader \<Rightarrow> nat" where
  "br_remaining r = length (br_data r) - br_pos r"

definition br_need :: "nat \<Rightarrow> byte_reader \<Rightarrow> bool" where
  "br_need n r = (br_pos r + n \<le> length (br_data r))"

definition br_read :: "nat \<Rightarrow> byte_reader \<Rightarrow> (bytes \<times> byte_reader) option" where
  "br_read n r =
     (if br_need n r
      then Some (take n (drop (br_pos r) (br_data r)), r\<lparr>br_pos := br_pos r + n\<rparr>) else None)"

definition br_u8 :: "byte_reader \<Rightarrow> (byte \<times> byte_reader) option" where
  "br_u8 r =
     (if br_need 1 r then Some (br_data r ! br_pos r, r\<lparr>br_pos := br_pos r + 1\<rparr>) else None)"

definition br_u32 :: "byte_reader \<Rightarrow> (u32 \<times> byte_reader) option" where
  "br_u32 r = do { (x, r) \<leftarrow> br_read 4 r; Some (le_word x, r) }"

definition br_u64 :: "byte_reader \<Rightarrow> (u64 \<times> byte_reader) option" where
  "br_u64 r = do { (x, r) \<leftarrow> br_read 8 r; Some (le_word x, r) }"

definition br_bytes :: "byte_reader \<Rightarrow> (bytes \<times> byte_reader) option" where
  "br_bytes r = do { (n, r) \<leftarrow> br_u32 r; br_read (unat n) r }"

definition br_rest :: "byte_reader \<Rightarrow> bytes" where
  "br_rest r = drop (br_pos r) (br_data r)"

definition br_wf :: "byte_reader \<Rightarrow> bool" where
  "br_wf r = (br_pos r \<le> length (br_data r))"

section \<open>The codec interface\<close>

text \<open>
  What a codec promises its clients: decoding an encoding returns the value and leaves the
  bytes after it untouched, for every value the encoding can carry (\<open>ok\<close>: lengths below
  $2^{32}$, integers in range).
\<close>

locale codec =
  fixes put :: "'a \<Rightarrow> bytes"
    and get :: "'a reader"
    and ok :: "'a \<Rightarrow> bool"
  assumes get_put: "ok x \<Longrightarrow> get (put x @ r) = Some (x, r)"
begin

lemma get_put_end: "ok x \<Longrightarrow> get (put x) = Some (x, [])"
  using get_put [of x "[]"] by simp

text \<open>Encodings are prefix-free: a stream of them parses in one way.\<close>

lemma put_prefix_free:
  assumes "ok x" "ok y" "put x @ r = put y @ s"
  shows "x = y \<and> r = s"
proof -
  have "Some (x, r) = Some (y, s)"
    using assms get_put by metis
  then show ?thesis by simp
qed

lemma get_n_put:
  "list_all ok xs \<Longrightarrow> get_n get (length xs) (concat (map put xs) @ r) = Some (xs, r)"
  by (induction xs) (simp_all add: get_put)

lemma get_opt_put: "ok x \<Longrightarrow> put x @ r \<noteq> [] \<Longrightarrow> get_opt get d (put x @ r) = Some (x, r)"
  by (auto simp: get_opt_def get_put)

end

text \<open>Field sizes the 32-bit length prefix can carry.\<close>

definition fits :: "bytes \<Rightarrow> bool" where
  "fits s \<longleftrightarrow> length s < 2 ^ 32"

definition i64_ok :: "int \<Rightarrow> bool" where
  "i64_ok i \<longleftrightarrow> - (2 ^ 63) \<le> i \<and> i < 2 ^ 63"

definition list_ok :: "('a \<Rightarrow> bool) \<Rightarrow> 'a list \<Rightarrow> bool" where
  "list_ok ok xs \<longleftrightarrow> length xs < 2 ^ 32 \<and> list_all ok xs"

lemma get_raw_append [codec_simps]: "n = length x \<Longrightarrow> get_raw n (x @ r) = Some (x, r)"
  by (simp add: get_raw_def)

lemma get_le_append:
  "LENGTH('a::len) \<le> 8 * n \<Longrightarrow> get_le n (le_bytes n v @ r) = Some (v :: 'a word, r)"
  by (simp add: get_le_def get_raw_append le_word_le_bytes)

lemma unat_of_nat_u32: "n < 2 ^ 32 \<Longrightarrow> unat (of_nat n :: u32) = n"
  by (simp add: unat_of_nat take_bit_nat_eq_self)

lemma sint_word_of_int_i64: "i64_ok i \<Longrightarrow> sint (word_of_int i :: u64) = i"
  by (simp add: i64_ok_def sint_sbintrunc' signed_take_bit_int_eq_self)

interpretation u8c: codec put_u8 get_u8 "\<lambda>_. True"
  by unfold_locales (simp add: put_u8_def get_u8_def)

interpretation u16c: codec put_u16 get_u16 "\<lambda>_. True"
  by unfold_locales (simp add: put_u16_def get_u16_def get_le_append)

interpretation u32c: codec put_u32 get_u32 "\<lambda>_. True"
  by unfold_locales (simp add: put_u32_def get_u32_def get_le_append)

interpretation u64c: codec put_u64 get_u64 "\<lambda>_. True"
  by unfold_locales (simp add: put_u64_def get_u64_def get_le_append)

interpretation f64c: codec put_f64 get_f64 "\<lambda>_. True"
  by unfold_locales (simp add: put_f64_def get_f64_def get_le_append)

interpretation i64c: codec put_i64 get_i64 i64_ok
  by unfold_locales (simp add: put_i64_def get_i64_def get_le_append sint_word_of_int_i64)

interpretation boolc: codec put_bool get_bool "\<lambda>_. True"
  by unfold_locales (simp add: put_bool_def get_bool_def u8c.get_put)

interpretation strc: codec put_bytes get_bytes fits
  by unfold_locales
    (simp add: put_bytes_def get_bytes_def u32c.get_put unat_of_nat_u32 fits_def get_raw_append)

context codec
begin

text \<open>A codec for elements gives one for count-prefixed sequences of them.\<close>

lemma get_list_put: "list_ok ok xs \<Longrightarrow> get_list get (put_list put xs @ r) = Some (xs, r)"
  by (simp add: put_list_def get_list_def list_ok_def u32c.get_put unat_of_nat_u32 get_n_put)

lemma list_codec: "codec (put_list put) (get_list get) (list_ok ok)"
  by unfold_locales (rule get_list_put)

end

lemmas get_put_simps [codec_simps] =
  u8c.get_put [OF TrueI] u16c.get_put [OF TrueI] u32c.get_put [OF TrueI] u64c.get_put [OF TrueI]
  f64c.get_put [OF TrueI] boolc.get_put [OF TrueI] i64c.get_put strc.get_put

lemmas get_put_end_simps [codec_simps] =
  u8c.get_put_end [OF TrueI] u16c.get_put_end [OF TrueI] u32c.get_put_end [OF TrueI]
  u64c.get_put_end [OF TrueI] f64c.get_put_end [OF TrueI] boolc.get_put_end [OF TrueI]
  i64c.get_put_end strc.get_put_end

lemma put_length [simp]:
  "length (put_u8 a) = 1" "length (put_u16 b) = 2" "length (put_u32 c) = 4"
  "length (put_u64 d) = 8" "length (put_i64 e) = 8" "length (put_f64 f) = 8"
  "length (put_bool g) = 1" "length (put_bytes s) = 4 + length s"
  by (simp_all add: put_u8_def put_u16_def put_u32_def put_u64_def put_i64_def put_f64_def
      put_bool_def put_bytes_def)

lemma put_not_Nil [simp]:
  "put_u8 a \<noteq> []" "put_u16 b \<noteq> []" "put_u32 c \<noteq> []" "put_u64 d \<noteq> []" "put_i64 e \<noteq> []"
  "put_f64 f \<noteq> []" "put_bool g \<noteq> []" "put_bytes s \<noteq> []"
  by (simp_all only: length_greater_0_conv [symmetric] put_length)

section \<open>The cursor refines the parser\<close>

definition refines :: "(byte_reader \<Rightarrow> ('a \<times> byte_reader) option) \<Rightarrow> 'a reader \<Rightarrow> bool" where
  "refines m g \<longleftrightarrow>
     (\<forall>r. br_wf r \<longrightarrow>
        map_option (map_prod id br_rest) (m r) = g (br_rest r) \<and>
        (\<forall>x r'. m r = Some (x, r') \<longrightarrow> br_wf r' \<and> br_data r' = br_data r))"

lemma refinesD:
  assumes "refines m g" "br_wf r"
  shows "map_option (map_prod id br_rest) (m r) = g (br_rest r)"
    and "m r = Some (x, r') \<Longrightarrow> br_wf r'"
    and "m r = Some (x, r') \<Longrightarrow> br_data r' = br_data r"
  using assms unfolding refines_def by blast+

lemma refines_bind:
  assumes m: "refines m g" and k: "\<And>x. refines (k x) (h x)"
  shows "refines (\<lambda>r. do { (x, r) \<leftarrow> m r; k x r }) (\<lambda>bs. do { (x, bs) \<leftarrow> g bs; h x bs })"
  unfolding refines_def
proof (intro allI impI)
  fix r
  assume wf: "br_wf r"
  have mr: "map_option (map_prod id br_rest) (m r) = g (br_rest r)"
    by (rule refinesD(1) [OF m wf])
  show "map_option (map_prod id br_rest) (do { (x, r) \<leftarrow> m r; k x r }) =
          (do { (x, bs) \<leftarrow> g (br_rest r); h x bs }) \<and>
        (\<forall>x r'. (do { (x, r) \<leftarrow> m r; k x r }) = Some (x, r') \<longrightarrow>
           br_wf r' \<and> br_data r' = br_data r)"
  proof (cases "m r")
    case None
    with mr have "g (br_rest r) = None" by (metis option.map(1))
    with None show ?thesis by simp
  next
    case (Some p)
    obtain x r1 where p: "m r = Some (x, r1)" using Some by (cases p) blast
    have g: "g (br_rest r) = Some (x, br_rest r1)"
      unfolding mr [symmetric] p by simp
    note k1 = refinesD [OF k [of x] refinesD(2) [OF m wf p]]
    have wf': "br_wf r' \<and> br_data r' = br_data r" if "k x r1 = Some (y, r')" for y r'
      using k1(2) [OF that] k1(3) [OF that] refinesD(3) [OF m wf p] by (intro conjI) simp_all
    show ?thesis
      unfolding p g bind.bind_lunit prod.case using k1(1) wf' by blast
  qed
qed

lemma refines_return: "refines (\<lambda>r. Some (f, r)) (\<lambda>bs. Some (f, bs))"
  by (simp add: refines_def)

lemma refines_read: "refines (br_read n) (get_raw n)"
  by (auto simp: refines_def br_read_def br_need_def get_raw_def br_rest_def br_wf_def add.commute)

lemma refines_le:
  "refines (\<lambda>r. do { (x, r) \<leftarrow> br_read n r; Some (le_word x, r) }) (get_le n)"
  unfolding get_le_def by (rule refines_bind [OF refines_read refines_return])

lemma refines_u8: "refines br_u8 get_u8"
  unfolding refines_def
proof (intro allI impI)
  fix r
  assume "br_wf r"
  show "map_option (map_prod id br_rest) (br_u8 r) = get_u8 (br_rest r) \<and>
        (\<forall>x r'. br_u8 r = Some (x, r') \<longrightarrow> br_wf r' \<and> br_data r' = br_data r)"
  proof (cases "br_pos r < length (br_data r)")
    case True
    then have "br_rest r = br_data r ! br_pos r # drop (Suc (br_pos r)) (br_data r)"
      by (simp add: br_rest_def Cons_nth_drop_Suc)
    with True show ?thesis
      by (auto simp: br_u8_def br_need_def get_u8_def br_wf_def) (simp add: br_rest_def)
  next
    case False
    then show ?thesis by (simp add: br_u8_def br_need_def get_u8_def br_rest_def)
  qed
qed

lemma br_rest_open [simp]: "br_rest (br_open s) = s" "br_wf (br_open s)"
  by (simp_all add: br_rest_def br_open_def br_wf_def)

lemma br_remaining_rest: "br_remaining r = length (br_rest r)"
  by (simp add: br_remaining_def br_rest_def)

text \<open>
  The cursor-based \<^verbatim>\<open>ByteReader\<close> and the parser on the unread bytes agree. From any
  cursor inside the buffer, \<^verbatim>\<open>U8\<close>, \<^verbatim>\<open>U32\<close>, \<^verbatim>\<open>U64\<close>, \<^verbatim>\<open>RawBytes\<close> and the
  length-prefixed \<^verbatim>\<open>Bytes\<close> return the value, and leave the cursor at the unread bytes, that
  the parser returns and leaves; they throw exactly when the parser fails; and the cursor never
  leaves the buffer.
\<close>

theorem byte_reader_refines_parser:
  "refines br_u8 get_u8 \<and> refines br_u32 get_u32 \<and> refines br_u64 get_u64 \<and>
   refines (br_read n) (get_raw n) \<and> refines br_bytes get_bytes"
proof -
  have u32: "refines br_u32 get_u32"
    using refines_le [of 4] by (simp add: br_u32_def [abs_def] get_u32_def)
  moreover have "refines br_u64 get_u64"
    using refines_le [of 8] by (simp add: br_u64_def [abs_def] get_u64_def)
  moreover have "refines br_bytes get_bytes"
    unfolding br_bytes_def get_bytes_def by (rule refines_bind [OF u32 refines_read])
  ultimately show ?thesis
    by (simp add: refines_u8 refines_read)
qed

end
