(* ===== verification/Checksum.thy ===== *)
theory Checksum
  imports ByteBuffer
begin

text \<open>
  \<^verbatim>\<open>src/common/crc32.cpp\<close> and \<^verbatim>\<open>include/desentry/common/hex.h\<close>. The table-driven CRC that
  guards every record of the ledger, the transit log and the segment pages is proved equal to
  the bit-serial definition of the checksum, and every alteration confined to one byte of a
  record changes it.
\<close>

section \<open>CRC-32\<close>

definition crc_shift :: "u32 \<Rightarrow> u32" where
  "crc_shift c = (if c AND 1 \<noteq> 0 then 0xEDB88320 XOR drop_bit 1 c else drop_bit 1 c)"

definition kTable :: "u32 list" where
  "kTable = map (\<lambda>i. (crc_shift ^^ 8) (of_nat i)) [0..<256]"

definition crc_byte :: "u32 \<Rightarrow> byte \<Rightarrow> u32" where
  "crc_byte crc b = kTable ! unat ((crc XOR ucast b) AND 0xFF) XOR drop_bit 8 crc"

definition Crc32 :: "bytes \<Rightarrow> u32" where
  "Crc32 bs = foldl crc_byte 0xFFFFFFFF bs XOR 0xFFFFFFFF"

text \<open>The bit-serial checksum: shift the register eight times for every message byte.\<close>

definition crc_reference :: "bytes \<Rightarrow> u32" where
  "crc_reference bs =
     foldl (\<lambda>c b. (crc_shift ^^ 8) (c XOR ucast b)) 0xFFFFFFFF bs XOR 0xFFFFFFFF"

subsection \<open>The shift step is linear and injective\<close>

lemma crc_shift_odd:
  "crc_shift c = (if odd c then 0xEDB88320 XOR drop_bit 1 c else drop_bit 1 c)"
  by (simp add: crc_shift_def and_one_eq odd_iff_mod_2_eq_one)

lemma drop_bit_xor_word: "drop_bit n (x XOR y) = drop_bit n x XOR drop_bit n (y :: u32)"
  by (rule bit_eqI) (simp add: bit_drop_bit_eq bit_xor_iff)

lemma crc_shift_xor: "crc_shift (x XOR y) = crc_shift x XOR crc_shift y"
proof -
  have "(p XOR a) XOR (p XOR b) = a XOR (b :: u32)" for p a b
    by (simp add: xor.assoc xor.left_commute)
  then show ?thesis
    by (simp add: crc_shift_odd drop_bit_xor_word even_xor_iff xor.assoc xor.left_commute)
qed

lemma crc_shift_pow_xor: "(crc_shift ^^ n) (x XOR y) = (crc_shift ^^ n) x XOR (crc_shift ^^ n) y"
  by (induction n) (simp_all add: crc_shift_xor)

lemma crc_shift_bit31: "bit (crc_shift c) 31 = odd c"
proof -
  have "\<not> bit (drop_bit 1 c) 31"
    using bit_imp_le_length [of c 32] by (auto simp: bit_drop_bit_eq)
  moreover have "bit (0xEDB88320 :: u32) 31" by simp
  ultimately show ?thesis by (simp add: crc_shift_odd bit_xor_iff)
qed

lemma crc_shift_inject: "crc_shift x = crc_shift y \<Longrightarrow> x = y"
proof -
  assume eq: "crc_shift x = crc_shift y"
  have par: "odd x = odd y"
    using eq crc_shift_bit31 [of x] crc_shift_bit31 [of y] by simp
  have drop: "drop_bit 1 x = drop_bit 1 y"
    using eq par by (auto simp: crc_shift_odd split: if_splits)
  show "x = y"
  proof (rule bit_eqI)
    fix n
    show "bit x n = bit y n"
    proof (cases n)
      case 0
      with par show ?thesis by (simp add: bit_0)
    next
      case (Suc m)
      have "bit (drop_bit 1 x) m = bit (drop_bit 1 y) m" using drop by simp
      with Suc show ?thesis by (simp add: bit_drop_bit_eq)
    qed
  qed
qed

lemma crc_shift_pow_inject: "(crc_shift ^^ n) x = (crc_shift ^^ n) y \<Longrightarrow> x = y"
  by (induction n) (auto dest: crc_shift_inject)

lemma crc_shift_pow_high:
  "(\<And>i. i < n \<Longrightarrow> \<not> bit y i) \<Longrightarrow> (crc_shift ^^ n) y = drop_bit n y"
proof (induction n)
  case 0
  then show ?case by simp
next
  case (Suc n)
  then have "(crc_shift ^^ n) y = drop_bit n y" and "\<not> bit y n" by auto
  then have "(crc_shift ^^ Suc n) y = drop_bit 1 (drop_bit n y)"
    by (simp add: crc_shift_odd [of "drop_bit n y"] bit_iff_odd_drop_bit)
  then show ?case by (simp add: drop_bit_drop_bit)
qed

subsection \<open>The table computes eight shifts at once\<close>

lemma kTable_nth: "i < 256 \<Longrightarrow> kTable ! i = (crc_shift ^^ 8) (of_nat i)"
  by (simp add: kTable_def)

lemma low_byte_bound: "unat ((x :: u32) AND 0xFF) < 256"
proof -
  have "x AND 0xFF \<le> 0xFF" by (rule word_and_le1)
  then show ?thesis by (simp add: word_le_nat_alt)
qed

lemma low_byte_mask: "(0xFF :: u32) = mask 8"
  by (simp add: mask_eq_exp_minus_1)

lemma crc_byte_eq: "crc_byte c b = (crc_shift ^^ 8) (c XOR ucast b)"
proof -
  let ?x = "c XOR ucast b"
  have split: "?x = (?x AND 0xFF) XOR (?x AND NOT (mask 8))"
    unfolding low_byte_mask by (rule bit_eqI) (auto simp: bit_simps)
  have hi: "(crc_shift ^^ 8) (?x AND NOT (mask 8)) = drop_bit 8 c"
  proof -
    have "(crc_shift ^^ 8) (?x AND NOT (mask 8)) = drop_bit 8 (?x AND NOT (mask 8))"
      by (rule crc_shift_pow_high) (auto simp: bit_simps)
    also have "\<dots> = drop_bit 8 c"
      by (rule bit_eqI) (auto simp: bit_simps dest: bit_imp_le_length)
    finally show ?thesis .
  qed
  have lo: "kTable ! unat (?x AND 0xFF) = (crc_shift ^^ 8) (?x AND 0xFF)"
    using low_byte_bound [of ?x] by (simp add: kTable_nth)
  have "(crc_shift ^^ 8) ?x = (crc_shift ^^ 8) (?x AND 0xFF) XOR drop_bit 8 c"
    by (subst split) (simp only: crc_shift_pow_xor hi)
  then show ?thesis
    unfolding crc_byte_def lo by simp
qed

text \<open>
  C31: the table-driven checksum is the bit-serial CRC-32 on every input: the 256-entry table
  built at start-up makes one lookup do the work of eight register shifts.
\<close>

theorem crc32_table_correct: "Crc32 bs = crc_reference bs"
proof -
  have "crc_byte = (\<lambda>c b. (crc_shift ^^ 8) (c XOR ucast b))"
    by (intro ext) (rule crc_byte_eq)
  then show ?thesis by (simp add: Crc32_def crc_reference_def)
qed

subsection \<open>Error detection\<close>

lemma crc_byte_inject_reg: "crc_byte c b = crc_byte d b \<Longrightarrow> c = d"
proof -
  assume "crc_byte c b = crc_byte d b"
  then have "c XOR ucast b = d XOR ucast b"
    unfolding crc_byte_eq by (rule crc_shift_pow_inject)
  then show "c = d" by simp
qed

lemma crc_byte_inject_byte: "crc_byte c a = crc_byte c b \<Longrightarrow> a = b"
proof -
  assume "crc_byte c a = crc_byte c b"
  then have "c XOR ucast a = c XOR ucast b"
    unfolding crc_byte_eq by (rule crc_shift_pow_inject)
  then have "(ucast a :: u32) = ucast b" by simp
  then show "a = b" by (rule ucast_byte_inject) simp
qed

lemma crc_foldl_inject: "foldl crc_byte c bs = foldl crc_byte d bs \<Longrightarrow> c = d"
  by (induction bs arbitrary: c d) (auto dest: crc_byte_inject_reg)

text \<open>
  Any alteration of a single byte of a record is detected: two byte strings that differ in
  exactly one position have different checksums, whatever the length and the position.
\<close>

theorem crc32_detects_byte_change:
  assumes "a \<noteq> b"
  shows "Crc32 (xs @ a # ys) \<noteq> Crc32 (xs @ b # ys)"
proof
  assume "Crc32 (xs @ a # ys) = Crc32 (xs @ b # ys)"
  then have "foldl crc_byte (crc_byte (foldl crc_byte 0xFFFFFFFF xs) a) ys =
             foldl crc_byte (crc_byte (foldl crc_byte 0xFFFFFFFF xs) b) ys"
    by (simp add: Crc32_def)
  then have "crc_byte (foldl crc_byte 0xFFFFFFFF xs) a = crc_byte (foldl crc_byte 0xFFFFFFFF xs) b"
    by (rule crc_foldl_inject)
  then show False using assms crc_byte_inject_byte by blast
qed

theorem crc32_detects_byte_change_witness:
  "(0 :: byte) \<noteq> 1 \<and> Crc32 ([7, 9] @ 0 # [255]) \<noteq> Crc32 ([7, 9] @ 1 # [255])"
proof -
  have "(0 :: byte) \<noteq> 1" by simp
  then show ?thesis using crc32_detects_byte_change [of 0 1 "[7, 9]" "[255]"] by blast
qed

section \<open>Hexadecimal rendering\<close>

definition kHex :: bytes where
  "kHex = bytes_of ''0123456789abcdef''"

definition HexEncode :: "bytes \<Rightarrow> bytes" where
  "HexEncode bs = concat (map (\<lambda>c. [kHex ! unat (drop_bit 4 c), kHex ! unat (c AND 15)]) bs)"

lemma length_HexEncode: "length (HexEncode bs) = 2 * length bs"
  by (induction bs) (simp_all add: HexEncode_def)

end
