(* ===== verification/Hlc.thy ===== *)
theory Hlc
  imports ByteBuffer
begin

text \<open>
  \<^verbatim>\<open>include/desentry/crdt/hlc.h\<close> and \<^verbatim>\<open>src/crdt/hlc.cpp\<close>: hybrid logical clock
  timestamps, their total order and byte encoding, and the per-node clock that issues them.
  The wall clock is an argument of the operations that read it. All arithmetic is at the width
  of the source (64-bit milliseconds, 32-bit logical counter), so wrap-around is part of the
  model.
\<close>

section \<open>Timestamps\<close>

datatype hlc = HLC (physical_ms: u64) (logical: u32) (node_id: bytes)

instantiation hlc :: linorder
begin

definition less_hlc :: "hlc \<Rightarrow> hlc \<Rightarrow> bool" where
  "less_hlc a b =
     (if physical_ms a \<noteq> physical_ms b then physical_ms a < physical_ms b
      else if logical a \<noteq> logical b then logical a < logical b
      else node_id a < node_id b)"

definition less_eq_hlc :: "hlc \<Rightarrow> hlc \<Rightarrow> bool" where
  "less_eq_hlc a b = (\<not> (b < a))"

instance
proof
  fix x y z :: hlc
  show "(x < y) = (x \<le> y \<and> \<not> y \<le> x)"
    by (auto simp: less_hlc_def less_eq_hlc_def split: if_splits)
  show "x \<le> x" by (simp add: less_hlc_def less_eq_hlc_def)
  show "x \<le> y \<or> y \<le> x" by (auto simp: less_hlc_def less_eq_hlc_def)
  show "x \<le> y \<Longrightarrow> y \<le> x \<Longrightarrow> x = y"
    by (cases x; cases y) (auto simp: less_hlc_def less_eq_hlc_def split: if_splits)
  show "x \<le> y \<Longrightarrow> y \<le> z \<Longrightarrow> x \<le> z"
    by (cases x; cases y; cases z) (auto simp: less_hlc_def less_eq_hlc_def split: if_splits)
qed

end

text \<open>\<^verbatim>\<open>HLCTimestamp::ToString\<close>.\<close>

definition hlc_to_string :: "hlc \<Rightarrow> bytes" where
  "hlc_to_string ts =
     to_string_nat (unat (physical_ms ts)) @ bytes_of ''.'' @
     to_string_nat (unat (logical ts)) @ bytes_of ''@'' @ node_id ts"

text \<open>
  \<^verbatim>\<open>Encode\<close>: twelve fixed bytes, then the node id with no length of its own. \<^verbatim>\<open>Decode\<close>
  returns the default timestamp on fewer than twelve bytes.
\<close>

definition hlc_encode :: "hlc \<Rightarrow> bytes" where
  "hlc_encode ts = le_bytes 8 (physical_ms ts) @ le_bytes 4 (logical ts) @ node_id ts"

definition hlc_decode :: "bytes \<Rightarrow> hlc" where
  "hlc_decode bs =
     (if length bs < 12 then HLC 0 0 []
      else HLC (le_word (take 8 bs)) (le_word (take 4 (drop 8 bs))) (drop 12 bs))"

section \<open>The clock\<close>

definition kMaxFutureSkewMs :: u64 where
  "kMaxFutureSkewMs = 300000"

definition UINT32_MAX :: u32 where
  "UINT32_MAX = 0xFFFFFFFF"

record clock =
  clk_node_id :: bytes
  last_physical :: u64
  last_logical :: u32

definition Now :: "u64 \<Rightarrow> clock \<Rightarrow> hlc \<times> clock" where
  "Now wall c =
     (let c' = (if wall > last_physical c
                then c\<lparr>last_physical := wall, last_logical := 0\<rparr>
                else c\<lparr>last_logical := last_logical c + 1\<rparr>)
      in (HLC (last_physical c') (last_logical c') (clk_node_id c'), c'))"

definition Observe :: "u64 \<Rightarrow> hlc \<Rightarrow> clock \<Rightarrow> bool \<times> clock" where
  "Observe wall remote c =
     (if physical_ms remote > wall + kMaxFutureSkewMs then (False, c)
      else if last_logical c = UINT32_MAX \<or> logical remote = UINT32_MAX then (False, c)
      else
        let max_physical = max wall (max (last_physical c) (physical_ms remote));
            l = (if max_physical = last_physical c \<and> max_physical = physical_ms remote
                 then max (last_logical c) (logical remote) + 1
                 else if max_physical = last_physical c then last_logical c + 1
                 else if max_physical = physical_ms remote then logical remote + 1
                 else 0)
        in (True, c\<lparr>last_physical := max_physical, last_logical := l\<rparr>))"

definition Restore :: "u64 \<Rightarrow> u32 \<Rightarrow> clock \<Rightarrow> clock" where
  "Restore p l c =
     (if p > last_physical c \<or> (p = last_physical c \<and> l > last_logical c)
      then c\<lparr>last_physical := p, last_logical := l\<rparr> else c)"

text \<open>
  A clock's life: the calls made to it, in the order the mutex serialises them. \<open>clock_step\<close>
  returns the timestamp the call issued, or the remote timestamp it accepted.
\<close>

datatype clock_op = OpNow u64 | OpObserve u64 hlc | OpRestore u64 u32

fun clock_step :: "clock_op \<Rightarrow> clock \<Rightarrow> hlc list \<times> clock" where
  "clock_step (OpNow w) c = (case Now w c of (ts, c') \<Rightarrow> ([ts], c'))"
| "clock_step (OpObserve w r) c =
     (case Observe w r c of (ok, c') \<Rightarrow> (if ok then [r] else [], c'))"
| "clock_step (OpRestore p l) c = ([], Restore p l c)"

text \<open>\<open>no_wrap\<close>: the one call that can wrap the counter is \<^verbatim>\<open>Now\<close> at the top of its range.\<close>

fun no_wrap :: "clock_op \<Rightarrow> clock \<Rightarrow> bool" where
  "no_wrap (OpNow w) c = (w > last_physical c \<or> last_logical c \<noteq> UINT32_MAX)"
| "no_wrap _ c = True"

fun clock_run :: "clock_op list \<Rightarrow> clock \<Rightarrow> hlc list \<times> clock" where
  "clock_run [] c = ([], c)"
| "clock_run (op # ops) c =
     (case clock_step op c of (seen, c1) \<Rightarrow>
      case clock_run ops c1 of (seen', c2) \<Rightarrow> (seen @ seen', c2))"

fun run_no_wrap :: "clock_op list \<Rightarrow> clock \<Rightarrow> bool" where
  "run_no_wrap [] c = True"
| "run_no_wrap (op # ops) c = (no_wrap op c \<and> run_no_wrap ops (snd (clock_step op c)))"

section \<open>Lemmas\<close>

text \<open>\<open>covers c ts\<close>: the clock has reached the physical and logical parts of \<open>ts\<close>.\<close>

definition covers :: "clock \<Rightarrow> hlc \<Rightarrow> bool" where
  "covers c ts \<longleftrightarrow>
     physical_ms ts < last_physical c \<or>
     (physical_ms ts = last_physical c \<and> logical ts \<le> last_logical c)"

definition clock_le :: "clock \<Rightarrow> clock \<Rightarrow> bool" where
  "clock_le c d \<longleftrightarrow>
     last_physical c < last_physical d \<or>
     (last_physical c = last_physical d \<and> last_logical c \<le> last_logical d)"

lemma u32_less_Suc: "(x :: u32) \<noteq> UINT32_MAX \<Longrightarrow> x < x + 1"
proof -
  assume "x \<noteq> UINT32_MAX"
  then have "unat x \<noteq> unat UINT32_MAX" by (metis word_unat_eq_iff)
  then have "unat x \<noteq> 2 ^ 32 - 1" by (simp add: UINT32_MAX_def)
  moreover have "unat x < 2 ^ 32" using unsigned_less [of x] by simp
  ultimately show "x < x + 1" by (simp add: word_less_nat_alt unat_word_ariths)
qed

lemma clock_le_refl [simp]: "clock_le c c"
  by (simp add: clock_le_def)

lemma clock_le_trans: "clock_le a b \<Longrightarrow> clock_le b c \<Longrightarrow> clock_le a c"
  by (auto simp: clock_le_def)

lemma covers_mono: "covers c ts \<Longrightarrow> clock_le c d \<Longrightarrow> covers d ts"
  by (auto simp: covers_def clock_le_def)

lemma now_covers: "Now w c = (ts, d) \<Longrightarrow> covers d ts"
  by (auto simp: Now_def covers_def Let_def)

lemma now_increases: "no_wrap (OpNow w) c \<Longrightarrow> Now w c = (ts, d) \<Longrightarrow> clock_le c d"
  by (auto simp: Now_def clock_le_def Let_def dest: u32_less_Suc split: if_splits)

lemma observe_max_Suc:
  assumes "a \<noteq> UINT32_MAX" "b \<noteq> UINT32_MAX"
  shows "a < max a b + 1" "b < max a b + 1"
  using assms u32_less_Suc [of "max a b"] by (auto simp: max_def split: if_splits)

lemma observe_increases: "Observe w r c = (ok, d) \<Longrightarrow> clock_le c d"
  by (auto simp: Observe_def clock_le_def Let_def max_def observe_max_Suc
      dest!: u32_less_Suc split: if_splits)

lemma observe_covers: "Observe w r c = (True, d) \<Longrightarrow> covers d r"
  by (auto simp: Observe_def covers_def Let_def max_def observe_max_Suc
      dest!: u32_less_Suc split: if_splits)

lemma restore_increases: "clock_le c (Restore p l c)"
  by (auto simp: Restore_def clock_le_def)

lemma clock_step_increases: "no_wrap op c \<Longrightarrow> clock_le c (snd (clock_step op c))"
  by (cases op)
    (auto split: prod.splits simp: restore_increases dest: observe_increases
      intro: now_increases [simplified])

lemma clock_step_covers: "t \<in> set (fst (clock_step op c)) \<Longrightarrow> covers (snd (clock_step op c)) t"
  by (cases op) (auto split: prod.splits if_splits dest: now_covers observe_covers)

lemma clock_run_increases: "run_no_wrap ops c \<Longrightarrow> clock_le c (snd (clock_run ops c))"
proof (induction ops arbitrary: c)
  case (Cons op ops)
  have "clock_le c (snd (clock_step op c))"
    by (rule clock_step_increases) (use Cons.prems in simp)
  then have "clock_le c (snd (clock_run ops (snd (clock_step op c))))"
    by (rule clock_le_trans) (rule Cons.IH, use Cons.prems in simp)
  then show ?case by (auto split: prod.splits)
qed simp

lemma clock_run_covers:
  "run_no_wrap ops c \<Longrightarrow> t \<in> set (fst (clock_run ops c)) \<Longrightarrow> covers (snd (clock_run ops c)) t"
proof (induction ops arbitrary: c)
  case Nil
  then show ?case by simp
next
  case (Cons op ops)
  obtain s1 c1 where s: "clock_step op c = (s1, c1)" by force
  obtain s2 c2 where r: "clock_run ops c1 = (s2, c2)" by force
  have c12: "clock_le c1 c2" using clock_run_increases [of ops c1] Cons.prems(1) s r by simp
  show ?case
    using Cons s r c12 clock_step_covers [of t op c] covers_mono [of c1 t c2]
    by (auto dest: Cons.IH)
qed

lemma now_after_covered:
  assumes "covers c t" "no_wrap (OpNow w) c"
  shows "t < fst (Now w c)"
  using assms u32_less_Suc [of "last_logical c"]
  by (auto simp: covers_def Now_def Let_def less_hlc_def)

lemma hlc_decode_encode [simp]: "hlc_decode (hlc_encode ts) = ts"
  by (cases ts) (simp add: hlc_decode_def hlc_encode_def le_word_le_bytes)

section \<open>Properties\<close>

text \<open>
  C23: a clock's timestamps are causally ordered. After any sequence of calls to \<^verbatim>\<open>Now\<close>,
  \<^verbatim>\<open>Observe\<close> and \<^verbatim>\<open>Restore\<close>, under any wall-clock readings (steps back included), the
  next timestamp is greater than every timestamp the clock issued and every remote timestamp it
  accepted, provided no call to \<^verbatim>\<open>Now\<close> finds the logical counter at its maximum while the
  wall clock has not advanced.
\<close>

theorem now_greater_than_all_seen:
  assumes "run_no_wrap ops c" "no_wrap (OpNow w) (snd (clock_run ops c))"
    and "t \<in> set (fst (clock_run ops c))"
  shows "t < fst (Now w (snd (clock_run ops c)))"
  using now_after_covered [OF clock_run_covers [OF assms(1,3)] assms(2)] .

theorem now_greater_than_all_seen_witness:
  "let c = \<lparr>clk_node_id = [97], last_physical = 5, last_logical = 0\<rparr>;
       ops = [OpNow 3, OpObserve 4 (HLC 9 7 [98]), OpRestore 9 1, OpNow 2]
   in run_no_wrap ops c \<and> no_wrap (OpNow 1) (snd (clock_run ops c)) \<and>
      HLC 9 7 [98] \<in> set (fst (clock_run ops c)) \<and>
      HLC 9 7 [98] < fst (Now 1 (snd (clock_run ops c)))"
proof -
  define c where "c = \<lparr>clk_node_id = [97], last_physical = 5, last_logical = 0\<rparr>"
  define ops where "ops = [OpNow 3, OpObserve 4 (HLC 9 7 [98]), OpRestore 9 1, OpNow 2]"
  have "run_no_wrap ops c" "no_wrap (OpNow 1) (snd (clock_run ops c))"
    "HLC 9 7 [98] \<in> set (fst (clock_run ops c))"
    by (simp_all add: ops_def c_def Now_def Observe_def Restore_def kMaxFutureSkewMs_def
        UINT32_MAX_def max_def)
  then show ?thesis
    using now_greater_than_all_seen [of ops c 1 "HLC 9 7 [98]"]
    unfolding Let_def c_def ops_def by blast
qed

text \<open>
  The guarantee fails at the top of the logical counter. \<^verbatim>\<open>Observe\<close> refuses a remote
  counter of \<^verbatim>\<open>UINT32_MAX\<close> but accepts \<^verbatim>\<open>UINT32_MAX - 1\<close>, which takes the local counter
  to \<^verbatim>\<open>UINT32_MAX\<close>; \<^verbatim>\<open>Now\<close> increments without a check, so its next timestamp is smaller
  than the accepted one.
\<close>

theorem now_wraps_after_accepted_observe:
  "\<exists>c r wall. fst (Observe wall r c) \<and> fst (Now wall (snd (Observe wall r c))) < r"
proof (intro exI conjI)
  let ?c = "\<lparr>clk_node_id = [97], last_physical = 5, last_logical = 0\<rparr>"
  let ?r = "HLC 9 (UINT32_MAX - 1) [98]"
  show "fst (Observe 5 ?r ?c)"
    by (simp add: Observe_def kMaxFutureSkewMs_def UINT32_MAX_def)
  show "fst (Now 5 (snd (Observe 5 ?r ?c))) < ?r"
    by (simp add: Observe_def Now_def kMaxFutureSkewMs_def UINT32_MAX_def max_def less_hlc_def)
qed

text \<open>
  A remote timestamp cannot drag the clock into the future. While the skew bound does not
  overflow 64 bits, after any \<^verbatim>\<open>Observe\<close> the clock's physical part is at most the larger of
  its previous value and the wall clock plus five minutes; and a call that returns false changes
  nothing.
\<close>

theorem observe_bounds_skew:
  assumes "unat wall + unat kMaxFutureSkewMs < 2 ^ 64"
  shows "last_physical (snd (Observe wall r c)) \<le> max (last_physical c) (wall + kMaxFutureSkewMs)
         \<and> (\<not> fst (Observe wall r c) \<longrightarrow> snd (Observe wall r c) = c)"
proof -
  have "wall \<le> wall + kMaxFutureSkewMs"
    using assms by (simp add: word_le_nat_alt unat_word_ariths)
  then show ?thesis by (auto simp: Observe_def Let_def max_def not_less)
qed

theorem observe_bounds_skew_witness:
  "unat (1000 :: u64) + unat kMaxFutureSkewMs < 2 ^ 64 \<and>
   last_physical (snd (Observe 1000 (HLC 300000 2 [98])
     \<lparr>clk_node_id = [97], last_physical = 5, last_logical = 0\<rparr>)) \<le> max 5 (1000 + kMaxFutureSkewMs)"
proof -
  have "unat (1000 :: u64) + unat kMaxFutureSkewMs < 2 ^ 64" by (simp add: kMaxFutureSkewMs_def)
  then show ?thesis
    using observe_bounds_skew [of 1000 "HLC 300000 2 [98]"
        "\<lparr>clk_node_id = [97], last_physical = 5, last_logical = 0\<rparr>"] by simp
qed

text \<open>
  The byte encoding of timestamps is a bijection onto the byte strings of at least twelve
  bytes: decoding an encoding returns the timestamp, and re-encoding any decoded string of that
  length returns the string.
\<close>

theorem hlc_encode_decode:
  "hlc_decode (hlc_encode ts) = ts \<and> (12 \<le> length bs \<longrightarrow> hlc_encode (hlc_decode bs) = bs)"
proof
  show "hlc_decode (hlc_encode ts) = ts" by (rule hlc_decode_encode)
  show "12 \<le> length bs \<longrightarrow> hlc_encode (hlc_decode bs) = bs"
  proof
    assume n: "12 \<le> length bs"
    have "take 8 bs @ take 4 (drop 8 bs) @ drop 4 (drop 8 bs) = bs"
      by (simp only: append_take_drop_id)
    with n show "hlc_encode (hlc_decode bs) = bs"
      by (simp add: hlc_decode_def hlc_encode_def le_bytes_le_word)
  qed
qed

theorem hlc_encode_decode_witness:
  "12 \<le> length (replicate 13 (7 :: byte)) \<and>
   hlc_encode (hlc_decode (replicate 13 7)) = replicate 13 7"
  using hlc_encode_decode [of "HLC 0 0 []" "replicate 13 7"] by simp

end
