(* ===== verification/Json.thy ===== *)
theory Json
  imports Prelude
begin

text \<open>
  \<^verbatim>\<open>include/desentry/common/json.h\<close>: the JSON value tree the API and the CRDT layer exchange.
  Objects are insertion-ordered lists of pairs, as in the source, so that duplicate keys and
  order are visible. An \<^verbatim>\<open>int64_t\<close> is an integer; a \<^verbatim>\<open>double\<close> is its 64-bit IEEE 754
  representation, with the comparison and the conversion from integers the code uses.
\<close>

section \<open>Doubles as bit patterns\<close>

definition dbl_abs :: "u64 \<Rightarrow> u64" where
  "dbl_abs w = w AND 0x7FFFFFFFFFFFFFFF"

definition dbl_is_nan :: "u64 \<Rightarrow> bool" where
  "dbl_is_nan w = (dbl_abs w > 0x7FF0000000000000)"

definition dbl_is_finite :: "u64 \<Rightarrow> bool" where
  "dbl_is_finite w = (dbl_abs w < 0x7FF0000000000000)"

text \<open>C++ \<^verbatim>\<open>==\<close> on doubles: NaN differs from itself, the two zeros are equal.\<close>

definition dbl_eq :: "u64 \<Rightarrow> u64 \<Rightarrow> bool" where
  "dbl_eq a b =
     (\<not> dbl_is_nan a \<and> \<not> dbl_is_nan b \<and> (a = b \<or> dbl_abs a = 0 \<and> dbl_abs b = 0))"

fun bit_length :: "nat \<Rightarrow> nat" where
  "bit_length n = (if n = 0 then 0 else Suc (bit_length (n div 2)))"

declare bit_length.simps [simp del]

text \<open>\<^verbatim>\<open>static_cast<double>\<close> of an integer: exact up to 53 bits, else round half to even.\<close>

definition round_even :: "nat \<Rightarrow> nat \<Rightarrow> nat" where
  "round_even n s =
     (let q = n div 2 ^ s; r = n mod 2 ^ s
      in if 2 * r > 2 ^ s \<or> (2 * r = 2 ^ s \<and> odd q) then q + 1 else q)"

definition nat_to_double :: "nat \<Rightarrow> u64" where
  "nat_to_double n =
     (if n = 0 then 0
      else let e = bit_length n - 1;
               m = (if e \<le> 52 then n * 2 ^ (52 - e) else round_even n (e - 52))
           in of_nat ((e + 1022) * 2 ^ 52 + m))"

definition int_to_double :: "int \<Rightarrow> u64" where
  "int_to_double i =
     (if i < 0 then nat_to_double (nat (- i)) OR 0x8000000000000000 else nat_to_double (nat i))"

section \<open>Values\<close>

datatype json =
    JNull
  | JBool bool
  | JInt int
  | JDouble u64
  | JString bytes
  | JArray "json list"
  | JObject "(bytes \<times> json) list"

fun is_array :: "json \<Rightarrow> bool" where
  "is_array (JArray _) = True"
| "is_array _ = False"

fun is_object :: "json \<Rightarrow> bool" where
  "is_object (JObject _) = True"
| "is_object _ = False"

fun AsObject :: "json \<Rightarrow> (bytes \<times> json) list" where
  "AsObject (JObject fs) = fs"
| "AsObject _ = []"

text \<open>\<^verbatim>\<open>Find\<close>: the first field of that name.\<close>

fun find_field :: "bytes \<Rightarrow> (bytes \<times> 'v) list \<Rightarrow> 'v option" where
  "find_field key [] = None"
| "find_field key ((k, v) # fs) = (if k = key then Some v else find_field key fs)"

definition Find :: "json \<Rightarrow> bytes \<Rightarrow> json option" where
  "Find j key = find_field key (AsObject j)"

definition Has :: "json \<Rightarrow> bytes \<Rightarrow> bool" where
  "Has j key = (Find j key \<noteq> None)"

fun set_field :: "bytes \<Rightarrow> 'v \<Rightarrow> (bytes \<times> 'v) list \<Rightarrow> (bytes \<times> 'v) list" where
  "set_field key x [] = [(key, x)]"
| "set_field key x ((k, v) # fs) = (if k = key then (k, x) # fs else (k, v) # set_field key x fs)"

definition Get :: "json \<Rightarrow> bytes \<Rightarrow> json" where
  "Get j key = (case Find j key of Some v \<Rightarrow> v | None \<Rightarrow> JNull)"

section \<open>Lemmas\<close>

lemma find_field_map_of: "find_field key fs = map_of fs key"
  by (induction fs) auto

lemma find_set_field: "find_field k (set_field key x fs) = (if k = key then Some x else find_field k fs)"
  by (induction fs) auto

lemma set_field_keys:
  "map fst (set_field key x fs) =
     (if key \<in> fst ` set fs then map fst fs else map fst fs @ [key])"
  by (induction fs) force+

lemma dbl_eq_refl: "\<not> dbl_is_nan d \<Longrightarrow> dbl_eq d d"
  by (simp add: dbl_eq_def)

text \<open>
  A tree on which comparison is an equivalence: no NaN anywhere, and no object with two fields
  of one name.
\<close>

fun plain :: "json \<Rightarrow> bool" where
  "plain (JDouble d) = (\<not> dbl_is_nan d)"
| "plain (JArray xs) = list_all plain xs"
| "plain (JObject fs) = (distinct (map fst fs) \<and> list_all (\<lambda>(_, v). plain v) fs)"
| "plain _ = True"

end
