(* ===== verification/CrdtDocument.thy ===== *)
theory CrdtDocument
  imports Hlc Json
begin

text \<open>
  \<^verbatim>\<open>include/desentry/crdt/document.h\<close> and \<^verbatim>\<open>src/crdt/document.cpp\<close>: the CRDT tree, its
  construction from JSON, the local update, the merge and the materialisation. The process-wide
  OR-Set tag counter is threaded explicitly. This theory holds the definitions and what they
  show of local writes; \<^verbatim>\<open>CrdtMerge\<close> holds the theory of \<^verbatim>\<open>Merge\<close> and
  \<^verbatim>\<open>CrdtCodec\<close> the byte encoding.

  Array elements are \<open>(tag, value, tombstone)\<close>, object fields \<open>(key, value)\<close>: both are keyed
  lists, so the hash join of \<^verbatim>\<open>Merge\<close> is one definition. \<^verbatim>\<open>std::sort\<close> leaves the order of
  equal keys open; the model takes the stable order.
\<close>

section \<open>The tree\<close>

datatype scalar = SNull | SBool bool | SInt int | SDouble u64 | SString bytes

datatype crdt =
    CScalar (ts: hlc) (tombstone: bool) scalar
  | is_CArray: CArray (ts: hlc) (tombstone: bool) "(bytes \<times> crdt \<times> bool) list"
  | is_CObject: CObject (ts: hlc) (tombstone: bool) "(bytes \<times> crdt) list"

definition MakeTombstone :: "hlc \<Rightarrow> crdt" where
  "MakeTombstone t = CScalar t True SNull"

section \<open>The tag counter\<close>

definition RestoreTagCounter :: "u64 \<Rightarrow> u64 \<Rightarrow> u64" where
  "RestoreTagCounter v cur = (if v > cur then v else cur)"

definition NextTag :: "hlc \<Rightarrow> u64 \<Rightarrow> bytes \<times> u64" where
  "NextTag t seq =
     (node_id t @ bytes_of '':'' @ to_string_nat (unat (physical_ms t)) @ bytes_of ''.'' @
      to_string_nat (unat (logical t)) @ bytes_of ''#'' @ to_string_nat (unat seq), seq + 1)"

section \<open>Comparison and materialisation\<close>

text \<open>\<^verbatim>\<open>AsDouble\<close> on the two number types, for the mixed comparison.\<close>

fun json_equals :: "json \<Rightarrow> json \<Rightarrow> bool" where
  "json_equals JNull JNull = True"
| "json_equals (JBool a) (JBool b) = (a = b)"
| "json_equals (JInt a) (JInt b) = (a = b)"
| "json_equals (JDouble a) (JDouble b) = dbl_eq a b"
| "json_equals (JInt a) (JDouble b) = dbl_eq (int_to_double a) b"
| "json_equals (JDouble a) (JInt b) = dbl_eq a (int_to_double b)"
| "json_equals (JString a) (JString b) = (a = b)"
| "json_equals (JArray xs) (JArray ys) = (length xs = length ys \<and> list_all2 json_equals xs ys)"
| "json_equals (JObject f) (JObject g) =
     (length f = length g \<and>
      list_all (\<lambda>kv. case find_field (fst kv) g of
                       None \<Rightarrow> False | Some other \<Rightarrow> json_equals (snd kv) other) f)"
| "json_equals _ _ = False"

fun scalar_to_json :: "scalar \<Rightarrow> json" where
  "scalar_to_json SNull = JNull"
| "scalar_to_json (SBool b) = JBool b"
| "scalar_to_json (SInt i) = JInt i"
| "scalar_to_json (SDouble d) = JDouble d"
| "scalar_to_json (SString s) = JString s"

fun to_json :: "crdt \<Rightarrow> json" where
  "to_json (CScalar t d s) = (if d then JNull else scalar_to_json s)"
| "to_json (CArray t d es) =
     (if d then JNull
      else JArray (map (\<lambda>e. to_json (fst (snd e))) (filter (\<lambda>e. \<not> snd (snd e)) es)))"
| "to_json (CObject t d fs) =
     (if d then JNull
      else JObject (map (\<lambda>f. (fst f, to_json (snd f))) (filter (\<lambda>f. \<not> tombstone (snd f)) fs)))"

definition IsEmpty :: "crdt \<Rightarrow> bool" where
  "IsEmpty v = (case v of CObject _ _ fs \<Rightarrow> list_all (\<lambda>f. tombstone (snd f)) fs | _ \<Rightarrow> tombstone v)"

definition later :: "hlc \<Rightarrow> hlc \<Rightarrow> hlc" where
  "later best t = (if t > best then t else best)"

fun MaxTimestamp :: "crdt \<Rightarrow> hlc" where
  "MaxTimestamp (CScalar t d s) = t"
| "MaxTimestamp (CArray t d es) = foldl later t (map (\<lambda>e. MaxTimestamp (fst (snd e))) es)"
| "MaxTimestamp (CObject t d fs) = foldl later t (map (\<lambda>f. MaxTimestamp (snd f)) fs)"

section \<open>Construction and local update\<close>

fun FromJson :: "json \<Rightarrow> hlc \<Rightarrow> u64 \<Rightarrow> crdt \<times> u64"
  and FromJsonElems :: "json list \<Rightarrow> hlc \<Rightarrow> u64 \<Rightarrow> (bytes \<times> crdt \<times> bool) list \<times> u64"
  and FromJsonFields :: "(bytes \<times> json) list \<Rightarrow> hlc \<Rightarrow> u64 \<Rightarrow> (bytes \<times> crdt) list \<times> u64" where
  "FromJson JNull t c = (CScalar t False SNull, c)"
| "FromJson (JBool b) t c = (CScalar t False (SBool b), c)"
| "FromJson (JInt i) t c = (CScalar t False (SInt i), c)"
| "FromJson (JDouble d) t c = (CScalar t False (SDouble d), c)"
| "FromJson (JString s) t c = (CScalar t False (SString s), c)"
| "FromJson (JArray xs) t c = (let (es, c) = FromJsonElems xs t c in (CArray t False es, c))"
| "FromJson (JObject fs) t c = (let (es, c) = FromJsonFields fs t c in (CObject t False es, c))"
| "FromJsonElems [] t c = ([], c)"
| "FromJsonElems (x # xs) t c =
     (let (tag, c) = NextTag t c; (v, c) = FromJson x t c; (es, c) = FromJsonElems xs t c
      in ((tag, v, False) # es, c))"
| "FromJsonFields [] t c = ([], c)"
| "FromJsonFields ((k, x) # fs) t c =
     (let (v, c) = FromJson x t c; (es, c) = FromJsonFields fs t c in ((k, v) # es, c))"

text \<open>
  The array branch of \<^verbatim>\<open>ApplyJsonUpdate\<close>: \<open>match_elem\<close> is the inner scan for the first
  unmatched live element equal to the new one, \<open>update_elems\<close> the outer loop. The flags are the
  source's \<^verbatim>\<open>matched\<close> vector.
\<close>

fun match_elem ::
  "json \<Rightarrow> (bytes \<times> crdt \<times> bool) list \<Rightarrow> bool list \<Rightarrow> ((bytes \<times> crdt \<times> bool) \<times> bool list) option"
where
  "match_elem j (e # es) (m # ms) =
     (if \<not> m \<and> \<not> snd (snd e) \<and> json_equals (to_json (fst (snd e))) j then Some (e, True # ms)
      else do { (x, ms) \<leftarrow> match_elem j es ms; Some (x, m # ms) })"
| "match_elem j _ _ = None"

fun update_elems ::
  "json list \<Rightarrow> (bytes \<times> crdt \<times> bool) list \<Rightarrow> bool list \<Rightarrow> hlc \<Rightarrow> u64 \<Rightarrow>
     (bytes \<times> crdt \<times> bool) list \<times> bool list \<times> u64" where
  "update_elems [] prev ms t c = ([], ms, c)"
| "update_elems (j # js) prev ms t c =
     (case match_elem j prev ms of
        Some (e, ms) \<Rightarrow> (let (es, ms, c) = update_elems js prev ms t c in (e # es, ms, c))
      | None \<Rightarrow>
          let (tag, c) = NextTag t c; (v, c) = FromJson j t c;
              (es, ms, c) = update_elems js prev ms t c
          in ((tag, v, False) # es, ms, c))"

fun carry_elems :: "(bytes \<times> crdt \<times> bool) list \<Rightarrow> bool list \<Rightarrow> (bytes \<times> crdt \<times> bool) list" where
  "carry_elems (e # es) (m # ms) =
     (if m then carry_elems es ms else (fst e, fst (snd e), True) # carry_elems es ms)"
| "carry_elems _ _ = []"

definition carry_fields :: "json \<Rightarrow> hlc \<Rightarrow> (bytes \<times> crdt) list \<Rightarrow> (bytes \<times> crdt) list" where
  "carry_fields new_json t fs =
     map (\<lambda>f. (fst f, if tombstone (snd f) then snd f else MakeTombstone t))
       (filter (\<lambda>f. \<not> Has new_json (fst f)) fs)"

fun ApplyJsonUpdate :: "json \<Rightarrow> crdt \<Rightarrow> hlc \<Rightarrow> u64 \<Rightarrow> crdt \<times> u64"
  and update_fields ::
    "(bytes \<times> json) list \<Rightarrow> (bytes \<times> crdt) list \<Rightarrow> hlc \<Rightarrow> u64 \<Rightarrow> (bytes \<times> crdt) list \<times> u64" where
  "ApplyJsonUpdate new_json previous t c =
     (if \<not> tombstone previous \<and> json_equals (to_json previous) new_json then (previous, c)
      else case (previous, new_json) of
        (CObject _ False prev, JObject fs) \<Rightarrow>
          (let (out, c) = update_fields fs prev t c
           in (CObject t False (out @ carry_fields new_json t prev), c))
      | (CArray _ False prev, JArray js) \<Rightarrow>
          (let (out, ms, c) = update_elems js prev (replicate (length prev) False) t c
           in (CArray t False (out @ carry_elems prev ms), c))
      | _ \<Rightarrow> FromJson new_json t c)"
| "update_fields [] prev t c = ([], c)"
| "update_fields ((key, new_child) # fs) prev t c =
     (let (v, c) = (case find_field key prev of
                      Some prev_child \<Rightarrow> ApplyJsonUpdate new_child prev_child t c
                    | None \<Rightarrow> FromJson new_child t c);
          (out, c) = update_fields fs prev t c
      in ((key, v) # out, c))"

declare ApplyJsonUpdate.simps [simp del]

section \<open>Merge\<close>

text \<open>
  The hash join: index \<open>b\<close> by key (a later duplicate replaces an earlier one), walk \<open>a\<close>
  consuming matches, then append the fields of \<open>b\<close> whose key is still in the index.
\<close>

definition index_fields :: "(bytes \<times> 'v) list \<Rightarrow> bytes \<rightharpoonup> 'v" where
  "index_fields b = foldl (\<lambda>m kv. m(fst kv \<mapsto> snd kv)) Map.empty b"

fun join_walk ::
  "('v \<Rightarrow> 'v \<Rightarrow> 'v) \<Rightarrow> (bytes \<times> 'v) list \<Rightarrow> (bytes \<rightharpoonup> 'v) \<Rightarrow> (bytes \<times> 'v) list \<times> (bytes \<rightharpoonup> 'v)" where
  "join_walk m [] bmap = ([], bmap)"
| "join_walk m ((key, av) # a) bmap =
     (case bmap key of
        Some bv \<Rightarrow> (let (out, bmap) = join_walk m a (bmap(key := None)) in ((key, m av bv) # out, bmap))
      | None \<Rightarrow> (let (out, bmap) = join_walk m a bmap in ((key, av) # out, bmap)))"

definition hash_join ::
  "('v \<Rightarrow> 'v \<Rightarrow> 'v) \<Rightarrow> (bytes \<times> 'v) list \<Rightarrow> (bytes \<times> 'v) list \<Rightarrow> (bytes \<times> 'v) list" where
  "hash_join m a b =
     (let (out, bmap) = join_walk m a (index_fields b)
      in sort_key fst (out @ filter (\<lambda>kv. bmap (fst kv) \<noteq> None) b))"

text \<open>Two elements of one tag: the values merge, removal is sticky.\<close>

definition merge_elem :: "('v \<Rightarrow> 'v \<Rightarrow> 'v) \<Rightarrow> 'v \<times> bool \<Rightarrow> 'v \<times> bool \<Rightarrow> 'v \<times> bool" where
  "merge_elem m a b = (m (fst a) (fst b), snd a \<or> snd b)"

definition lww :: "crdt \<Rightarrow> crdt \<Rightarrow> crdt" where
  "lww a b = (if ts b > ts a then b else a)"

lemma index_fields_map_of: "index_fields b = map_of (rev b)"
proof -
  have "foldl (\<lambda>m kv. m(fst kv \<mapsto> snd kv)) m b = m ++ map_of (rev b)" for m :: "bytes \<rightharpoonup> 'a"
    by (induction b arbitrary: m) simp_all
  then show ?thesis by (simp add: index_fields_def)
qed

lemma index_fields_range: "index_fields b key = Some v \<Longrightarrow> (key, v) \<in> set b"
  unfolding index_fields_map_of by (drule map_of_SomeD) simp

lemma join_walk_cong:
  assumes "\<And>k av bv. (k, av) \<in> set a \<Longrightarrow> bmap k = Some bv \<Longrightarrow> m av bv = m' av bv"
  shows "join_walk m a bmap = join_walk m' a bmap"
  using assms
proof (induction m a bmap rule: join_walk.induct)
  case (2 m key av a bmap)
  show ?case
  proof (cases "bmap key")
    case None
    have "join_walk m a bmap = join_walk m' a bmap"
      by (rule 2(1) [OF None]) (rule 2(3), simp_all)
    with None show ?thesis by simp
  next
    case (Some bv)
    have "join_walk m a (bmap(key := None)) = join_walk m' a (bmap(key := None))"
      by (rule 2(2) [OF Some]) (rule 2(3), auto split: if_splits)
    moreover have "m av bv = m' av bv" by (rule 2(3) [OF _ Some]) simp
    ultimately show ?thesis using Some by simp
  qed
qed simp

lemma hash_join_cong [fundef_cong]:
  assumes "a = a'" "b = b'"
    and "\<And>k av bv. (k, av) \<in> set a' \<Longrightarrow> (k, bv) \<in> set b' \<Longrightarrow> m av bv = m' av bv"
  shows "hash_join m a b = hash_join m' a' b'"
  unfolding hash_join_def assms(1,2)
  by (subst join_walk_cong [of a' "index_fields b'" m m'])
    (auto intro: assms(3) dest: index_fields_range)

lemma merge_elem_cong [fundef_cong]:
  "a = a' \<Longrightarrow> b = b' \<Longrightarrow> m (fst a') (fst b') = m' (fst a') (fst b') \<Longrightarrow>
   merge_elem m a b = merge_elem m' a' b'"
  by (simp add: merge_elem_def)

lemma crdt_child_size:
  "(k, e) \<in> set es \<Longrightarrow> size (fst e) < size (CArray t d es)"
  "(k, v) \<in> set fs \<Longrightarrow> size v < size (CObject t d fs)"
  by (induction es, auto) (induction fs, auto)

function Merge :: "crdt \<Rightarrow> crdt \<Rightarrow> crdt" where
  "Merge a b =
     (if tombstone a \<or> tombstone b then lww a b
      else case (a, b) of
        (CObject ta _ af, CObject tb _ bf) \<Rightarrow>
          CObject (if tb > ta then tb else ta) False (hash_join Merge af bf)
      | (CArray ta _ ae, CArray tb _ be) \<Rightarrow>
          CArray (if tb > ta then tb else ta) False (hash_join (merge_elem Merge) ae be)
      | _ \<Rightarrow> lww a b)"
  by pat_completeness auto

termination
  by (relation "measure (size \<circ> fst)") (auto dest: crdt_child_size)

declare Merge.simps [simp del]

end
