(* ===== verification/CrdtMerge.thy ===== *)
theory CrdtMerge
  imports CrdtDocument
begin

text \<open>
  The theory of \<^verbatim>\<open>CrdtValue::Merge\<close>: the hash join as a union of keyed lists, commutativity
  on any two documents whose equal timestamps carry equal writes, the OR-Set laws of arrays, and
  convergence. The interface that replication relies on is the locale \<open>state_based_crdt\<close>; it
  is interpreted on \<open>Merge\<close> for the documents of a fixed shape. Across shapes (a field deleted
  or replaced by a scalar in one write and an object in another) \<open>Merge\<close> is not associative:
  \<open>merge_not_associative\<close>.
\<close>

section \<open>The hash join as a keyed union\<close>

lemma join_walk_distinct:
  "distinct (map fst a) \<Longrightarrow>
   join_walk m a bmap =
     (map (\<lambda>(k, av). (k, case bmap k of Some bv \<Rightarrow> m av bv | None \<Rightarrow> av)) a,
      \<lambda>k. if map_of a k = None then bmap k else None)"
proof (induction a arbitrary: bmap)
  case (Cons x a)
  obtain k av where x: "x = (k, av)" by force
  have k: "map_of a k = None" and d: "distinct (map fst a)"
    using Cons.prems x by (auto simp: map_of_eq_None_iff)
  have upd: "map (\<lambda>(k', av). (k', case (bmap(k := None)) k' of Some bv \<Rightarrow> m av bv | None \<Rightarrow> av)) a =
             map (\<lambda>(k', av). (k', case bmap k' of Some bv \<Rightarrow> m av bv | None \<Rightarrow> av)) a"
    using Cons.prems x by (auto intro!: map_cong simp: image_iff)
  show ?case
    by (cases "bmap k")
      (auto simp: x Cons.IH [OF d] upd k fun_eq_iff simp del: fun_upd_apply,
       auto split: if_splits)
qed simp

lemma map_of_map_case:
  "map_of (map (\<lambda>(k, av). (k, h k av)) a) key = map_option (h key) (map_of a key)"
  by (induction a) auto

definition opt_union :: "('v \<Rightarrow> 'v \<Rightarrow> 'v) \<Rightarrow> 'v option \<Rightarrow> 'v option \<Rightarrow> 'v option" where
  "opt_union m x y =
     (case x of None \<Rightarrow> y | Some a \<Rightarrow> (case y of None \<Rightarrow> Some a | Some b \<Rightarrow> Some (m a b)))"

lemma opt_union_simps [simp]:
  "opt_union m None y = y" "opt_union m x None = x" "opt_union m (Some a) (Some b) = Some (m a b)"
  by (simp_all add: opt_union_def split: option.splits)

lemma map_fst_case [simp]: "map fst (map (\<lambda>(k, av). (k, h k av)) a) = map fst a"
  by (induction a) auto

lemma fst_case_comp [simp]: "fst \<circ> (\<lambda>(k, av). (k, h k av)) = fst"
  by auto

lemma map_of_filter_new:
  "map_of (filter (\<lambda>kv. map_of a (fst kv) = None) b) k =
     (if map_of a k = None then map_of b k else None)"
  by (induction b) auto

text \<open>What the join computes when neither side repeats a key.\<close>

definition joined :: "('v \<Rightarrow> 'v \<Rightarrow> 'v) \<Rightarrow> (bytes \<times> 'v) list \<Rightarrow> (bytes \<times> 'v) list \<Rightarrow> (bytes \<times> 'v) list" where
  "joined m a b =
     map (\<lambda>(k, av). (k, case map_of b k of Some bv \<Rightarrow> m av bv | None \<Rightarrow> av)) a @
     filter (\<lambda>kv. map_of a (fst kv) = None) b"

lemma hash_join_joined:
  assumes "distinct (map fst a)" "distinct (map fst b)"
  shows "hash_join m a b = sort_key fst (joined m a b)"
proof -
  have rev: "map_of (rev b) = map_of b"
    using assms(2) by (subst map_of_inject_set) (simp_all add: rev_map [symmetric])
  have "filter (\<lambda>kv. (if map_of a (fst kv) = None then map_of b (fst kv) else None) \<noteq> None) b =
        filter (\<lambda>kv. map_of a (fst kv) = None) b"
    by (rule filter_cong) (auto simp: weak_map_of_SomeI)
  then show ?thesis
    using assms by (simp add: hash_join_def joined_def index_fields_map_of rev join_walk_distinct)
qed

lemma joined_keys:
  assumes "distinct (map fst a)" "distinct (map fst b)"
  shows "distinct (map fst (joined m a b))"
    and "fst ` set (joined m a b) = fst ` set a \<union> fst ` set b"
proof -
  have "fst ` set (filter (\<lambda>kv. map_of a (fst kv) = None) b) = fst ` set b - fst ` set a"
    by (auto simp: map_of_eq_None_iff)
  moreover have "fst ` set (map (\<lambda>(k, av). (k, case map_of b k of Some bv \<Rightarrow> m av bv | None \<Rightarrow> av)) a) =
      fst ` set a"
    using map_fst_case [of "\<lambda>k av. case map_of b k of Some bv \<Rightarrow> m av bv | None \<Rightarrow> av" a]
    by (metis list.set_map)
  ultimately show "distinct (map fst (joined m a b))"
    and "fst ` set (joined m a b) = fst ` set a \<union> fst ` set b"
    using assms by (simp_all add: joined_def image_Un distinct_map_filter)
qed

lemma hash_join_keys:
  assumes "distinct (map fst a)" "distinct (map fst b)"
  shows "sorted (map fst (hash_join m a b))" "distinct (map fst (hash_join m a b))"
    and "fst ` set (hash_join m a b) = fst ` set a \<union> fst ` set b"
  by (simp_all add: hash_join_joined joined_keys assms)

lemma map_of_hash_join:
  assumes "distinct (map fst a)" "distinct (map fst b)"
  shows "map_of (hash_join m a b) k = opt_union m (map_of a k) (map_of b k)"
proof -
  have "map_of (hash_join m a b) k = map_of (joined m a b) k"
    by (simp add: hash_join_joined joined_keys assms)
  also have "\<dots> = opt_union m (map_of a k) (map_of b k)"
    by (simp add: joined_def map_add_def map_of_map_case map_of_filter_new opt_union_def
        split: option.splits)
  finally show ?thesis .
qed

lemma hash_join_commute:
  assumes "distinct (map fst a)" "distinct (map fst b)"
    and "\<And>k av bv. (k, av) \<in> set a \<Longrightarrow> (k, bv) \<in> set b \<Longrightarrow> m av bv = m bv av"
  shows "hash_join m a b = hash_join m b a"
proof (rule sorted_distinct_map_of_eq)
  show "map_of (hash_join m a b) = map_of (hash_join m b a)"
    using assms(3)
    by (intro ext)
      (auto simp: map_of_hash_join assms(1,2) opt_union_def split: option.splits dest!: map_of_SomeD)
qed (simp_all add: hash_join_keys assms(1,2))

lemma hash_join_assoc:
  assumes "distinct (map fst a)" "distinct (map fst b)" "distinct (map fst c)"
    and "\<And>k x y z. (k, x) \<in> set a \<Longrightarrow> (k, y) \<in> set b \<Longrightarrow> (k, z) \<in> set c \<Longrightarrow>
           m (m x y) z = m x (m y z)"
  shows "hash_join m (hash_join m a b) c = hash_join m a (hash_join m b c)"
proof (rule sorted_distinct_map_of_eq)
  show "map_of (hash_join m (hash_join m a b) c) = map_of (hash_join m a (hash_join m b c))"
    using assms(4)
    by (intro ext) (auto simp: map_of_hash_join hash_join_keys assms(1-3) opt_union_def
        split: option.splits dest!: map_of_SomeD)
qed (simp_all add: hash_join_keys assms(1-3))

lemma hash_join_idem:
  assumes "sorted (map fst a)" "distinct (map fst a)"
    and "\<And>k x. (k, x) \<in> set a \<Longrightarrow> m x x = x"
  shows "hash_join m a a = a"
proof (rule sorted_distinct_map_of_eq)
  show "map_of (hash_join m a a) = map_of a"
    using assms(3)
    by (intro ext) (auto simp: map_of_hash_join assms(2) opt_union_def
        split: option.splits dest!: map_of_SomeD)
qed (simp_all add: hash_join_keys assms(1,2))

lemma hash_join_member:
  assumes "distinct (map fst a)" "distinct (map fst b)" "(k, v) \<in> set (hash_join m a b)"
  shows "(k, v) \<in> set a \<or> (k, v) \<in> set b \<or>
         (\<exists>x y. (k, x) \<in> set a \<and> (k, y) \<in> set b \<and> v = m x y)"
proof -
  have "opt_union m (map_of a k) (map_of b k) = Some v"
    using assms(3) hash_join_keys(2) [OF assms(1,2)] map_of_hash_join [OF assms(1,2)]
    by (metis map_of_is_SomeI)
  then show ?thesis
    by (auto simp: opt_union_def split: option.splits dest!: map_of_SomeD)
qed

section \<open>Merge, case by case\<close>

lemma merge_tombstone: "tombstone a \<or> tombstone b \<Longrightarrow> Merge a b = lww a b"
  by (simp add: Merge.simps)

lemma merge_scalar:
  "Merge (CScalar t d s) b = lww (CScalar t d s) b" "Merge a (CScalar t d s) = lww a (CScalar t d s)"
  by (simp_all add: Merge.simps split: crdt.splits)

lemma merge_mixed:
  "Merge (CArray t d es) (CObject t' d' fs) = lww (CArray t d es) (CObject t' d' fs)"
  "Merge (CObject t d fs) (CArray t' d' es) = lww (CObject t d fs) (CArray t' d' es)"
  by (simp_all add: Merge.simps)

lemma merge_object:
  "Merge (CObject t False f) (CObject t' False g) = CObject (max t t') False (hash_join Merge f g)"
  by (auto simp: Merge.simps max_def)

lemma merge_array:
  "Merge (CArray t False f) (CArray t' False g) =
     CArray (max t t') False (hash_join (merge_elem Merge) f g)"
  by (auto simp: Merge.simps max_def)

lemmas merge_cases = merge_tombstone merge_scalar merge_mixed merge_object merge_array

section \<open>Commutativity\<close>

text \<open>\<open>wf_crdt\<close>: no object repeats a key and no array repeats a tag, at any depth.\<close>

fun wf_crdt :: "crdt \<Rightarrow> bool" where
  "wf_crdt (CScalar t d s) = True"
| "wf_crdt (CArray t d es) = (distinct (map fst es) \<and> list_all (\<lambda>e. wf_crdt (fst (snd e))) es)"
| "wf_crdt (CObject t d fs) = (distinct (map fst fs) \<and> list_all (\<lambda>f. wf_crdt (snd f)) fs)"

text \<open>
  \<open>compat a b\<close>: wherever the merge of \<open>a\<close> and \<open>b\<close> lets the later write win, equal timestamps
  mean the same write. A timestamp names its node, and a node never issues one twice.
\<close>

fun compat :: "crdt \<Rightarrow> crdt \<Rightarrow> bool" where
  "compat (CObject t False f) (CObject t' False g) =
     list_all (\<lambda>kv. case map_of g (fst kv) of None \<Rightarrow> True | Some v \<Rightarrow> compat (snd kv) v) f"
| "compat (CArray t False f) (CArray t' False g) =
     list_all (\<lambda>e. case map_of g (fst e) of None \<Rightarrow> True | Some v \<Rightarrow> compat (fst (snd e)) (fst v)) f"
| "compat a b = (ts a = ts b \<longrightarrow> a = b)"

lemma lww_commute: "(ts a = ts b \<Longrightarrow> a = b) \<Longrightarrow> lww a b = lww b a"
  unfolding lww_def by (metis less_asym' linorder_cases)

lemma compat_fieldD:
  assumes "compat (CObject t False f) (CObject t' False g)" "distinct (map fst g)"
    and "(k, x) \<in> set f" "(k, y) \<in> set g"
  shows "compat x y"
proof -
  have "map_of g k = Some y" using assms(2,4) by simp
  with assms(1,3) show ?thesis by (fastforce simp: list_all_iff)
qed

lemma compat_elemD:
  assumes "compat (CArray t False f) (CArray t' False g)" "distinct (map fst g)"
    and "(k, x) \<in> set f" "(k, y) \<in> set g"
  shows "compat (fst x) (fst y)"
proof -
  have "map_of g k = Some y" using assms(2,4) by simp
  with assms(1,3) show ?thesis by (fastforce simp: list_all_iff)
qed

lemma wf_fieldD: "wf_crdt (CObject t d f) \<Longrightarrow> (k, v) \<in> set f \<Longrightarrow> wf_crdt v"
  by (fastforce simp: list_all_iff)

lemma wf_elemD: "wf_crdt (CArray t d f) \<Longrightarrow> (k, v) \<in> set f \<Longrightarrow> wf_crdt (fst v)"
  by (fastforce simp: list_all_iff)

lemma merge_commute:
  "wf_crdt a \<Longrightarrow> wf_crdt b \<Longrightarrow> compat a b \<Longrightarrow> Merge a b = Merge b a"
proof (induction a b rule: compat.induct)
  case (1 t f t' g)
  have "hash_join Merge f g = hash_join Merge g f"
  proof (rule hash_join_commute)
    fix k x y
    assume xy: "(k, x) \<in> set f" "(k, y) \<in> set g"
    have "map_of g k = Some y" using 1(3) xy(2) by simp
    then show "Merge x y = Merge y x"
      using 1(1) [OF xy(1)] xy wf_fieldD [OF 1(2)] wf_fieldD [OF 1(3)]
        compat_fieldD [OF 1(4) _ xy] 1(3) by simp
  qed (use 1 in simp_all)
  then show ?case by (simp add: merge_object max.commute)
next
  case (2 t f t' g)
  have "hash_join (merge_elem Merge) f g = hash_join (merge_elem Merge) g f"
  proof (rule hash_join_commute)
    fix k x y
    assume xy: "(k, x) \<in> set f" "(k, y) \<in> set g"
    have "map_of g k = Some y" using 2(3) xy(2) by simp
    then have "Merge (fst x) (fst y) = Merge (fst y) (fst x)"
      using 2(1) [OF xy(1)] xy wf_elemD [OF 2(2)] wf_elemD [OF 2(3)]
        compat_elemD [OF 2(4) _ xy] 2(3) by simp
    then show "merge_elem Merge x y = merge_elem Merge y x" by (simp add: merge_elem_def disj_commute)
  qed (use 2 in simp_all)
  then show ?case by (simp add: merge_array max.commute)
qed (auto simp: merge_cases intro!: lww_commute)

section \<open>Convergence\<close>

text \<open>
  What replication relies on: merging is closed on the states replicas exchange and is
  commutative, associative and idempotent there. Then a replica's state depends only on the set
  of states it has merged, not on their order or on how often each arrived.
\<close>

locale state_based_crdt =
  fixes carrier :: "'s \<Rightarrow> bool"
    and merge :: "'s \<Rightarrow> 's \<Rightarrow> 's"
  assumes merge_closed: "carrier a \<Longrightarrow> carrier b \<Longrightarrow> carrier (merge a b)"
    and merge_comm: "carrier a \<Longrightarrow> carrier b \<Longrightarrow> merge a b = merge b a"
    and merge_assoc: "carrier a \<Longrightarrow> carrier b \<Longrightarrow> carrier c \<Longrightarrow>
           merge (merge a b) c = merge a (merge b c)"
    and merge_idem: "carrier a \<Longrightarrow> merge a a = a"
begin

lemma deliver_closed: "carrier s \<Longrightarrow> list_all carrier xs \<Longrightarrow> carrier (foldl merge s xs)"
  by (induction xs arbitrary: s) (simp_all add: merge_closed)

lemma deliver_absorbs:
  assumes "carrier s" "list_all carrier xs" "x \<in> set (s # xs)"
  shows "merge (foldl merge s xs) x = foldl merge s xs"
  using assms
proof (induction xs rule: rev_induct)
  case Nil
  then show ?case by (simp add: merge_idem)
next
  case (snoc y ys)
  let ?f = "foldl merge s ys"
  have c: "carrier ?f" "carrier y" using snoc.prems deliver_closed by simp_all
  show ?case
  proof (cases "x \<in> set (s # ys)")
    case True
    then have x: "carrier x" using snoc.prems by (auto simp: list_all_iff)
    have "merge (merge ?f y) x = merge ?f (merge x y)"
      using c x by (simp add: merge_assoc merge_comm [of y x])
    also have "\<dots> = merge (merge ?f x) y" using c x by (simp add: merge_assoc)
    finally show ?thesis using snoc.IH snoc.prems True by simp
  next
    case False
    then have "x = y" using snoc.prems by simp
    then show ?thesis using c by (simp add: merge_assoc merge_idem)
  qed
qed

lemma absorbs_deliver:
  assumes "carrier a" "carrier s" "list_all carrier xs" "\<And>x. x \<in> set (s # xs) \<Longrightarrow> merge a x = a"
  shows "merge a (foldl merge s xs) = a"
  using assms(2-)
proof (induction xs rule: rev_induct)
  case (snoc y ys)
  have "merge a (merge (foldl merge s ys) y) = merge (merge a (foldl merge s ys)) y"
    using snoc.prems assms(1) deliver_closed by (simp add: merge_assoc)
  moreover have "merge a (foldl merge s ys) = a"
    by (rule snoc.IH) (use snoc.prems in auto)
  moreover have "merge a y = a" by (rule snoc.prems(3)) simp
  ultimately show ?case by simp
qed simp

lemma convergence:
  assumes "list_all carrier (s # xs)" "list_all carrier (s' # ys)" "set (s # xs) = set (s' # ys)"
  shows "foldl merge s xs = foldl merge s' ys"
proof -
  let ?a = "foldl merge s xs" and ?b = "foldl merge s' ys"
  have c: "carrier ?a" "carrier ?b" using assms(1,2) deliver_closed by simp_all
  have "merge ?a x = ?a" if "x \<in> set (s # xs)" for x
    by (rule deliver_absorbs) (use assms(1) that in simp_all)
  then have "merge ?a ?b = ?a"
    using assms(2) by (intro absorbs_deliver c) (simp_all add: assms(3) [simplified])
  moreover have "merge ?b x = ?b" if "x \<in> set (s' # ys)" for x
    by (rule deliver_absorbs) (use assms(2) that in simp_all)
  then have "merge ?b ?a = ?b"
    using assms(1) by (intro absorbs_deliver c) (simp_all add: assms(3) [symmetric, simplified])
  ultimately show ?thesis using c merge_comm by metis
qed

end

text \<open>
  A shape fixes which positions hold objects, OR-Sets and registers. A register position is
  given by the writes made there: at most one value (or deletion) per timestamp. Keys are in the
  canonical order in which merged and decoded documents hold them.
\<close>

datatype shape = Leaf "hlc \<Rightarrow> scalar \<times> bool" | ObjOf "bytes \<Rightarrow> shape" | ArrOf "bytes \<Rightarrow> shape"

primrec conforms :: "shape \<Rightarrow> crdt \<Rightarrow> bool" where
  "conforms (Leaf w) = (\<lambda>v. case v of CScalar t d s \<Rightarrow> w t = (s, d) | _ \<Rightarrow> False)"
| "conforms (ObjOf sh) = (\<lambda>v. case v of
     CObject t d fs \<Rightarrow> \<not> d \<and> sorted (map fst fs) \<and> distinct (map fst fs) \<and>
       list_all (\<lambda>f. conforms (sh (fst f)) (snd f)) fs
   | _ \<Rightarrow> False)"
| "conforms (ArrOf sh) = (\<lambda>v. case v of
     CArray t d es \<Rightarrow> \<not> d \<and> sorted (map fst es) \<and> distinct (map fst es) \<and>
       list_all (\<lambda>e. conforms (sh (fst e)) (fst (snd e))) es
   | _ \<Rightarrow> False)"

lemma conforms_LeafE:
  assumes "conforms (Leaf w) v"
  obtains t where "v = CScalar t (snd (w t)) (fst (w t))"
  using assms by (cases v) auto

lemma conforms_ObjE:
  assumes "conforms (ObjOf sh) v"
  obtains t fs where "v = CObject t False fs" "sorted (map fst fs)" "distinct (map fst fs)"
    "\<forall>k c. (k, c) \<in> set fs \<longrightarrow> conforms (sh k) c"
  using assms by (cases v) (fastforce simp: list_all_iff)+

lemma conforms_ArrE:
  assumes "conforms (ArrOf sh) v"
  obtains t es where "v = CArray t False es" "sorted (map fst es)" "distinct (map fst es)"
    "\<forall>k c. (k, c) \<in> set es \<longrightarrow> conforms (sh k) (fst c)"
  using assms by (cases v) (fastforce simp: list_all_iff)+

lemma merge_leaf:
  "Merge (CScalar t (snd (w t)) (fst (w t))) (CScalar t' (snd (w t')) (fst (w t'))) =
   CScalar (max t t') (snd (w (max t t'))) (fst (w (max t t')))"
  by (auto simp: merge_scalar lww_def max_def)

lemma merge_conforms: "conforms s a \<Longrightarrow> conforms s b \<Longrightarrow> conforms s (Merge a b)"
proof (induction s arbitrary: a b)
  case (Leaf w)
  then show ?case by (elim conforms_LeafE) (simp add: merge_leaf)
next
  case (ObjOf sh)
  note IH = ObjOf.IH [OF rangeI]
  from ObjOf.prems show ?case
    by (elim conforms_ObjE)
      (auto simp: merge_object hash_join_keys list_all_iff dest!: hash_join_member [rotated 2];
        meson IH)
next
  case (ArrOf sh)
  note IH = ArrOf.IH [OF rangeI]
  from ArrOf.prems show ?case
    by (elim conforms_ArrE)
      (auto simp: merge_array hash_join_keys list_all_iff merge_elem_def
        dest!: hash_join_member [rotated 2]; meson IH)
qed

lemma merge_conforms_commute: "conforms s a \<Longrightarrow> conforms s b \<Longrightarrow> Merge a b = Merge b a"
proof (induction s arbitrary: a b)
  case (Leaf w)
  then show ?case by (elim conforms_LeafE) (simp add: merge_leaf max.commute)
next
  case (ObjOf sh)
  note IH = ObjOf.IH [OF rangeI]
  from ObjOf.prems show ?case
    by (elim conforms_ObjE)
      (auto simp: merge_object max.commute intro!: hash_join_commute; meson IH)
next
  case (ArrOf sh)
  note IH = ArrOf.IH [OF rangeI]
  from ArrOf.prems show ?case
    by (elim conforms_ArrE)
      (auto simp: merge_array max.commute merge_elem_def intro!: hash_join_commute; meson IH)
qed

lemma merge_conforms_assoc:
  "conforms s a \<Longrightarrow> conforms s b \<Longrightarrow> conforms s c \<Longrightarrow> Merge (Merge a b) c = Merge a (Merge b c)"
proof (induction s arbitrary: a b c)
  case (Leaf w)
  then show ?case by (elim conforms_LeafE) (simp add: merge_leaf max.assoc)
next
  case (ObjOf sh)
  note IH = ObjOf.IH [OF rangeI]
  from ObjOf.prems show ?case
    by (elim conforms_ObjE)
      (auto simp: merge_object max.assoc intro!: hash_join_assoc; meson IH)
next
  case (ArrOf sh)
  note IH = ArrOf.IH [OF rangeI]
  from ArrOf.prems show ?case
    by (elim conforms_ArrE)
      (auto simp: merge_array max.assoc merge_elem_def intro!: hash_join_assoc; meson IH)
qed

lemma merge_conforms_idem: "conforms s a \<Longrightarrow> Merge a a = a"
proof (induction s arbitrary: a)
  case (Leaf w)
  then show ?case by (elim conforms_LeafE) (simp add: merge_leaf)
next
  case (ObjOf sh)
  note IH = ObjOf.IH [OF rangeI]
  from ObjOf.prems show ?case
    by (elim conforms_ObjE) (auto simp: merge_object intro!: hash_join_idem; meson IH)
next
  case (ArrOf sh)
  note IH = ArrOf.IH [OF rangeI]
  from ArrOf.prems show ?case
    by (elim conforms_ArrE)
      (auto simp: merge_array merge_elem_def intro!: hash_join_idem; meson IH)
qed

interpretation doc: state_based_crdt "conforms s" Merge for s
  by unfold_locales
    (blast intro: merge_conforms merge_conforms_commute merge_conforms_assoc merge_conforms_idem)+

section \<open>Canonical order\<close>

text \<open>\<open>canon\<close>: every object sorted by key and every array by tag, at any depth.\<close>

fun canon :: "crdt \<Rightarrow> crdt" where
  "canon (CScalar t d s) = CScalar t d s"
| "canon (CArray t d es) =
     CArray t d (sort_key fst (map (\<lambda>e. (fst e, canon (fst (snd e)), snd (snd e))) es))"
| "canon (CObject t d fs) = CObject t d (sort_key fst (map (\<lambda>f. (fst f, canon (snd f))) fs))"

lemma canon_sel [simp]: "ts (canon v) = ts v" "tombstone (canon v) = tombstone v"
  by (cases v; simp)+

lemma canon_lww: "canon (lww a b) = lww (canon a) (canon b)"
  by (simp add: lww_def)

lemma map_of_map_snd: "map_of (map (\<lambda>f. (fst f, h (snd f))) fs) k = map_option h (map_of fs k)"
  by (induction fs) auto

lemma sort_hash_join:
  assumes a: "distinct (map fst a)" and b: "distinct (map fst b)"
    and h: "\<And>k x y. (k, x) \<in> set a \<Longrightarrow> (k, y) \<in> set b \<Longrightarrow> h (m x y) = m' (h x) (h y)"
  shows "sort_key fst (map (\<lambda>f. (fst f, h (snd f))) (hash_join m a b)) =
         hash_join m' (sort_key fst (map (\<lambda>f. (fst f, h (snd f))) a))
                      (sort_key fst (map (\<lambda>f. (fst f, h (snd f))) b))"
proof (rule sorted_distinct_map_of_eq)
  have d: "distinct (map fst (sort_key fst (map (\<lambda>f. (fst f, h (snd f))) xs)))"
    if "distinct (map fst xs)" for xs :: "(bytes \<times> 'a) list"
    using that by (simp add: comp_def)
  have m: "map_of (sort_key fst (map (\<lambda>f. (fst f, h (snd f))) xs)) k = map_option h (map_of xs k)"
    if "distinct (map fst xs)" for xs :: "(bytes \<times> 'a) list" and k
    using that by (simp add: map_of_map_snd comp_def)
  show "map_of (sort_key fst (map (\<lambda>f. (fst f, h (snd f))) (hash_join m a b))) =
        map_of (hash_join m' (sort_key fst (map (\<lambda>f. (fst f, h (snd f))) a))
                      (sort_key fst (map (\<lambda>f. (fst f, h (snd f))) b)))"
    using h
    by (intro ext)
      (auto simp: m map_of_hash_join [OF a b] map_of_hash_join [OF d [OF a] d [OF b]]
        hash_join_keys a b opt_union_def split: option.splits dest!: map_of_SomeD)
  show "distinct (map fst (hash_join m' (sort_key fst (map (\<lambda>f. (fst f, h (snd f))) a))
                      (sort_key fst (map (\<lambda>f. (fst f, h (snd f))) b))))"
    by (rule hash_join_keys) (rule d, rule a, rule d, rule b)
  show "sorted (map fst (hash_join m' (sort_key fst (map (\<lambda>f. (fst f, h (snd f))) a))
                      (sort_key fst (map (\<lambda>f. (fst f, h (snd f))) b))))"
    by (rule hash_join_keys) (rule d, rule a, rule d, rule b)
qed (simp_all add: comp_def hash_join_keys a b)

lemma merge_canon: "wf_crdt a \<Longrightarrow> wf_crdt b \<Longrightarrow> canon (Merge a b) = Merge (canon a) (canon b)"
proof (induction a b rule: compat.induct)
  case (1 t f t' g)
  have "canon (Merge x y) = Merge (canon x) (canon y)" if "(k, x) \<in> set f" "(k, y) \<in> set g" for k x y
    using 1(1) [OF that(1)] that 1(2,3) wf_fieldD [OF 1(2)] wf_fieldD [OF 1(3)] by simp
  then show ?case
    using 1(2,3) by (simp add: merge_object sort_hash_join)
next
  case (2 t f t' g)
  let ?h = "\<lambda>v. (canon (fst v), snd v)"
  have "?h (merge_elem Merge x y) = merge_elem Merge (?h x) (?h y)"
    if "(k, x) \<in> set f" "(k, y) \<in> set g" for k x y
    using 2(1) [OF that(1)] that 2(2,3) wf_elemD [OF 2(2)] wf_elemD [OF 2(3)]
    by (simp add: merge_elem_def)
  then show ?case
    using 2(2,3) sort_hash_join [of f g ?h "merge_elem Merge" "merge_elem Merge"]
    by (simp add: merge_array)
qed (simp_all add: merge_cases canon_lww)

lemma wf_merge: "wf_crdt a \<Longrightarrow> wf_crdt b \<Longrightarrow> wf_crdt (Merge a b)"
proof (induction a b rule: compat.induct)
  case (1 t f t' g)
  then have d: "distinct (map fst f)" "distinct (map fst g)" by simp_all
  have "wf_crdt v" if "(k, v) \<in> set (hash_join Merge f g)" for k v
    using hash_join_member [OF d that]
  proof (elim disjE exE conjE)
    fix x y
    assume xy: "(k, x) \<in> set f" "(k, y) \<in> set g" "v = Merge x y"
    show "wf_crdt v"
      using 1(1) [OF xy(1)] xy d wf_fieldD [OF 1(2) xy(1)] wf_fieldD [OF 1(3) xy(2)] by simp
  qed (use wf_fieldD [OF 1(2)] wf_fieldD [OF 1(3)] in blast)+
  then show ?case
    by (auto simp: merge_object hash_join_keys d list_all_iff)
next
  case (2 t f t' g)
  then have d: "distinct (map fst f)" "distinct (map fst g)" by simp_all
  have "wf_crdt (fst v)" if "(k, v) \<in> set (hash_join (merge_elem Merge) f g)" for k v
    using hash_join_member [OF d that]
  proof (elim disjE exE conjE)
    fix x y
    assume xy: "(k, x) \<in> set f" "(k, y) \<in> set g" "v = merge_elem Merge x y"
    show "wf_crdt (fst v)"
      using 2(1) [OF xy(1)] xy d wf_elemD [OF 2(2) xy(1)] wf_elemD [OF 2(3) xy(2)]
      by (simp add: merge_elem_def)
  qed (use wf_elemD [OF 2(2)] wf_elemD [OF 2(3)] in blast)+
  then show ?case
    by (fastforce simp: merge_array hash_join_keys d list_all_iff)
qed (auto simp: merge_cases lww_def)

section \<open>Properties\<close>

text \<open>
  C4: merging is commutative: for any two documents without repeated keys or tags, of any shapes
  and with deletions anywhere, whose equal timestamps carry equal writes, the two peers that
  merge each other's copy hold the same tree.
\<close>

theorem merge_commutative:
  assumes "wf_crdt a" "wf_crdt b" "compat a b"
  shows "Merge a b = Merge b a"
  using assms by (rule merge_commute)

definition ex_object :: "u64 \<Rightarrow> bytes \<Rightarrow> int \<Rightarrow> crdt" where
  "ex_object t k i = CObject (HLC t 0 [65]) False [(k, CScalar (HLC t 0 [65]) False (SInt i))]"

theorem merge_commutative_witness:
  "wf_crdt (ex_object 1 [120] 5) \<and> wf_crdt (ex_object 2 [120] 6) \<and>
   compat (ex_object 1 [120] 5) (ex_object 2 [120] 6) \<and>
   Merge (ex_object 1 [120] 5) (ex_object 2 [120] 6) =
   Merge (ex_object 2 [120] 6) (ex_object 1 [120] 5)"
proof -
  have "wf_crdt (ex_object 1 [120] 5)" "wf_crdt (ex_object 2 [120] 6)"
    "compat (ex_object 1 [120] 5) (ex_object 2 [120] 6)"
    by (simp_all add: ex_object_def)
  then show ?thesis using merge_commutative by blast
qed

text \<open>
  Convergence. Take documents of one shape (each position is throughout an object, an OR-Set
  or a register whose writes have distinct timestamps; registers may be deleted and rewritten).
  Two replicas that have merged the same set of documents, in any order and with any
  repetitions, starting from any of them, hold the same document.
\<close>

theorem replicas_converge:
  assumes "list_all (conforms s) (x # xs)" "list_all (conforms s) (y # ys)"
    and "set (x # xs) = set (y # ys)"
  shows "foldl Merge x xs = foldl Merge y ys"
  using assms by (rule doc.convergence)

definition ex_shape :: shape where
  "ex_shape = ObjOf (\<lambda>_. Leaf (\<lambda>t. (SInt (uint (physical_ms t)), False)))"

theorem replicas_converge_witness:
  "let a = ex_object 1 [120] 1; b = ex_object 2 [120] 2; c = ex_object 3 [121] 3
   in list_all (conforms ex_shape) [a, b, c, b] \<and> list_all (conforms ex_shape) [c, a, b] \<and>
      set [a, b, c, b] = set [c, a, b] \<and> foldl Merge a [b, c, b] = foldl Merge c [a, b]"
proof -
  define a b c where abc: "a = ex_object 1 [120] 1" "b = ex_object 2 [120] 2" "c = ex_object 3 [121] 3"
  have "list_all (conforms ex_shape) [a, b, c, b]" "list_all (conforms ex_shape) [c, a, b]"
    by (simp_all add: abc ex_object_def ex_shape_def)
  moreover have "set [a, b, c, b] = set [c, a, b]" by auto
  ultimately show ?thesis
    using replicas_converge [of ex_shape a "[b, c, b]" c "[a, b]"]
    unfolding Let_def abc [symmetric] by blast
qed

text \<open>
  C39: across shapes the order of merges matters. An object, a later deletion of the field, and
  a still later object: merged left to right the deletion discards the first object's fields,
  merged right to left they survive. All three are well-formed, pairwise compatible documents
  with distinct timestamps.
\<close>

theorem merge_not_associative:
  "\<exists>a b c. wf_crdt a \<and> wf_crdt b \<and> wf_crdt c \<and> compat a b \<and> compat b c \<and> compat a c \<and>
     to_json (Merge (Merge a b) c) \<noteq> to_json (Merge a (Merge b c))"
proof (intro exI conjI)
  let ?a = "ex_object 1 [120] 5" and ?b = "MakeTombstone (HLC 2 0 [65])" and ?c = "ex_object 3 [121] 6"
  show "wf_crdt ?a" "wf_crdt ?b" "wf_crdt ?c" "compat ?a ?b" "compat ?b ?c" "compat ?a ?c"
    by (simp_all add: ex_object_def MakeTombstone_def)
  have l: "Merge (Merge ?a ?b) ?c = ?c" and r: "Merge ?b ?c = ?c"
    by (simp_all add: ex_object_def MakeTombstone_def merge_scalar lww_def less_hlc_def)
  show "to_json (Merge (Merge ?a ?b) ?c) \<noteq> to_json (Merge ?a (Merge ?b ?c))"
    unfolding l r
    by (simp add: ex_object_def merge_object hash_join_joined joined_def sort_key_simps insort_key.simps)
qed

text \<open>The removal flag of a tag: \<open>None\<close> if the array has never seen the tag.\<close>

definition elem_removed :: "crdt \<Rightarrow> bytes \<Rightarrow> bool option" where
  "elem_removed v tag = (case v of CArray _ _ es \<Rightarrow> map_option snd (map_of es tag) | _ \<Rightarrow> None)"

text \<open>
  C25: arrays merge as observed-remove sets. After merging two live arrays a tag is known if
  either side knew it, and removed exactly if a side that knew it had removed it: an element
  added by one peer survives a removal elsewhere that had not seen its tag, and a removed tag
  never comes back.
\<close>

theorem array_merge_or_set:
  assumes "wf_crdt (CArray t False es)" "wf_crdt (CArray t' False es')"
  shows "elem_removed (Merge (CArray t False es) (CArray t' False es')) tag =
         opt_union (\<or>) (elem_removed (CArray t False es) tag) (elem_removed (CArray t' False es') tag)"
  using assms
  by (auto simp: merge_array elem_removed_def map_of_hash_join opt_union_def merge_elem_def
      split: option.splits)

theorem array_merge_or_set_witness:
  "let v = CScalar (HLC 1 0 [65]) False (SInt 5);
       a = CArray (HLC 1 0 [65]) False [([97], v, False), ([98], v, False)];
       b = CArray (HLC 2 0 [66]) False [([97], v, True)]
   in wf_crdt a \<and> wf_crdt b \<and> elem_removed (Merge a b) [97] = Some True \<and>
      elem_removed (Merge a b) [98] = Some False"
proof -
  define v where "v = CScalar (HLC 1 0 [65]) False (SInt 5)"
  define es :: "(bytes \<times> crdt \<times> bool) list" where "es = [([97], v, False), ([98], v, False)]"
  define es' :: "(bytes \<times> crdt \<times> bool) list" where "es' = [([97], v, True)]"
  have "wf_crdt (CArray (HLC 1 0 [65]) False es)" "wf_crdt (CArray (HLC 2 0 [66]) False es')"
    by (simp_all add: es_def es'_def v_def)
  note m = this array_merge_or_set [OF this, of "[97]"] array_merge_or_set [OF this, of "[98]"]
  have "elem_removed (CArray (HLC 1 0 [65]) False es) [97] = Some False"
    "elem_removed (CArray (HLC 1 0 [65]) False es) [98] = Some False"
    "elem_removed (CArray (HLC 2 0 [66]) False es') [97] = Some True"
    "elem_removed (CArray (HLC 2 0 [66]) False es') [98] = None"
    by (simp_all add: elem_removed_def es_def es'_def)
  with m show ?thesis by (simp add: Let_def es_def es'_def v_def)
qed

end
