(* ===== verification/CrdtUpdate.thy ===== *)
theory CrdtUpdate
  imports CrdtMerge
begin

text \<open>
  What local writes do: OR-Set tags are unique, \<^verbatim>\<open>FromJson\<close> and \<^verbatim>\<open>ApplyJsonUpdate\<close> keep
  documents well-formed, a write is read back as written, and an update is an inflation of the
  document it updates (merging it with its predecessor gives the update), which is what makes
  local writes safe to interleave with merges.
\<close>

section \<open>Tags\<close>

definition tag_at :: "hlc \<Rightarrow> u64 \<Rightarrow> bytes" where
  "tag_at t s = fst (NextTag t s)"

definition is_digit :: "byte \<Rightarrow> bool" where
  "is_digit b \<longleftrightarrow> 48 \<le> b \<and> b \<le> 57"

lemma digit_of_nat: "n < 10 \<Longrightarrow> is_digit (of_nat (48 + n))"
  by (simp add: is_digit_def word_le_nat_alt unat_of_nat unat_word_ariths)

lemma to_string_nat_digits: "list_all is_digit (to_string_nat n)"
proof (induction n rule: to_string_nat.induct)
  case (1 n)
  then show ?case
    using digit_of_nat [of n] digit_of_nat [of "n mod 10"] by (subst to_string_nat.simps) simp
qed

text \<open>A separator that is not a digit splits a string at its last occurrence.\<close>

lemma split_last_sep:
  assumes "xs @ sep # d = ys @ sep # e" "list_all is_digit d" "list_all is_digit e" "\<not> is_digit sep"
  shows "xs = ys \<and> d = e"
proof -
  have tw: "takeWhile is_digit (rev (zs @ sep # f)) = rev f" if "list_all is_digit f" for zs f
    using that assms(4) by (simp add: list_all_iff takeWhile_tail takeWhile_append2)
  have "rev d = rev e"
    using tw [OF assms(2), of xs] tw [OF assms(3), of ys] assms(1) by simp
  then show ?thesis using assms(1) by simp
qed

lemma tag_at_inject: "tag_at t s = tag_at t' s' \<longleftrightarrow> t = t' \<and> s = s'"
proof
  assume eq: "tag_at t s = tag_at t' s'"
  have sep: "\<not> is_digit 35" "\<not> is_digit 46" "\<not> is_digit 58"
    by (simp_all add: is_digit_def word_le_nat_alt)
  have lit: "bytes_of '':'' = [58]" "bytes_of ''.'' = [46]" "bytes_of ''#'' = [35]"
    by (simp_all add: bytes_of_def of_char_def)
  note d = to_string_nat_digits
  from eq have "(node_id t @ 58 # to_string_nat (unat (physical_ms t)) @ 46 # to_string_nat (unat (logical t))) @
        35 # to_string_nat (unat s) =
      (node_id t' @ 58 # to_string_nat (unat (physical_ms t')) @ 46 # to_string_nat (unat (logical t'))) @
        35 # to_string_nat (unat s')"
    by (simp add: tag_at_def NextTag_def lit)
  from split_last_sep [OF this d d sep(1)]
  have 1: "(node_id t @ 58 # to_string_nat (unat (physical_ms t))) @ 46 # to_string_nat (unat (logical t)) =
      (node_id t' @ 58 # to_string_nat (unat (physical_ms t'))) @ 46 # to_string_nat (unat (logical t'))"
    and s: "s = s'" by (simp_all add: word_unat_eq_iff)
  from split_last_sep [OF 1 d d sep(2)]
  have 2: "node_id t @ 58 # to_string_nat (unat (physical_ms t)) =
      node_id t' @ 58 # to_string_nat (unat (physical_ms t'))"
    and l: "logical t = logical t'" by (simp_all add: word_unat_eq_iff)
  from split_last_sep [OF 2 d d sep(3)] l s show "t = t' \<and> s = s'"
    by (cases t; cases t') (simp add: word_unat_eq_iff)
qed simp

section \<open>FromJson\<close>

text \<open>How many tags a value consumes.\<close>

fun json_elems :: "json \<Rightarrow> nat" where
  "json_elems (JArray xs) = sum_list (map (\<lambda>x. Suc (json_elems x)) xs)"
| "json_elems (JObject fs) = sum_list (map (\<lambda>f. json_elems (snd f)) fs)"
| "json_elems _ = 0"

lemma unat_Suc: "unat (c :: u64) + 1 < 2 ^ 64 \<Longrightarrow> unat (c + 1) = unat c + 1"
  by (simp add: unat_word_ariths)

lemma NextTag_simp: "NextTag t c = (tag_at t c, c + 1)"
  by (simp add: tag_at_def NextTag_def)

definition fresh_tags :: "hlc \<Rightarrow> u64 \<Rightarrow> u64 \<Rightarrow> bytes set" where
  "fresh_tags t lo hi = {tag_at t s | s. unat lo \<le> unat s \<and> unat s < unat hi}"

lemma FromJson_props:
  "FromJson j t c = (v, c') \<Longrightarrow> unat c + json_elems j < 2 ^ 64 \<Longrightarrow> plain j \<Longrightarrow>
     unat c' = unat c + json_elems j \<and> wf_crdt v"
  "FromJsonElems xs t c = (es, c') \<Longrightarrow> unat c + json_elems (JArray xs) < 2 ^ 64 \<Longrightarrow> list_all plain xs \<Longrightarrow>
     unat c' = unat c + json_elems (JArray xs) \<and> list_all (\<lambda>e. wf_crdt (fst (snd e))) es \<and>
     distinct (map fst es) \<and> fst ` set es \<subseteq> fresh_tags t c c'"
  "FromJsonFields fs t c = (gs, c') \<Longrightarrow> unat c + json_elems (JObject fs) < 2 ^ 64 \<Longrightarrow>
     list_all (\<lambda>(_, v). plain v) fs \<Longrightarrow>
     unat c' = unat c + json_elems (JObject fs) \<and> list_all (\<lambda>f. wf_crdt (snd f)) gs \<and>
     map fst gs = map fst fs"
proof (induction j t c and xs t c and fs t c arbitrary: v c' and es c' and gs c'
    rule: FromJson_FromJsonElems_FromJsonFields.induct)
  case (9 x xs t c)
  obtain v c2 where v: "FromJson x t (c + 1) = (v, c2)" by force
  obtain es2 c3 where es2: "FromJsonElems xs t c2 = (es2, c3)" by force
  have es: "es = (tag_at t c, v, False) # es2" "c' = c3"
    using 9(3) v es2 by (simp_all add: NextTag_simp)
  have u1: "unat (c + 1) = unat c + 1" by (rule unat_Suc) (use 9(4) in simp)
  have r1: "unat c2 = unat c + 1 + json_elems x \<and> wf_crdt v"
    using 9(1) [of "(tag_at t c, c + 1)"] v u1 9(4,5) by (simp add: NextTag_simp)
  have r2: "unat c3 = unat c2 + json_elems (JArray xs) \<and> list_all (\<lambda>e. wf_crdt (fst (snd e))) es2 \<and>
     distinct (map fst es2) \<and> fst ` set es2 \<subseteq> fresh_tags t c2 c3"
    using 9(2) [of "(tag_at t c, c + 1)" _ _ "(v, c2)"] v es2 u1 r1 9(4,5) by (simp add: NextTag_simp)
  have "tag_at t c \<notin> fresh_tags t c2 c3"
    using r1 by (auto simp: fresh_tags_def tag_at_inject)
  moreover have "fresh_tags t c2 c3 \<subseteq> fresh_tags t c c3" "tag_at t c \<in> fresh_tags t c c3"
    using r1 r2 by (auto simp: fresh_tags_def)
  ultimately show ?case
    using r1 r2 u1 es by auto
next
  case (11 k x fs t c)
  obtain v c2 where v: "FromJson x t c = (v, c2)" by force
  obtain es2 c3 where es2: "FromJsonFields fs t c2 = (es2, c3)" by force
  show ?case
    using 11(1) [of v c2] 11(2) [of "(v, c2)" v c2 es2 c3] 11(3-5) v es2 by auto
qed (auto split: prod.splits)

lemma FromJson_live: "\<not> tombstone (fst (FromJson j t c))"
  by (cases j) (auto split: prod.splits)

lemma FromJson_ts: "ts (fst (FromJson j t c)) = t"
  by (cases j) (auto split: prod.splits)

lemma to_json_FromJson_aux:
  "to_json (fst (FromJson j t c)) = j"
  "map (\<lambda>e. to_json (fst (snd e))) (fst (FromJsonElems xs t c)) = xs \<and>
   list_all (\<lambda>e. \<not> snd (snd e)) (fst (FromJsonElems xs t c))"
  "map (\<lambda>f. (fst f, to_json (snd f))) (fst (FromJsonFields fs t c)) = fs \<and>
   list_all (\<lambda>f. \<not> tombstone (snd f)) (fst (FromJsonFields fs t c))"
proof (induction j t c and xs t c and fs t c rule: FromJson_FromJsonElems_FromJsonFields.induct)
  case (11 k x fs t c)
  then show ?case using FromJson_live [of x t c] by (auto split: prod.splits)
qed (auto split: prod.splits simp: list_all_iff filter_id_conv)

section \<open>ApplyJsonUpdate\<close>

lemma json_equals_refl: "plain j \<Longrightarrow> json_equals j j"
proof (induction j)
  case (JArray xs)
  then show ?case by (auto simp: list_all_iff list.rel_refl_strong)
next
  case (JObject fs)
  have "find_field (fst kv) fs = Some (snd kv)" "json_equals (snd kv) (snd kv)" if "kv \<in> set fs" for kv
    using JObject that by (cases kv; fastforce simp: find_field_map_of list_all_iff)+
  then show ?case by (auto simp: list_all_iff)
qed (simp_all add: dbl_eq_refl)

lemma ApplyJsonUpdate_live: "\<not> tombstone (fst (ApplyJsonUpdate j prev t c))"
  by (auto simp: ApplyJsonUpdate.simps FromJson_live split: crdt.splits json.splits prod.splits bool.splits)

lemma carry_elems_removed: "list_all (\<lambda>e. snd (snd e)) (carry_elems es ms)"
  by (induction es ms rule: carry_elems.induct) auto

lemma match_elem_Some:
  assumes "match_elem j es ms = Some (e, ms')"
  obtains i where "i < length es" "i < length ms" "\<not> ms ! i" "e = es ! i" "\<not> snd (snd e)"
    "json_equals (to_json (fst (snd e))) j" "ms' = ms[i := True]"
  using assms
proof (induction j es ms arbitrary: ms' thesis rule: match_elem.induct)
  case (1 j e0 es m ms)
  show ?case
  proof (cases "\<not> m \<and> \<not> snd (snd e0) \<and> json_equals (to_json (fst (snd e0))) j")
    case True
    with 1(3) show ?thesis by (intro 1(2) [of 0]) auto
  next
    case False
    then obtain ms2 where m2: "match_elem j es ms = Some (e, ms2)" "ms' = m # ms2"
      using 1(3) by (auto split: bind_splits)
    obtain i where "i < length es" "i < length ms" "\<not> ms ! i" "e = es ! i" "\<not> snd (snd e)"
      "json_equals (to_json (fst (snd e))) j" "ms2 = ms[i := True]"
      using 1(1) [OF False _ m2(1)] by blast
    then show ?thesis using m2(2) by (intro 1(2) [of "Suc i"]) auto
  qed
qed simp_all

lemma update_elems_reads:
  assumes "update_elems js prev ms t c = (out, ms', c')" "list_all plain js"
  shows "list_all (\<lambda>e. \<not> snd (snd e)) out \<and>
         list_all2 json_equals (map (\<lambda>e. to_json (fst (snd e))) out) js"
  using assms
proof (induction js prev ms t c arbitrary: out ms' c' rule: update_elems.induct)
  case (2 j js prev ms t c)
  show ?case
  proof (cases "match_elem j prev ms")
    case None
    obtain v c2 where v: "FromJson j t (c + 1) = (v, c2)" by force
    obtain out2 where rec: "update_elems js prev ms t c2 = (out2, ms', c')"
      and out: "out = (tag_at t c, v, False) # out2"
      using 2(3) None v by (auto simp: NextTag_simp split: prod.splits)
    have "to_json v = j" using to_json_FromJson_aux(1) [of j t "c + 1"] v by simp
    then show ?thesis
      using 2(1) [OF None, of "(tag_at t c, c + 1)"] v rec out 2(4)
      by (simp add: NextTag_simp json_equals_refl)
  next
    case (Some em)
    obtain e ms2 where em: "em = (e, ms2)" by (cases em)
    obtain out2 where rec: "update_elems js prev ms2 t c = (out2, ms', c')" and out: "out = e # out2"
      using 2(3) Some em by (auto split: prod.splits)
    have "\<not> snd (snd e)" "json_equals (to_json (fst (snd e))) j"
      using match_elem_Some [of j prev ms e ms2] Some em by metis+
    then show ?thesis
      using 2(2) [OF Some em [symmetric] rec] 2(4) out by simp
  qed
qed simp

lemma carry_fields_tombstone: "f \<in> set (carry_fields j t fs) \<Longrightarrow> tombstone (snd f)"
  by (auto simp: carry_fields_def MakeTombstone_def)

lemma ApplyJsonUpdate_noop:
  "\<not> tombstone prev \<and> json_equals (to_json prev) j \<Longrightarrow> ApplyJsonUpdate j prev t c = (prev, c)"
  by (subst ApplyJsonUpdate.simps) (rule if_P)

lemma ApplyJsonUpdate_object:
  "\<not> json_equals (to_json (CObject t0 False pf)) (JObject fs) \<Longrightarrow>
   ApplyJsonUpdate (JObject fs) (CObject t0 False pf) t c =
     (let (out, c) = update_fields fs pf t c in (CObject t False (out @ carry_fields (JObject fs) t pf), c))"
  by (subst ApplyJsonUpdate.simps, subst if_not_P) (simp_all del: to_json.simps json_equals.simps)

lemma ApplyJsonUpdate_array:
  "\<not> json_equals (to_json (CArray t0 False pe)) (JArray js) \<Longrightarrow>
   ApplyJsonUpdate (JArray js) (CArray t0 False pe) t c =
     (let (out, ms, c) = update_elems js pe (replicate (length pe) False) t c
      in (CArray t False (out @ carry_elems pe ms), c))"
  by (subst ApplyJsonUpdate.simps, subst if_not_P) (simp_all del: to_json.simps json_equals.simps)

lemma ApplyJsonUpdate_replace:
  assumes "\<not> (\<not> tombstone prev \<and> json_equals (to_json prev) j)"
    and "tombstone prev \<or> \<not> (is_object j \<and> is_CObject prev) \<and> \<not> (is_array j \<and> is_CArray prev)"
  shows "ApplyJsonUpdate j prev t c = FromJson j t c"
proof (cases "tombstone prev")
  case True
  then show ?thesis
    by (subst ApplyJsonUpdate.simps) (cases prev; cases j; simp del: FromJson.simps)
next
  case False
  show ?thesis
    unfolding ApplyJsonUpdate.simps [of j prev] if_not_P [OF assms(1)]
    by (cases prev; cases j) (use assms(2) False in \<open>simp_all del: FromJson.simps\<close>)
qed

lemma ApplyJsonUpdate_cases:
  assumes "ApplyJsonUpdate j prev t c = (v, c')"
  obtains (noop) "\<not> tombstone prev" "json_equals (to_json prev) j" "v = prev" "c' = c"
  | (object) t0 fs pf out where "prev = CObject t0 False pf" "j = JObject fs"
      "\<not> json_equals (to_json prev) j"
      "update_fields fs pf t c = (out, c')" "v = CObject t False (out @ carry_fields j t pf)"
  | (array) t0 js pe out ms where "prev = CArray t0 False pe" "j = JArray js"
      "update_elems js pe (replicate (length pe) False) t c = (out, ms, c')"
      "v = CArray t False (out @ carry_elems pe ms)"
  | (replace) "FromJson j t c = (v, c')"
      "tombstone prev \<or> \<not> (is_object j \<and> is_CObject prev) \<and> \<not> (is_array j \<and> is_CArray prev)"
proof -
  consider "\<not> tombstone prev \<and> json_equals (to_json prev) j"
    | t0 fs pf where "prev = CObject t0 False pf" "j = JObject fs" "\<not> json_equals (to_json prev) j"
    | t0 js pe where "prev = CArray t0 False pe" "j = JArray js" "\<not> json_equals (to_json prev) j"
    | "\<not> (\<not> tombstone prev \<and> json_equals (to_json prev) j)"
      "tombstone prev \<or> \<not> (is_object j \<and> is_CObject prev) \<and> \<not> (is_array j \<and> is_CArray prev)"
    by (cases prev; cases j; cases "tombstone prev") (auto simp del: to_json.simps json_equals.simps)
  then show thesis
  proof cases
    case 1
    then show thesis using assms by (intro noop) (simp_all add: ApplyJsonUpdate_noop [OF 1])
  next
    case 2
    obtain out c2 where u: "update_fields fs pf t c = (out, c2)" by force
    have "v = CObject t False (out @ carry_fields j t pf)" "c' = c2"
      using assms ApplyJsonUpdate_object [of t0 pf fs t c] 2 u by simp_all
    then show thesis using 2 u by (intro object) simp_all
  next
    case 3
    obtain out ms c2 where u: "update_elems js pe (replicate (length pe) False) t c = (out, ms, c2)"
      using prod_cases3 by blast
    have "v = CArray t False (out @ carry_elems pe ms)" "c' = c2"
      using assms ApplyJsonUpdate_array [of t0 pe js t c] 3 u by simp_all
    then show thesis using 3 u by (intro array) simp_all
  next
    case 4
    then show thesis using assms ApplyJsonUpdate_replace [OF 4] by (intro replace) simp_all
  qed
qed

lemma ApplyJsonUpdate_reads:
  "plain j \<Longrightarrow> json_equals (to_json (fst (ApplyJsonUpdate j prev t c))) j"
  "list_all (\<lambda>(_, v). plain v) fs \<Longrightarrow>
     map fst (fst (update_fields fs pf t c)) = map fst fs \<and>
     list_all (\<lambda>f. \<not> tombstone (snd f)) (fst (update_fields fs pf t c)) \<and>
     list_all2 (\<lambda>f g. json_equals (to_json (snd f)) (snd g)) (fst (update_fields fs pf t c)) fs"
proof (induction j prev t c and fs pf t c rule: ApplyJsonUpdate_update_fields.induct)
  case (1 j prev t c)
  obtain v c' where v: "ApplyJsonUpdate j prev t c = (v, c')" by force
  from v show ?case
  proof (cases rule: ApplyJsonUpdate_cases)
    case (object t0 fs pf out)
    have "\<not> (\<not> tombstone prev \<and> json_equals (to_json prev) j)" using object by simp
    from 1(1) [OF this refl object(1) refl object(2)] 1(2) object(2,4)
    have r: "map fst out = map fst fs" "list_all (\<lambda>f. \<not> tombstone (snd f)) out"
        "list_all2 (\<lambda>f g. json_equals (to_json (snd f)) (snd g)) out fs"
      by simp_all
    have js: "to_json v = JObject (map (\<lambda>f. (fst f, to_json (snd f))) out)"
      using r(2) carry_fields_tombstone
      by (auto simp: object(5) list_all_iff filter_id_conv)
    have "case find_field (fst f) fs of None \<Rightarrow> False | Some x \<Rightarrow> json_equals (to_json (snd f)) x"
      if "f \<in> set out" for f
    proof -
      obtain i where i: "i < length out" "f = out ! i" using \<open>f \<in> set out\<close> by (metis in_set_conv_nth)
      have len: "length out = length fs" using r(3) by (rule list_all2_lengthD)
      have "fst f = fst (fs ! i)" using r(1) i len by (metis nth_map)
      moreover have "map_of fs (fst (fs ! i)) = Some (snd (fs ! i))"
        using 1(2) object(2) i len by simp
      ultimately show ?thesis
        using list_all2_nthD [OF r(3) i(1)] i(2) by (simp add: find_field_map_of)
    qed
    then show ?thesis
      using v js object(2) list_all2_lengthD [OF r(3)]
      by (fastforce simp: list_all_iff split: option.splits)
  next
    case (array t0 js pe out ms)
    then have r: "list_all (\<lambda>e. \<not> snd (snd e)) out"
      "list_all2 json_equals (map (\<lambda>e. to_json (fst (snd e))) out) js"
      using update_elems_reads 1(2) by auto
    have "to_json v = JArray (map (\<lambda>e. to_json (fst (snd e))) out)"
      using r(1) carry_elems_removed [of pe ms]
      by (auto simp: array(4) list_all_iff filter_id_conv)
    then show ?thesis
      using v array(2) r(2) list_all2_lengthD [OF r(2)] by simp
  next
    case replace
    then show ?thesis
      using v 1(2) to_json_FromJson_aux(1) [of j t c] by (simp add: json_equals_refl)
  qed (use v in simp)
next
  case (3 key x fs pf t c)
  show ?case
  proof (cases "find_field key pf")
    case None
    then show ?thesis
      using 3 FromJson_live [of x t c] to_json_FromJson_aux(1) [of x t c]
      by (auto split: prod.splits simp: json_equals_refl)
  next
    case (Some pc)
    then show ?thesis
      using 3 ApplyJsonUpdate_live [of x pc t c] by (auto split: prod.splits)
  qed
qed simp

section \<open>Updates are inflations\<close>

fun all_tags :: "crdt \<Rightarrow> bytes list" where
  "all_tags (CScalar t d s) = []"
| "all_tags (CArray t d es) = map fst es @ concat (map (\<lambda>e. all_tags (fst (snd e))) es)"
| "all_tags (CObject t d fs) = concat (map (\<lambda>f. all_tags (snd f)) fs)"

lemma later_max: "later a b = max b a"
  by (auto simp: later_def max_def)

lemma foldl_later: "t \<le> foldl later t xs \<and> (\<forall>x \<in> set xs. x \<le> foldl later t xs)"
proof (induction xs arbitrary: t)
  case (Cons x xs)
  have "t \<le> later t x" "x \<le> later t x" by (simp_all add: later_max)
  then show ?case using Cons.IH [of "later t x"] by (auto intro: order_trans)
qed simp

lemma MaxTimestamp_ts: "ts v \<le> MaxTimestamp v"
  by (cases v) (simp_all add: foldl_later)

lemma MaxTimestamp_field: "(k, v) \<in> set fs \<Longrightarrow> MaxTimestamp v \<le> MaxTimestamp (CObject t d fs)"
  using foldl_later [of t "map (\<lambda>f. MaxTimestamp (snd f)) fs"] by force

lemma sort_map_eqI:
  assumes "distinct (map fst f)" "distinct (map fst g)"
    and "\<And>k. map_option h (map_of f k) = map_option h (map_of g k)"
  shows "sort_key fst (map (\<lambda>x. (fst x, h (snd x))) f) = sort_key fst (map (\<lambda>x. (fst x, h (snd x))) g)"
  by (rule sorted_distinct_map_of_eq)
    (use assms in \<open>simp_all add: comp_def map_of_map_snd fun_eq_iff\<close>)

lemma inflate_join:
  assumes "distinct (map fst f)" "distinct (map fst g)"
    and "\<And>k x. (k, x) \<in> set f \<Longrightarrow> \<exists>y. map_of g k = Some y \<and> h (m x y) = h y"
  shows "sort_key fst (map (\<lambda>x. (fst x, h (snd x))) (hash_join m f g)) =
         sort_key fst (map (\<lambda>x. (fst x, h (snd x))) g)"
proof (rule sort_map_eqI)
  fix k
  show "map_option h (map_of (hash_join m f g) k) = map_option h (map_of g k)"
  proof (cases "map_of f k")
    case (Some x)
    from assms(3) [OF map_of_SomeD [OF Some]] Some show ?thesis
      by (auto simp: map_of_hash_join assms(1,2))
  qed (simp add: map_of_hash_join assms(1,2))
qed (simp_all add: hash_join_keys assms(1,2))

lemma inflate_object:
  assumes "distinct (map fst f)" "distinct (map fst g)"
    and "\<And>k x. (k, x) \<in> set f \<Longrightarrow> \<exists>y. map_of g k = Some y \<and> canon (Merge x y) = canon y"
    and "t0 \<le> t"
  shows "canon (Merge (CObject t0 False f) (CObject t False g)) = canon (CObject t False g)"
  using inflate_join [of f g canon Merge] assms by (simp add: merge_object max_absorb2)

lemma inflate_array:
  assumes "distinct (map fst f)" "distinct (map fst g)"
    and "\<And>k x d. (k, x, d) \<in> set f \<Longrightarrow>
           \<exists>y d'. map_of g k = Some (y, d') \<and> canon (Merge x y) = canon y \<and> (d \<longrightarrow> d')"
    and "t0 \<le> t"
  shows "canon (Merge (CArray t0 False f) (CArray t False g)) = canon (CArray t False g)"
proof -
  have "\<exists>y. map_of g k = Some y \<and>
          (canon (fst (merge_elem Merge x y)), snd (merge_elem Merge x y)) = (canon (fst y), snd y)"
    if "(k, x) \<in> set f" for k x
    using assms(3) [of k "fst x" "snd x"] that by (fastforce simp: merge_elem_def)
  then have "sort_key fst (map (\<lambda>x. (fst x, (\<lambda>e. (canon (fst e), snd e)) (snd x)))
      (hash_join (merge_elem Merge) f g)) =
    sort_key fst (map (\<lambda>x. (fst x, (\<lambda>e. (canon (fst e), snd e)) (snd x))) g)"
    by (intro inflate_join assms(1,2)) blast
  then show ?thesis using assms(4) by (simp add: merge_array max_absorb2)
qed

lemma merge_self: "wf_crdt v \<Longrightarrow> canon (Merge v v) = canon v"
proof (induction v)
  case (CScalar t d s)
  then show ?case by (simp add: merge_scalar lww_def)
next
  case (CArray t d es)
  show ?case
  proof (cases d)
    case False
    have "\<exists>y d'. map_of es k = Some (y, d') \<and> canon (Merge x y) = canon y \<and> (e \<longrightarrow> d')"
      if "(k, x, e) \<in> set es" for k x e
      using CArray.IH [of "(k, x, e)" "(x, e)" x] CArray.prems that wf_elemD [OF CArray.prems that]
      by simp
    then show ?thesis using CArray.prems False inflate_array [of es es t t] by simp
  qed (simp add: merge_tombstone lww_def)
next
  case (CObject t d fs)
  show ?case
  proof (cases d)
    case False
    have "\<exists>y. map_of fs k = Some y \<and> canon (Merge x y) = canon y" if "(k, x) \<in> set fs" for k x
      using CObject.IH [of "(k, x)" x] CObject.prems that wf_fieldD [OF CObject.prems that] by simp
    then show ?thesis using CObject.prems False inflate_object [of fs fs t t] by simp
  qed (simp add: merge_tombstone lww_def)
qed

lemma carry_elems_upt:
  "length ms = length es \<Longrightarrow>
   carry_elems es ms =
     map (\<lambda>i. (fst (es ! i), fst (snd (es ! i)), True)) (filter (\<lambda>i. \<not> ms ! i) [0..<length es])"
proof (induction ms es rule: list_induct2)
  case (Cons m ms e es)
  have "[0..<Suc (length es)] = 0 # map Suc [0..<length es]"
    by (simp add: upt_conv_Cons map_Suc_upt del: upt_Suc)
  then show ?case using Cons by (simp add: filter_map comp_def del: upt_Suc)
qed simp

lemma carry_elems_nth:
  "length ms = length es \<Longrightarrow>
   e \<in> set (carry_elems es ms) \<longleftrightarrow>
     (\<exists>i < length es. \<not> ms ! i \<and> e = (fst (es ! i), fst (snd (es ! i)), True))"
  by (auto simp: carry_elems_upt)

lemma carry_elems_distinct:
  assumes "length ms = length es" "distinct (map fst es)"
  shows "distinct (map fst (carry_elems es ms))"
proof -
  have "inj_on (\<lambda>i. fst (es ! i)) {0..<length es}"
    using nth_eq_iff_index_eq [OF assms(2)] by (auto simp: inj_on_def)
  then show ?thesis
    using assms(1) by (auto simp: carry_elems_upt distinct_map comp_def intro: inj_on_subset)
qed

lemma match_elem_length: "match_elem j es ms = Some (e, ms') \<Longrightarrow> length ms' = length ms"
  by (erule match_elem_Some) simp

lemma update_elems_tracks:
  assumes "update_elems js pe ms t c = (out, ms', c')" "length ms = length pe"
    and "unat c + json_elems (JArray js) < 2 ^ 64" "list_all plain js" "distinct (map fst pe)"
    and "\<And>s. tag_at t s \<notin> fst ` set pe"
  shows "length ms' = length pe \<and> unat c \<le> unat c' \<and> unat c' \<le> unat c + json_elems (JArray js) \<and>
    (\<forall>i < length pe. ms ! i \<longrightarrow> ms' ! i) \<and> distinct (map fst out) \<and>
    (\<forall>e \<in> set out. (\<exists>i < length pe. \<not> ms ! i \<and> ms' ! i \<and> e = pe ! i) \<or>
       fst e \<in> fresh_tags t c c' \<and> wf_crdt (fst (snd e))) \<and>
    (\<forall>i < length pe. \<not> ms ! i \<longrightarrow> ms' ! i \<longrightarrow> pe ! i \<in> set out \<and> \<not> snd (snd (pe ! i)))"
  using assms
proof (induction js pe ms t c arbitrary: out ms' c' rule: update_elems.induct)
  case (2 j js pe ms t c)
  have tag: "tag_at t s \<noteq> fst (pe ! i)" if "i < length pe" for s i
    using 2(8) [of s] that by auto
  have inj: "i = k" if "i < length pe" "k < length pe" "fst (pe ! i) = fst (pe ! k)" for i k
    using 2(7) that by (simp add: distinct_conv_nth) (metis)
  show ?case
  proof (cases "match_elem j pe ms")
    case None
    obtain v c2 where v: "FromJson j t (c + 1) = (v, c2)" by force
    obtain out2 where rec: "update_elems js pe ms t c2 = (out2, ms', c')"
      and out: "out = (tag_at t c, v, False) # out2"
      using 2(3) None v by (auto simp: NextTag_simp split: prod.splits)
    have u1: "unat (c + 1) = unat c + 1" by (rule unat_Suc) (use 2(5) in simp)
    have c2: "unat c2 = unat c + 1 + json_elems j" "wf_crdt v"
      using FromJson_props(1) [OF v] u1 2(5,6) by simp_all
    have IH: "length ms' = length pe \<and> unat c2 \<le> unat c' \<and> unat c' \<le> unat c2 + json_elems (JArray js) \<and>
      (\<forall>i < length pe. ms ! i \<longrightarrow> ms' ! i) \<and> distinct (map fst out2) \<and>
      (\<forall>e \<in> set out2. (\<exists>i < length pe. \<not> ms ! i \<and> ms' ! i \<and> e = pe ! i) \<or>
         fst e \<in> fresh_tags t c2 c' \<and> wf_crdt (fst (snd e))) \<and>
      (\<forall>i < length pe. \<not> ms ! i \<longrightarrow> ms' ! i \<longrightarrow> pe ! i \<in> set out2 \<and> \<not> snd (snd (pe ! i)))"
      by (rule 2(1) [OF None, of "(tag_at t c, c + 1)" "tag_at t c" "c + 1" "(v, c2)" v c2])
        (use 2(4-8) v rec c2 in \<open>simp_all add: NextTag_simp\<close>)
    have "tag_at t c \<notin> fresh_tags t c2 c'" "fresh_tags t c2 c' \<subseteq> fresh_tags t c c'"
      "tag_at t c \<in> fresh_tags t c c'"
      using c2 IH by (auto simp: fresh_tags_def tag_at_inject)
    then have "tag_at t c \<notin> fst ` set out2"
      using IH tag by auto
    then show ?thesis
      using IH out c2 \<open>fresh_tags t c2 c' \<subseteq> fresh_tags t c c'\<close> \<open>tag_at t c \<in> fresh_tags t c c'\<close>
      by auto
  next
    case (Some em)
    obtain e ms2 where em: "em = (e, ms2)" by (cases em)
    obtain out2 where rec: "update_elems js pe ms2 t c = (out2, ms', c')" and out: "out = e # out2"
      using 2(3) Some em by (auto split: prod.splits)
    obtain i where i: "i < length pe" "i < length ms" "\<not> ms ! i" "e = pe ! i" "\<not> snd (snd e)"
      "ms2 = ms[i := True]"
      using match_elem_Some [of j pe ms e ms2] Some em by metis
    have IH: "length ms' = length pe \<and> unat c \<le> unat c' \<and> unat c' \<le> unat c + json_elems (JArray js) \<and>
      (\<forall>i < length pe. ms2 ! i \<longrightarrow> ms' ! i) \<and> distinct (map fst out2) \<and>
      (\<forall>e \<in> set out2. (\<exists>i < length pe. \<not> ms2 ! i \<and> ms' ! i \<and> e = pe ! i) \<or>
         fst e \<in> fresh_tags t c c' \<and> wf_crdt (fst (snd e))) \<and>
      (\<forall>i < length pe. \<not> ms2 ! i \<longrightarrow> ms' ! i \<longrightarrow> pe ! i \<in> set out2 \<and> \<not> snd (snd (pe ! i)))"
      by (rule 2(2) [OF Some em [symmetric] rec])
        (use 2(4-8) i in simp_all)
    have "fst e \<notin> fst ` set out2"
    proof
      assume "fst e \<in> fst ` set out2"
      then obtain x where x: "x \<in> set out2" "fst x = fst e" by auto
      with IH consider k where "k < length pe" "\<not> ms2 ! k" "x = pe ! k" | "fst x \<in> fresh_tags t c c'"
        by blast
      then show False
      proof cases
        case 1
        then show False using inj [of k i] i x(2) by auto
      next
        case 2
        then obtain s where "fst x = tag_at t s" by (auto simp: fresh_tags_def)
        then show False using tag [OF i(1), of s] x(2) i(4) by simp
      qed
    qed
    moreover have ms2: "\<forall>k < length pe. ms2 ! k = (k = i \<or> ms ! k)"
      using i 2(4) by (auto simp: nth_list_update)
    moreover have "\<forall>e \<in> set out2. (\<exists>k < length pe. \<not> ms ! k \<and> ms' ! k \<and> e = pe ! k) \<or>
        fst e \<in> fresh_tags t c c' \<and> wf_crdt (fst (snd e))"
      using IH ms2 by blast
    moreover have "ms' ! i" using IH ms2 i(1) by blast
    moreover have "pe ! k \<in> set out \<and> \<not> snd (snd (pe ! k))"
      if "k < length pe" "\<not> ms ! k" "ms' ! k" for k
      using IH ms2 i(4,5) out that by (cases "k = i") auto
    ultimately show ?thesis
      using IH out i(1,3,4) by simp blast
  qed
qed simp

text \<open>The preconditions of a local write: a fresh timestamp, and tags not exhausted.\<close>

definition stamp_ok :: "hlc \<Rightarrow> crdt \<Rightarrow> bool" where
  "stamp_ok t prev \<longleftrightarrow>
     wf_crdt prev \<and> MaxTimestamp prev < t \<and> (\<forall>s. tag_at t s \<notin> set (all_tags prev))"

definition write_ok :: "json \<Rightarrow> crdt \<Rightarrow> hlc \<Rightarrow> u64 \<Rightarrow> bool" where
  "write_ok j prev t c \<longleftrightarrow> plain j \<and> stamp_ok t prev \<and> unat c + json_elems j < 2 ^ 64"

definition inflates :: "crdt \<Rightarrow> crdt \<Rightarrow> bool" where
  "inflates prev v \<longleftrightarrow> wf_crdt v \<and> canon (Merge prev v) = canon v"

lemma lww_newer: "ts a < ts b \<Longrightarrow> lww a b = b"
  by (simp add: lww_def)

lemma replace_inflates:
  assumes "ts prev < ts v" "wf_crdt v"
    and "tombstone prev \<or> (\<exists>t d s. v = CScalar t d s) \<or> (\<exists>t d s. prev = CScalar t d s) \<or>
      is_CObject v \<noteq> is_CObject prev"
  shows "inflates prev v"
  using assms by (cases prev; cases v) (auto simp: inflates_def merge_cases lww_newer)

lemma array_inflates:
  assumes ok: "write_ok (JArray js) (CArray t0 False pe) t c"
    and u: "update_elems js pe (replicate (length pe) False) t c = (out, ms, c')"
  shows "inflates (CArray t0 False pe) (CArray t False (out @ carry_elems pe ms)) \<and>
         unat c' \<le> unat c + json_elems (JArray js)"
proof -
  have d: "distinct (map fst pe)" and tags: "tag_at t s \<notin> fst ` set pe" for s
    using ok by (auto simp: write_ok_def stamp_ok_def)
  note tr = update_elems_tracks [OF u _ _ _ d tags]
  have T: "length ms = length pe" "unat c' \<le> unat c + json_elems (JArray js)" "distinct (map fst out)"
    "\<And>e. e \<in> set out \<Longrightarrow> (\<exists>i < length pe. ms ! i \<and> e = pe ! i) \<or>
       fst e \<in> fresh_tags t c c' \<and> wf_crdt (fst (snd e))"
    "\<And>i. i < length pe \<Longrightarrow> ms ! i \<Longrightarrow> pe ! i \<in> set out \<and> \<not> snd (snd (pe ! i))"
    using tr ok by (auto simp: write_ok_def stamp_ok_def)
  have sep: "fst e \<noteq> fst (pe ! i)" if "e \<in> set out" "i < length pe" "\<not> ms ! i" for e i
    using T(4) [OF that(1)]
  proof
    assume "\<exists>k < length pe. ms ! k \<and> e = pe ! k"
    then obtain k where "k < length pe" "ms ! k" "e = pe ! k" by blast
    then show ?thesis using that nth_eq_iff_index_eq [OF d, of k i] by auto
  next
    assume "fst e \<in> fresh_tags t c c' \<and> wf_crdt (fst (snd e))"
    then obtain s where "fst e = tag_at t s" by (auto simp: fresh_tags_def)
    then show ?thesis using tags [of s] that(2) nth_mem [OF that(2)] by (metis image_eqI)
  qed
  then have disj: "fst ` set out \<inter> fst ` set (carry_elems pe ms) = {}"
    by (fastforce simp: carry_elems_nth T(1))
  have dist: "distinct (map fst (out @ carry_elems pe ms))"
    using T(3) disj carry_elems_distinct [OF T(1) d] by simp
  have wf: "wf_crdt (fst (snd e))" if "e \<in> set (out @ carry_elems pe ms)" for e
  proof -
    have pe: "wf_crdt (fst (snd (pe ! i)))" if "i < length pe" for i
      using ok that by (simp add: write_ok_def stamp_ok_def list_all_length)
    from that consider "e \<in> set out" | i where "i < length pe" "e = (fst (pe ! i), fst (snd (pe ! i)), True)"
      by (auto simp: carry_elems_nth [OF T(1)])
    then show ?thesis
    proof cases
      case 1
      then show ?thesis using T(4) [OF 1] by (elim disjE exE conjE) (simp_all add: pe)
    qed (simp add: pe)
  qed
  have infl: "\<exists>y d'. map_of (out @ carry_elems pe ms) k = Some (y, d') \<and> canon (Merge x y) = canon y \<and> (e \<longrightarrow> d')"
    if pe_in: "(k, x, e) \<in> set pe" for k x e
  proof -
    obtain i where i: "i < length pe" "pe ! i = (k, x, e)"
      using pe_in unfolding in_set_conv_nth by blast
    have self: "canon (Merge x x) = canon x"
      using ok pe_in by (intro merge_self) (auto simp: write_ok_def stamp_ok_def list_all_iff)
    have "\<exists>d'. (k, x, d') \<in> set (out @ carry_elems pe ms) \<and> (e \<longrightarrow> d')"
    proof (cases "ms ! i")
      case True
      then show ?thesis using T(5) [OF i(1)] i by auto
    next
      case False
      then have "(k, x, True) \<in> set (carry_elems pe ms)"
        using i unfolding carry_elems_nth [OF T(1)] by (intro exI [of _ i]) simp
      then show ?thesis by auto
    qed
    then show ?thesis using self map_of_is_SomeI [OF dist] by blast
  qed
  have le: "t0 \<le> t"
    using ok order.strict_trans1 [OF MaxTimestamp_ts [of "CArray t0 False pe"], of t]
    by (simp add: write_ok_def stamp_ok_def less_imp_le)
  have "wf_crdt (CArray t False (out @ carry_elems pe ms))"
    unfolding wf_crdt.simps list_all_iff using dist wf by blast
  then show ?thesis
    unfolding inflates_def using inflate_array [OF d dist infl le] T(2) by blast
qed

lemma stamp_ok_field:
  assumes "stamp_ok t (CObject t0 d pf)" "map_of pf k = Some pc"
  shows "stamp_ok t pc"
proof -
  have m: "(k, pc) \<in> set pf" using assms(2) by (rule map_of_SomeD)
  then have "set (all_tags pc) \<subseteq> set (all_tags (CObject t0 d pf))" by force
  then show ?thesis
    using assms(1) wf_fieldD [OF _ m, of t0 d] MaxTimestamp_field [OF m, of t0 d]
    unfolding stamp_ok_def by (metis le_less_trans subsetD)
qed

lemma object_inflates:
  assumes ok: "write_ok (JObject fs) (CObject t0 False pf) t c"
    and keys: "map fst out = map fst fs"
    and out: "\<And>k v. (k, v) \<in> set out \<Longrightarrow> wf_crdt v \<and> (\<forall>pc. map_of pf k = Some pc \<longrightarrow> inflates pc v)"
  shows "inflates (CObject t0 False pf) (CObject t False (out @ carry_fields (JObject fs) t pf))"
proof -
  let ?carry = "carry_fields (JObject fs) t pf"
  have dp: "distinct (map fst pf)" and df: "distinct (map fst out)" and le: "MaxTimestamp (CObject t0 False pf) < t"
    using ok keys by (simp_all add: write_ok_def stamp_ok_def)
  have has: "Has (JObject fs) k \<longleftrightarrow> k \<in> fst ` set out" for k
  proof -
    have "fst ` set out = fst ` set fs" using keys by (metis list.set_map)
    then show ?thesis by (simp add: Has_def Find_def find_field_map_of map_of_eq_None_iff)
  qed
  have cv: "(k, v) \<in> set ?carry \<Longrightarrow> \<exists>pc. (k, pc) \<in> set pf \<and> k \<notin> fst ` set out \<and>
      v = (if tombstone pc then pc else MakeTombstone t)" for k v
    by (auto simp: carry_fields_def has)
  have dist: "distinct (map fst (out @ ?carry))"
    using df dp cv by (auto simp: carry_fields_def has comp_def distinct_map_filter)
  have wf: "wf_crdt v" if "(k, v) \<in> set (out @ ?carry)" for k v
    using that out cv [of k v] ok wf_fieldD [of t0 False pf]
    by (auto simp: MakeTombstone_def write_ok_def stamp_ok_def)
  have "\<exists>y. map_of (out @ ?carry) k = Some y \<and> canon (Merge pc y) = canon y" if pc: "(k, pc) \<in> set pf" for k pc
  proof (cases "k \<in> fst ` set out")
    case True
    then obtain v where v: "(k, v) \<in> set out" by auto
    then have "inflates pc v" using out [OF v] pc dp by simp
    moreover have "map_of (out @ ?carry) k = Some v"
      by (rule map_of_is_SomeI [OF dist]) (use v in simp)
    ultimately show ?thesis by (auto simp: inflates_def)
  next
    case False
    let ?v = "if tombstone pc then pc else MakeTombstone t"
    have "(k, ?v) \<in> set ?carry" using pc False by (auto simp: carry_fields_def has image_iff)
    then have "map_of (out @ ?carry) k = Some ?v"
      by (intro map_of_is_SomeI [OF dist]) simp
    moreover have "ts pc < t"
      using MaxTimestamp_ts [of pc] MaxTimestamp_field [OF pc, of t0 False] le by order
    then have "canon (Merge pc ?v) = canon ?v"
      by (auto simp: merge_tombstone lww_def MakeTombstone_def merge_scalar)
    ultimately show ?thesis by blast
  qed
  moreover have "t0 \<le> t"
    using le MaxTimestamp_ts [of "CObject t0 False pf"] by simp
  moreover have "wf_crdt (CObject t False (out @ ?carry))"
    using dist wf [of "fst x" "snd x" for x] by (simp only: wf_crdt.simps list_all_iff prod.collapse) blast
  ultimately show ?thesis
    unfolding inflates_def using inflate_object [OF dp dist] by blast
qed

lemma ApplyJsonUpdate_inflates:
  "ApplyJsonUpdate j prev t c = (v, c') \<Longrightarrow> write_ok j prev t c \<Longrightarrow>
     inflates prev v \<and> unat c' \<le> unat c + json_elems j"
  "update_fields fs pf t c = (out, c') \<Longrightarrow> list_all (\<lambda>(_, v). plain v) fs \<Longrightarrow>
     unat c + json_elems (JObject fs) < 2 ^ 64 \<Longrightarrow>
     (\<And>k pc. map_of pf k = Some pc \<Longrightarrow> stamp_ok t pc) \<Longrightarrow>
     unat c' \<le> unat c + json_elems (JObject fs) \<and> map fst out = map fst fs \<and>
     (\<forall>k v. (k, v) \<in> set out \<longrightarrow> wf_crdt v \<and> (\<forall>pc. map_of pf k = Some pc \<longrightarrow> inflates pc v))"
proof (induction j prev t c and fs pf t c arbitrary: v c' and out c'
    rule: ApplyJsonUpdate_update_fields.induct)
  case (1 j prev t c)
  from 1(2) show ?case
  proof (cases rule: ApplyJsonUpdate_cases)
    case noop
    then show ?thesis
      using 1(3) merge_self [of prev] by (simp add: inflates_def write_ok_def stamp_ok_def)
  next
    case (object t0 fs pf out)
    have "\<not> (\<not> tombstone prev \<and> json_equals (to_json prev) j)" using object by simp
    from 1(1) [OF this refl object(1) refl object(2,4)] 1(3) object(1,2) stamp_ok_field [of t t0 False pf]
    have "unat c' \<le> unat c + json_elems (JObject fs) \<and> map fst out = map fst fs \<and>
     (\<forall>k v. (k, v) \<in> set out \<longrightarrow> wf_crdt v \<and> (\<forall>pc. map_of pf k = Some pc \<longrightarrow> inflates pc v))"
      by (simp add: write_ok_def)
    then show ?thesis
      using object_inflates [of fs t0 pf t c out] 1(3) object by simp
  next
    case (array t0 js pe out ms)
    then show ?thesis using array_inflates [of js t0 pe t c out ms c'] 1(3) by simp
  next
    case replace
    have "unat c' = unat c + json_elems j" "wf_crdt v"
      using FromJson_props(1) [OF replace(1)] 1(3) by (simp_all add: write_ok_def)
    moreover have "ts v = t" using FromJson_ts [of j t c] replace(1) by simp
    moreover have "ts prev < t"
      using 1(3) le_less_trans [OF MaxTimestamp_ts [of prev]] by (simp add: write_ok_def stamp_ok_def)
    moreover have "tombstone prev \<or> (\<exists>t d s. v = CScalar t d s) \<or> (\<exists>t d s. prev = CScalar t d s) \<or>
      is_CObject v \<noteq> is_CObject prev"
      using replace by (cases j; cases prev) (auto split: prod.splits)
    ultimately show ?thesis by (simp add: replace_inflates)
  qed
next
  case (3 key x fs pf t c)
  obtain v c1 where v: "(case find_field key pf of Some pc \<Rightarrow> ApplyJsonUpdate x pc t c
      | None \<Rightarrow> FromJson x t c) = (v, c1)" by force
  obtain out2 where rec: "update_fields fs pf t c1 = (out2, c')" and out: "out = (key, v) # out2"
    using 3(3) v by (auto split: prod.splits)
  have first: "wf_crdt v \<and> unat c1 \<le> unat c + json_elems x \<and>
      (\<forall>pc. map_of pf key = Some pc \<longrightarrow> inflates pc v)"
  proof (cases "find_field key pf")
    case None
    then show ?thesis
      using v FromJson_props(1) [of x t c v c1] 3(4,5) by (simp add: find_field_map_of)
  next
    case (Some pc)
    have "write_ok x pc t c"
      using 3(4,5) 3(6) [of key pc] Some by (simp add: write_ok_def find_field_map_of)
    then have "inflates pc v \<and> unat c1 \<le> unat c + json_elems x"
      using 3(1) [OF Some] v Some by simp
    then show ?thesis using Some by (simp add: find_field_map_of inflates_def)
  qed
  have "unat c' \<le> unat c1 + json_elems (JObject fs) \<and> map fst out2 = map fst fs \<and>
     (\<forall>k v. (k, v) \<in> set out2 \<longrightarrow> wf_crdt v \<and> (\<forall>pc. map_of pf k = Some pc \<longrightarrow> inflates pc v))"
    by (rule 3(2) [OF v [symmetric] refl rec]) (use 3(4-6) first in auto)
  then show ?case using first out by auto
qed simp

section \<open>Properties\<close>

text \<open>
  C12: a local write is an inflation. Updating a well-formed document with a fresh timestamp
  (greater than every timestamp in it, with no tag of its own in it) and tags to spare gives a
  well-formed document, and merging it into the document it was made from gives, up to the
  canonical order, exactly the updated document: every kept element keeps its tag, every dropped
  element and field is tombstoned, nothing known before is forgotten, and a peer holding the old
  version ends with the new one.
\<close>

theorem local_write_inflates:
  assumes "write_ok j prev t c"
  shows "wf_crdt (fst (ApplyJsonUpdate j prev t c)) \<and>
         canon (Merge prev (fst (ApplyJsonUpdate j prev t c))) = canon (fst (ApplyJsonUpdate j prev t c))"
proof -
  obtain v c' where v: "ApplyJsonUpdate j prev t c = (v, c')" by force
  from ApplyJsonUpdate_inflates(1) [OF this assms] v show ?thesis by (simp add: inflates_def)
qed

definition ex_list :: crdt where
  "ex_list = CArray (HLC 1 0 [65]) False
     [(tag_at (HLC 1 0 [65]) 0, CScalar (HLC 1 0 [65]) False (SInt 5), False),
      (tag_at (HLC 1 0 [65]) 1, CScalar (HLC 1 0 [65]) False (SInt 6), False)]"

theorem local_write_inflates_witness:
  "write_ok (JArray [JInt 6, JInt 7]) ex_list (HLC 2 0 [65]) 2 \<and>
   canon (Merge ex_list (fst (ApplyJsonUpdate (JArray [JInt 6, JInt 7]) ex_list (HLC 2 0 [65]) 2))) =
   canon (fst (ApplyJsonUpdate (JArray [JInt 6, JInt 7]) ex_list (HLC 2 0 [65]) 2))"
proof -
  have "write_ok (JArray [JInt 6, JInt 7]) ex_list (HLC 2 0 [65]) 2"
    by (simp add: write_ok_def stamp_ok_def ex_list_def tag_at_inject later_def less_hlc_def)
  then show ?thesis using local_write_inflates by blast
qed

text \<open>
  C13: a write reads back as written: whatever the document held before, after
  \<^verbatim>\<open>ApplyJsonUpdate\<close> its visible JSON equals the written value under the code's own
  \<^verbatim>\<open>JsonEquals\<close>, for every value without NaN and without repeated object keys.
\<close>

theorem local_write_reads_back:
  assumes "plain j"
  shows "json_equals (to_json (fst (ApplyJsonUpdate j prev t c))) j"
  using ApplyJsonUpdate_reads(1) [OF assms] .

theorem local_write_reads_back_witness:
  "plain (JObject [([97], JArray [JInt 1]), ([98], JNull)]) \<and>
   json_equals (to_json (fst (ApplyJsonUpdate (JObject [([97], JArray [JInt 1]), ([98], JNull)])
     (ex_object 1 [97] 5) (HLC 2 0 [65]) 0))) (JObject [([97], JArray [JInt 1]), ([98], JNull)])"
proof -
  have "plain (JObject [([97], JArray [JInt 1]), ([98], JNull)])" by simp
  then show ?thesis using local_write_reads_back by blast
qed

text \<open>
  Materialising a freshly built tree returns the JSON it was built from, for every value.
\<close>

theorem from_json_to_json: "to_json (fst (FromJson j t c)) = j"
  by (rule to_json_FromJson_aux(1))

text \<open>
  OR-Set tags identify their add: two tags are equal only if they were made at the same
  timestamp (node id included) with the same counter value, although the parts are joined by
  plain separators and the node id may itself contain them.
\<close>

theorem next_tag_unique: "fst (NextTag t s) = fst (NextTag t' s') \<longleftrightarrow> t = t' \<and> s = s'"
  using tag_at_inject by (simp add: tag_at_def)

text \<open>
  Writing the empty object deletes a document: the result is empty whatever the object held.
\<close>

theorem write_empty_deletes: "IsEmpty (fst (ApplyJsonUpdate (JObject []) (CObject t0 d fs) t c))"
proof -
  obtain v c' where v: "ApplyJsonUpdate (JObject []) (CObject t0 d fs) t c = (v, c')" by force
  from v show ?thesis
  proof (cases rule: ApplyJsonUpdate_cases)
    case noop
    then show ?thesis using v by (auto simp: IsEmpty_def list_all_iff filter_empty_conv)
  next
    case (object t1 gs pf out)
    then show ?thesis
      using v carry_fields_tombstone by (auto simp: IsEmpty_def list_all_iff)
  next
    case replace
    then show ?thesis using v by (auto simp: IsEmpty_def)
  qed simp
qed

end
