(* ===== verification/CrdtCodec.thy ===== *)
theory CrdtCodec
  imports CrdtUpdate
begin

text \<open>
  \<^verbatim>\<open>CrdtValue::Encode\<close> and \<^verbatim>\<open>Decode\<close> (\<^verbatim>\<open>src/crdt/document.cpp\<close>): the one byte
  representation of a document, used on disk and on the wire. The round trip is exact up to the
  canonical order, which the encoder imposes; the decoder refuses nesting beyond its depth cap.
  With \<^verbatim>\<open>CrdtMerge\<close> this gives byte-identical replicas.
\<close>

section \<open>The codec\<close>

definition kMaxDecodeDepth :: nat where
  "kMaxDecodeDepth = 64"

fun scalar_kind :: "scalar \<Rightarrow> byte" where
  "scalar_kind SNull = 0"
| "scalar_kind (SBool _) = 1"
| "scalar_kind (SInt _) = 2"
| "scalar_kind (SDouble _) = 3"
| "scalar_kind (SString _) = 4"

fun put_scalar :: "scalar \<Rightarrow> bytes" where
  "put_scalar SNull = []"
| "put_scalar (SBool b) = put_bool b"
| "put_scalar (SInt i) = put_i64 i"
| "put_scalar (SDouble d) = put_f64 d"
| "put_scalar (SString s) = put_bytes s"

definition put_header :: "byte \<Rightarrow> bool \<Rightarrow> hlc \<Rightarrow> bytes" where
  "put_header k d t = put_u8 k @ put_bool d @ put_bytes (hlc_encode t)"

function crdt_encode :: "crdt \<Rightarrow> bytes" where
  "crdt_encode (CScalar t d s) = put_header (scalar_kind s) d t @ put_scalar s"
| "crdt_encode (CArray t d es) =
     put_header 5 d t @ put_u32 (of_nat (length es)) @
     concat (map (\<lambda>e. put_bytes (fst e) @ put_bool (snd (snd e)) @ put_bytes (crdt_encode (fst (snd e))))
       (sort_key fst es))"
| "crdt_encode (CObject t d fs) =
     put_header 6 d t @ put_u32 (of_nat (length fs)) @
     concat (map (\<lambda>f. put_bytes (fst f) @ put_bytes (crdt_encode (snd f))) (sort_key fst fs))"
  by pat_completeness auto

termination
  by (relation "measure size") (auto dest: crdt_child_size)

text \<open>
  \<open>decode_at\<close> is \<^verbatim>\<open>DecodeAt\<close>; \<open>None\<close> is the thrown exception, from the depth cap or from a
  read past the end. An unknown kind byte leaves the value a null, as in the source, and bytes
  after the value are ignored. The \<^verbatim>\<open>reserve\<close> bounds only pre-allocate.
\<close>

definition get_header :: "(byte \<times> bool \<times> hlc) reader" where
  "get_header bs = do {
     (k, bs) \<leftarrow> get_u8 bs;
     (d, bs) \<leftarrow> get_bool bs;
     (t, bs) \<leftarrow> get_bytes bs;
     Some ((k, d, hlc_decode t), bs) }"

definition get_elem :: "(bytes \<Rightarrow> crdt option) \<Rightarrow> (bytes \<times> crdt \<times> bool) reader" where
  "get_elem dec bs = do {
     (tag, bs) \<leftarrow> get_bytes bs;
     (d, bs) \<leftarrow> get_bool bs;
     (x, bs) \<leftarrow> get_bytes bs;
     v \<leftarrow> dec x;
     Some ((tag, v, d), bs) }"

definition get_field :: "(bytes \<Rightarrow> crdt option) \<Rightarrow> (bytes \<times> crdt) reader" where
  "get_field dec bs = do {
     (k, bs) \<leftarrow> get_bytes bs;
     (x, bs) \<leftarrow> get_bytes bs;
     v \<leftarrow> dec x;
     Some ((k, v), bs) }"

function decode_at :: "nat \<Rightarrow> bytes \<Rightarrow> crdt option" where
  "decode_at depth bs =
     (if depth > kMaxDecodeDepth then None
      else do {
        ((k, d, t), bs) \<leftarrow> get_header bs;
        if k = 1 then do { (b, _) \<leftarrow> get_bool bs; Some (CScalar t d (SBool b)) }
        else if k = 2 then do { (i, _) \<leftarrow> get_i64 bs; Some (CScalar t d (SInt i)) }
        else if k = 3 then do { (x, _) \<leftarrow> get_f64 bs; Some (CScalar t d (SDouble x)) }
        else if k = 4 then do { (s, _) \<leftarrow> get_bytes bs; Some (CScalar t d (SString s)) }
        else if k = 5 then do {
          (n, bs) \<leftarrow> get_u32 bs;
          (es, _) \<leftarrow> get_n (get_elem (decode_at (Suc depth))) (unat n) bs;
          Some (CArray t d es) }
        else if k = 6 then do {
          (n, bs) \<leftarrow> get_u32 bs;
          (fs, _) \<leftarrow> get_n (get_field (decode_at (Suc depth))) (unat n) bs;
          Some (CObject t d fs) }
        else Some (CScalar t d SNull) })"
  by pat_completeness auto

termination
  by (relation "measure (\<lambda>(depth, _). Suc kMaxDecodeDepth - depth)") auto

declare decode_at.simps [simp del]

definition crdt_decode :: "bytes \<Rightarrow> crdt option" where
  "crdt_decode bs = decode_at 0 bs"

section \<open>Round trip\<close>

text \<open>What the 32-bit prefixes and the 64-bit integers can carry.\<close>

fun scalar_fits :: "scalar \<Rightarrow> bool" where
  "scalar_fits (SInt i) = i64_ok i"
| "scalar_fits (SString s) = fits s"
| "scalar_fits _ = True"

fun crdt_fits :: "crdt \<Rightarrow> bool" where
  "crdt_fits (CScalar t d s) = (fits (hlc_encode t) \<and> scalar_fits s)"
| "crdt_fits (CArray t d es) =
     (fits (hlc_encode t) \<and> length es < 2 ^ 32 \<and>
      list_all (\<lambda>e. fits (fst e) \<and> fits (crdt_encode (fst (snd e))) \<and> crdt_fits (fst (snd e))) es)"
| "crdt_fits (CObject t d fs) =
     (fits (hlc_encode t) \<and> length fs < 2 ^ 32 \<and>
      list_all (\<lambda>f. fits (fst f) \<and> fits (crdt_encode (snd f)) \<and> crdt_fits (snd f)) fs)"

fun cdepth :: "crdt \<Rightarrow> nat" where
  "cdepth (CScalar t d s) = 0"
| "cdepth (CArray t d es) = foldr max (map (\<lambda>e. Suc (cdepth (fst (snd e)))) es) 0"
| "cdepth (CObject t d fs) = foldr max (map (\<lambda>f. Suc (cdepth (snd f))) fs) 0"

lemma sort_key_map:
  assumes "\<And>x. f (g x) = k x"
  shows "sort_key f (map g xs) = map g (sort_key k xs)"
proof (induction xs)
  case (Cons x xs)
  have "insort_key f (g x) (map g ys) = map g (insort_key k x ys)" for ys
    by (induction ys) (simp_all add: assms)
  with Cons show ?case by simp
qed simp

lemma sort_key_idem [simp]: "sort_key f (sort_key f xs) = sort_key f xs"
  by (rule sort_key_id_if_sorted) simp

lemma get_n_those:
  assumes "\<And>x r. x \<in> set xs \<Longrightarrow> g (p x @ r) = map_option (\<lambda>y. (y, r)) (q x)"
  shows "get_n g (length xs) (concat (map p xs) @ r) = map_option (\<lambda>ys. (ys, r)) (those (map q xs))"
  using assms
proof (induction xs)
  case (Cons x xs)
  then show ?case
    by (cases "q x"; cases "those (map q xs)") (auto simp: Cons.prems)
qed simp

lemma those_Some: "(\<And>x. x \<in> set xs \<Longrightarrow> q x = Some (h x)) \<Longrightarrow> those (map q xs) = Some (map h xs)"
  by (induction xs) auto

lemma those_None: "x \<in> set xs \<Longrightarrow> q x = None \<Longrightarrow> those (map q xs) = None"
  by (induction xs) (auto split: option.splits)

lemma foldr_max_le: "foldr max xs 0 \<le> n \<longleftrightarrow> (\<forall>x \<in> set xs. x \<le> (n :: nat))"
  by (induction xs) auto

lemma get_header_put [codec_simps]:
  "fits (hlc_encode t) \<Longrightarrow> get_header (put_header k d t @ r) = Some ((k, d, t), r)"
  by (simp add: get_header_def put_header_def codec_simps)

lemmas get_header_put_end [codec_simps] = get_header_put [where r = "[]", simplified]

lemma get_elem_put:
  assumes "fits tag" "fits (crdt_encode v)"
  shows "get_elem dec ((put_bytes tag @ put_bool d @ put_bytes (crdt_encode v)) @ r) =
         map_option (\<lambda>w. ((tag, w, d), r)) (dec (crdt_encode v))"
  using assms by (cases "dec (crdt_encode v)") (simp_all add: get_elem_def codec_simps)

lemma get_field_put:
  assumes "fits k" "fits (crdt_encode v)"
  shows "get_field dec ((put_bytes k @ put_bytes (crdt_encode v)) @ r) =
         map_option (\<lambda>w. ((k, w), r)) (dec (crdt_encode v))"
  using assms by (cases "dec (crdt_encode v)") (simp_all add: get_field_def codec_simps)

lemma decode_at_array:
  assumes fit: "crdt_fits (CArray t d es)" and depth: "depth \<le> kMaxDecodeDepth"
  shows "decode_at depth (crdt_encode (CArray t d es)) =
    map_option (CArray t d)
      (those (map (\<lambda>e. map_option (\<lambda>w. (fst e, w, snd (snd e)))
         (decode_at (Suc depth) (crdt_encode (fst (snd e))))) (sort_key fst es)))"
proof -
  let ?dec = "decode_at (Suc depth)"
  let ?p = "\<lambda>e. put_bytes (fst e) @ put_bool (snd (snd e)) @ put_bytes (crdt_encode (fst (snd e)))"
  let ?q = "\<lambda>e. map_option (\<lambda>w. (fst e, w, snd (snd e))) (?dec (crdt_encode (fst (snd e))))"
  have "get_n (get_elem ?dec) (length (sort_key fst es)) (concat (map ?p (sort_key fst es)) @ []) =
        map_option (\<lambda>ys. (ys, [])) (those (map ?q (sort_key fst es)))"
    by (rule get_n_those)
      (use fit in \<open>auto simp: get_elem_put list_all_iff option.map_comp comp_def simp del: append_assoc\<close>)
  then show ?thesis
    using fit depth
    by (subst decode_at.simps, cases "those (map ?q (sort_key fst es))")
      (simp_all add: codec_simps unat_of_nat_u32)
qed

lemma decode_at_object:
  assumes fit: "crdt_fits (CObject t d fs)" and depth: "depth \<le> kMaxDecodeDepth"
  shows "decode_at depth (crdt_encode (CObject t d fs)) =
    map_option (CObject t d)
      (those (map (\<lambda>f. map_option (\<lambda>w. (fst f, w))
         (decode_at (Suc depth) (crdt_encode (snd f)))) (sort_key fst fs)))"
proof -
  let ?dec = "decode_at (Suc depth)"
  let ?p = "\<lambda>f. put_bytes (fst f) @ put_bytes (crdt_encode (snd f))"
  let ?q = "\<lambda>f. map_option (\<lambda>w. (fst f, w)) (?dec (crdt_encode (snd f)))"
  have "get_n (get_field ?dec) (length (sort_key fst fs)) (concat (map ?p (sort_key fst fs)) @ []) =
        map_option (\<lambda>ys. (ys, [])) (those (map ?q (sort_key fst fs)))"
    by (rule get_n_those)
      (use fit in \<open>auto simp: get_field_put list_all_iff option.map_comp comp_def simp del: append_assoc\<close>)
  then show ?thesis
    using fit depth
    by (subst decode_at.simps, cases "those (map ?q (sort_key fst fs))")
      (simp_all add: codec_simps unat_of_nat_u32)
qed

lemma decode_at_scalar:
  "fits (hlc_encode t) \<Longrightarrow> scalar_fits s \<Longrightarrow> depth \<le> kMaxDecodeDepth \<Longrightarrow>
   decode_at depth (crdt_encode (CScalar t d s)) = Some (CScalar t d s)"
  by (subst decode_at.simps, cases s) (simp_all add: codec_simps)

lemma those_bounded:
  assumes "\<And>x. x \<in> set xs \<Longrightarrow> q x = (if c x \<le> n then Some (h x) else None)"
  shows "those (map q xs) = (if \<forall>x \<in> set xs. c x \<le> (n :: nat) then Some (map h xs) else None)"
  using assms by (induction xs) auto

lemma depth_bound:
  assumes "depth \<le> n"
  shows "(\<forall>x \<in> set xs. Suc depth + c x \<le> n) \<longleftrightarrow> depth + foldr max (map (\<lambda>x. Suc (c x)) xs) 0 \<le> n"
proof -
  have "depth + foldr max (map (\<lambda>x. Suc (c x)) xs) 0 \<le> n \<longleftrightarrow>
        foldr max (map (\<lambda>x. Suc (c x)) xs) 0 \<le> n - depth"
    using assms by linarith
  also have "\<dots> \<longleftrightarrow> (\<forall>x \<in> set xs. Suc depth + c x \<le> n)"
    using assms by (auto simp: foldr_max_le)
  finally show ?thesis by simp
qed

lemma decode_too_deep: "\<not> depth \<le> kMaxDecodeDepth \<Longrightarrow> decode_at depth bs = None"
  by (simp add: decode_at.simps)

lemma decode_encode:
  "crdt_fits v \<Longrightarrow>
   decode_at depth (crdt_encode v) = (if depth + cdepth v \<le> kMaxDecodeDepth then Some (canon v) else None)"
proof (induction v arbitrary: depth rule: crdt_encode.induct)
  case (1 t d s)
  then show ?case
    by (cases "depth \<le> kMaxDecodeDepth")
      (simp_all add: decode_at_scalar decode_too_deep del: crdt_encode.simps)
next
  case (2 t d es)
  show ?case
  proof (cases "depth \<le> kMaxDecodeDepth")
    case True
    let ?q = "\<lambda>e. map_option (\<lambda>w. (fst e, w, snd (snd e)))
      (decode_at (Suc depth) (crdt_encode (fst (snd e))))"
    have q: "?q e = (if Suc depth + cdepth (fst (snd e)) \<le> kMaxDecodeDepth
        then Some (fst e, canon (fst (snd e)), snd (snd e)) else None)" if "e \<in> set (sort_key fst es)" for e
      using 2(1) [OF that, of "Suc depth"] 2(2) that by (auto simp: list_all_iff)
    have "those (map ?q (sort_key fst es)) =
      (if depth + cdepth (CArray t d es) \<le> kMaxDecodeDepth
       then Some (map (\<lambda>e. (fst e, canon (fst (snd e)), snd (snd e))) (sort_key fst es)) else None)"
      using those_bounded [of "sort_key fst es" ?q, OF q]
        depth_bound [OF True, of es "\<lambda>e. cdepth (fst (snd e))"] by simp
    then show ?thesis
      using decode_at_array [OF 2(2) True] by (simp add: sort_key_map del: crdt_encode.simps)
  qed (simp add: decode_too_deep)
next
  case (3 t d fs)
  show ?case
  proof (cases "depth \<le> kMaxDecodeDepth")
    case True
    let ?q = "\<lambda>f. map_option (\<lambda>w. (fst f, w)) (decode_at (Suc depth) (crdt_encode (snd f)))"
    have q: "?q f = (if Suc depth + cdepth (snd f) \<le> kMaxDecodeDepth
        then Some (fst f, canon (snd f)) else None)" if "f \<in> set (sort_key fst fs)" for f
      using 3(1) [OF that, of "Suc depth"] 3(2) that by (auto simp: list_all_iff)
    have "those (map ?q (sort_key fst fs)) =
      (if depth + cdepth (CObject t d fs) \<le> kMaxDecodeDepth
       then Some (map (\<lambda>f. (fst f, canon (snd f))) (sort_key fst fs)) else None)"
      using those_bounded [of "sort_key fst fs" ?q, OF q]
        depth_bound [OF True, of fs "\<lambda>f. cdepth (snd f)"] by simp
    then show ?thesis
      using decode_at_object [OF 3(2) True] by (simp add: sort_key_map del: crdt_encode.simps)
  qed (simp add: decode_too_deep)
qed

lemma encode_canon: "crdt_encode (canon v) = crdt_encode v"
proof (induction v rule: crdt_encode.induct)
  case (2 t d es)
  have "crdt_encode (canon (CArray t d es)) =
    put_header 5 d t @ put_u32 (of_nat (length es)) @
    concat (map (\<lambda>e. put_bytes (fst e) @ put_bool (snd (snd e)) @
      put_bytes (crdt_encode (canon (fst (snd e))))) (sort_key fst es))"
    by (simp add: sort_key_map comp_def)
  also have "\<dots> = crdt_encode (CArray t d es)"
    using 2 by (auto intro!: arg_cong [where f = concat] map_cong)
  finally show ?case .
next
  case (3 t d fs)
  have "crdt_encode (canon (CObject t d fs)) =
    put_header 6 d t @ put_u32 (of_nat (length fs)) @
    concat (map (\<lambda>f. put_bytes (fst f) @ put_bytes (crdt_encode (canon (snd f)))) (sort_key fst fs))"
    by (simp add: sort_key_map comp_def)
  also have "\<dots> = crdt_encode (CObject t d fs)"
    using 3 by (auto intro!: arg_cong [where f = concat] map_cong)
  finally show ?case .
qed simp

lemma canon_deliver:
  "wf_crdt x \<Longrightarrow> list_all wf_crdt xs \<Longrightarrow>
   canon (foldl Merge x xs) = foldl Merge (canon x) (map canon xs)"
  by (induction xs arbitrary: x) (simp_all add: wf_merge merge_canon)

section \<open>Properties\<close>

text \<open>
  C14: encoding and decoding. For every document within the format's size limits, decoding its
  encoding returns the document in canonical order if it is nested at most 64 deep, and fails
  otherwise. The encoder has no depth check of its own, so a deeper document can be written but
  not read back.
\<close>

theorem crdt_codec_round_trip:
  assumes "crdt_fits v"
  shows "crdt_decode (crdt_encode v) = (if cdepth v \<le> kMaxDecodeDepth then Some (canon v) else None)"
  using decode_encode [OF assms, of 0] by (simp add: crdt_decode_def)

theorem crdt_codec_round_trip_witness:
  "crdt_fits (ex_object 1 [98] 5) \<and> cdepth (ex_object 1 [98] 5) \<le> kMaxDecodeDepth \<and>
   crdt_decode (crdt_encode (ex_object 1 [98] 5)) = Some (ex_object 1 [98] 5)"
proof -
  have "crdt_fits (ex_object 1 [98] 5)" "cdepth (ex_object 1 [98] 5) \<le> kMaxDecodeDepth"
    "canon (ex_object 1 [98] 5) = ex_object 1 [98] 5"
    by (simp_all add: ex_object_def fits_def hlc_encode_def i64_ok_def kMaxDecodeDepth_def put_header_def
        sort_key_def)
  then show ?thesis using crdt_codec_round_trip [of "ex_object 1 [98] 5"] by simp
qed

text \<open>
  C3: replicas are byte-identical. Documents of one shape, in whatever field and element order
  local writes left them: two replicas that have merged the same set of them, in any order and
  with any repetitions, encode to the same bytes, so that their content digests agree.
\<close>

theorem replicas_byte_identical:
  assumes "list_all (\<lambda>v. wf_crdt v \<and> conforms s (canon v)) (x # xs)"
    and "list_all (\<lambda>v. wf_crdt v \<and> conforms s (canon v)) (y # ys)"
    and "set (x # xs) = set (y # ys)"
  shows "crdt_encode (foldl Merge x xs) = crdt_encode (foldl Merge y ys)"
proof -
  have "foldl Merge (canon x) (map canon xs) = foldl Merge (canon y) (map canon ys)"
  proof (rule doc.convergence)
    show "set (canon x # map canon xs) = set (canon y # map canon ys)"
      using assms(3) by (metis list.set_map list.simps(9))
  qed (use assms(1,2) in \<open>auto simp: list_all_iff\<close>)
  then have "canon (foldl Merge x xs) = canon (foldl Merge y ys)"
    using assms(1,2) by (simp add: canon_deliver list_all_iff)
  then show ?thesis by (metis encode_canon)
qed

definition ex_pair :: "u64 \<Rightarrow> crdt" where
  "ex_pair t = CObject (HLC t 0 [65]) False
     [([121], CScalar (HLC t 0 [65]) False (SInt (uint t))), ([120], CScalar (HLC t 0 [65]) False (SInt (uint t)))]"

theorem replicas_byte_identical_witness:
  "list_all (\<lambda>v. wf_crdt v \<and> conforms ex_shape (canon v)) [ex_pair 1, ex_pair 2] \<and>
   list_all (\<lambda>v. wf_crdt v \<and> conforms ex_shape (canon v)) [ex_pair 2, ex_pair 1] \<and>
   set [ex_pair 1, ex_pair 2] = set [ex_pair 2, ex_pair 1] \<and>
   crdt_encode (foldl Merge (ex_pair 1) [ex_pair 2]) = crdt_encode (foldl Merge (ex_pair 2) [ex_pair 1])"
proof -
  have "list_all (\<lambda>v. wf_crdt v \<and> conforms ex_shape (canon v)) [ex_pair 1, ex_pair 2]"
    "list_all (\<lambda>v. wf_crdt v \<and> conforms ex_shape (canon v)) [ex_pair 2, ex_pair 1]"
    by (simp_all add: ex_pair_def ex_shape_def)
  moreover have "set [ex_pair 1, ex_pair 2] = set [ex_pair 2, ex_pair 1]" by auto
  ultimately show ?thesis using replicas_byte_identical by blast
qed

end
