(* ===== verification/Wire.thy ===== *)
theory Wire
  imports ByteBuffer
begin

text \<open>
  \<^verbatim>\<open>include/desentry/net/wire_protocol.h\<close> and \<^verbatim>\<open>src/net/wire_protocol.cpp\<close>: the payloads
  peers exchange, the message envelope and the framing over a socket. Each payload is a record
  with its encoder and decoder; decoders fail (\<open>None\<close>) where the source throws. The
  \<^verbatim>\<open>reserve\<close> calls only pre-allocate and are left out. A socket is the sequence of outcomes
  its \<^verbatim>\<open>recv\<close> and \<^verbatim>\<open>send\<close> calls have.
\<close>

lemmas get_opt_put_simps [codec_simps] =
  u8c.get_opt_put [OF TrueI] u64c.get_opt_put [OF TrueI] boolc.get_opt_put [OF TrueI]
  strc.get_opt_put

lemmas get_opt_put_end_simps [codec_simps] =
  u8c.get_opt_put [where r = "[]", OF TrueI, simplified]
  u64c.get_opt_put [where r = "[]", OF TrueI, simplified]
  boolc.get_opt_put [where r = "[]", OF TrueI, simplified]
  strc.get_opt_put [where r = "[]", simplified]

lemma get_opt_Nil [codec_simps]: "get_opt g d [] = Some (d, [])"
  by (simp add: get_opt_def)

text \<open>A payload decoder reads from the start and ignores what it leaves unread.\<close>

definition run_reader :: "'a reader \<Rightarrow> bytes \<Rightarrow> 'a option" where
  "run_reader g bs = map_option fst (g bs)"

section \<open>Handshake\<close>

record HelloPayload =
  hello_node_id :: bytes
  ed25519_pubkey :: bytes
  x25519_ephemeral_pubkey :: bytes
  hello_signature :: bytes
  p2p_port :: u16
  membership_tag :: bytes

definition Hello_Encode :: "HelloPayload \<Rightarrow> bytes" where
  "Hello_Encode h =
     put_bytes (hello_node_id h) @ put_bytes (ed25519_pubkey h) @
     put_bytes (x25519_ephemeral_pubkey h) @ put_bytes (hello_signature h) @
     put_u16 (p2p_port h) @ put_bytes (membership_tag h)"

definition Hello_Decode :: "bytes \<Rightarrow> HelloPayload option" where
  "Hello_Decode = run_reader (\<lambda>bs. do {
     (a, bs) \<leftarrow> get_bytes bs;
     (b, bs) \<leftarrow> get_bytes bs;
     (c, bs) \<leftarrow> get_bytes bs;
     (d, bs) \<leftarrow> get_bytes bs;
     (e, bs) \<leftarrow> get_u16 bs;
     (f, bs) \<leftarrow> get_opt get_bytes [] bs;
     Some (\<lparr>hello_node_id = a, ed25519_pubkey = b, x25519_ephemeral_pubkey = c,
            hello_signature = d, p2p_port = e, membership_tag = f\<rparr>, bs) })"

definition Confirm_Encode :: "bytes \<Rightarrow> bytes" where
  "Confirm_Encode transcript_signature = put_bytes transcript_signature"

definition Confirm_Decode :: "bytes \<Rightarrow> bytes option" where
  "Confirm_Decode = run_reader get_bytes"

definition TranscriptMessage :: "bytes \<Rightarrow> bytes \<Rightarrow> bytes" where
  "TranscriptMessage client_hello server_hello =
     bytes_of ''DSN-HS-v2'' @ [0] @ put_bytes client_hello @ put_bytes server_hello"

definition MembershipHelloMessage :: "bytes \<Rightarrow> bytes" where
  "MembershipHelloMessage ephemeral_pubkey = bytes_of ''DSN-MEMBER-HELLO-v1'' @ ephemeral_pubkey"

definition MembershipBeaconMessage :: "bytes \<Rightarrow> bytes \<Rightarrow> u16 \<Rightarrow> bytes" where
  "MembershipBeaconMessage nid pubkey port =
     bytes_of ''DSN-MEMBER-DISCO-v1'' @ nid @ [0] @ pubkey @
     [ucast (drop_bit 8 port AND 0xFF), ucast (port AND 0xFF)]"

section \<open>Gossip\<close>

record DigestEntry =
  dg_key :: bytes
  top_ts_encoded :: bytes
  dg_content_hash :: bytes

definition put_digest_entry :: "DigestEntry \<Rightarrow> bytes" where
  "put_digest_entry e =
     put_bytes (dg_key e) @ put_bytes (top_ts_encoded e) @ put_bytes (dg_content_hash e)"

definition get_digest_entry :: "DigestEntry reader" where
  "get_digest_entry bs = do {
     (a, bs) \<leftarrow> get_bytes bs;
     (b, bs) \<leftarrow> get_bytes bs;
     (c, bs) \<leftarrow> get_bytes bs;
     Some (\<lparr>dg_key = a, top_ts_encoded = b, dg_content_hash = c\<rparr>, bs) }"

record DigestPayload =
  dg_collection :: bytes
  dg_entries :: "DigestEntry list"

definition Digest_Encode :: "DigestPayload \<Rightarrow> bytes" where
  "Digest_Encode d = put_bytes (dg_collection d) @ put_list put_digest_entry (dg_entries d)"

definition Digest_Decode :: "bytes \<Rightarrow> DigestPayload option" where
  "Digest_Decode = run_reader (\<lambda>bs. do {
     (c, bs) \<leftarrow> get_bytes bs;
     (es, bs) \<leftarrow> get_list get_digest_entry bs;
     Some (\<lparr>dg_collection = c, dg_entries = es\<rparr>, bs) })"

record DocEntry =
  de_key :: bytes
  encoded_doc :: bytes

definition put_doc_entry :: "DocEntry \<Rightarrow> bytes" where
  "put_doc_entry d = put_bytes (de_key d) @ put_bytes (encoded_doc d)"

definition get_doc_entry :: "DocEntry reader" where
  "get_doc_entry bs = do {
     (k, bs) \<leftarrow> get_bytes bs;
     (d, bs) \<leftarrow> get_bytes bs;
     Some (\<lparr>de_key = k, encoded_doc = d\<rparr>, bs) }"

record DeltaResponsePayload =
  dr_collection :: bytes
  pushed :: "DocEntry list"
  wanted_keys :: "bytes list"

definition DeltaResponse_Encode :: "DeltaResponsePayload \<Rightarrow> bytes" where
  "DeltaResponse_Encode d =
     put_bytes (dr_collection d) @ put_list put_doc_entry (pushed d) @
     put_list put_bytes (wanted_keys d)"

definition DeltaResponse_Decode :: "bytes \<Rightarrow> DeltaResponsePayload option" where
  "DeltaResponse_Decode = run_reader (\<lambda>bs. do {
     (c, bs) \<leftarrow> get_bytes bs;
     (ds, bs) \<leftarrow> get_list get_doc_entry bs;
     (ks, bs) \<leftarrow> get_list get_bytes bs;
     Some (\<lparr>dr_collection = c, pushed = ds, wanted_keys = ks\<rparr>, bs) })"

record OpBroadcastPayload =
  op_collection :: bytes
  op_docs :: "DocEntry list"
  op_message_id :: bytes
  op_ttl :: byte

definition OpBroadcast_Encode :: "OpBroadcastPayload \<Rightarrow> bytes" where
  "OpBroadcast_Encode p =
     put_bytes (op_collection p) @ put_list put_doc_entry (op_docs p) @
     put_bytes (op_message_id p) @ put_u8 (op_ttl p)"

text \<open>The v2 fields are optional; the time-to-live is looked for only after a message id.\<close>

definition OpBroadcast_Decode :: "bytes \<Rightarrow> OpBroadcastPayload option" where
  "OpBroadcast_Decode = run_reader (\<lambda>bs. do {
     (c, bs) \<leftarrow> get_bytes bs;
     (ds, bs) \<leftarrow> get_list get_doc_entry bs;
     if bs = [] then
       Some (\<lparr>op_collection = c, op_docs = ds, op_message_id = [], op_ttl = 1\<rparr>, bs)
     else do {
       (m, bs) \<leftarrow> get_bytes bs;
       (t, bs) \<leftarrow> get_opt get_u8 1 bs;
       Some (\<lparr>op_collection = c, op_docs = ds, op_message_id = m, op_ttl = t\<rparr>, bs) } })"

section \<open>Transit and receipts\<close>

definition kTransitResponseMagicV2 :: u32 where
  "kTransitResponseMagicV2 = 0x44545232"

definition kLedgerDeltaMagicV2 :: u32 where
  "kLedgerDeltaMagicV2 = 0x444C4432"

definition HasMagic :: "bytes \<Rightarrow> u32 \<Rightarrow> bool" where
  "HasMagic bs magic = (4 \<le> length bs \<and> le_word (take 4 bs) = magic)"

definition TransitQuery_Encode :: "u64 \<Rightarrow> bytes" where
  "TransitQuery_Encode offset = put_u64 offset"

definition TransitQuery_Decode :: "bytes \<Rightarrow> u64 option" where
  "TransitQuery_Decode bs = (if bs = [] then Some 0 else run_reader get_u64 bs)"

record TransitEntry =
  te_collection :: bytes
  te_key :: bytes
  te_key_hash :: bytes
  te_encoded_doc :: bytes
  te_intent_lsn :: int
  te_holder_node :: bytes
  te_doc_size_bytes :: u64
  te_chunk_index :: u32
  te_chunk_total :: u32
  te_content_hash :: bytes
  te_holder_sig :: bytes

definition put_transit_entry :: "TransitEntry \<Rightarrow> bytes" where
  "put_transit_entry e =
     put_bytes (te_collection e) @ put_bytes (te_key e) @ put_bytes (te_key_hash e) @
     put_bytes (te_encoded_doc e) @ put_i64 (te_intent_lsn e) @ put_bytes (te_holder_node e) @
     put_u64 (te_doc_size_bytes e) @ put_u32 (te_chunk_index e) @ put_u32 (te_chunk_total e) @
     put_bytes (te_content_hash e) @ put_bytes (te_holder_sig e)"

definition get_transit_entry_v1 :: "TransitEntry reader" where
  "get_transit_entry_v1 bs = do {
     (a, bs) \<leftarrow> get_bytes bs;
     (b, bs) \<leftarrow> get_bytes bs;
     (c, bs) \<leftarrow> get_bytes bs;
     (d, bs) \<leftarrow> get_bytes bs;
     (e, bs) \<leftarrow> get_i64 bs;
     (f, bs) \<leftarrow> get_bytes bs;
     Some (\<lparr>te_collection = a, te_key = b, te_key_hash = c, te_encoded_doc = d,
            te_intent_lsn = e, te_holder_node = f, te_doc_size_bytes = 0, te_chunk_index = 0,
            te_chunk_total = 1, te_content_hash = [], te_holder_sig = []\<rparr>, bs) }"

text \<open>A zero chunk total means one; an index not below the total is refused.\<close>

definition chunk_total_of :: "u32 \<Rightarrow> u32" where
  "chunk_total_of n = (if n = 0 then 1 else n)"

definition get_transit_entry :: "TransitEntry reader" where
  "get_transit_entry bs = do {
     (e, bs) \<leftarrow> get_transit_entry_v1 bs;
     (sz, bs) \<leftarrow> get_u64 bs;
     (i, bs) \<leftarrow> get_u32 bs;
     (n, bs) \<leftarrow> get_u32 bs;
     if i \<ge> chunk_total_of n then None
     else do {
       (h, bs) \<leftarrow> get_opt get_bytes [] bs;
       (s, bs) \<leftarrow> get_opt get_bytes [] bs;
       Some (e\<lparr>te_doc_size_bytes := sz, te_chunk_index := i, te_chunk_total := chunk_total_of n,
               te_content_hash := h, te_holder_sig := s\<rparr>, bs) } }"

record TransitResponsePayload =
  tr_entries :: "TransitEntry list"
  tr_truncated :: bool
  tr_next_offset :: u64

definition TransitResponse_Encode :: "TransitResponsePayload \<Rightarrow> bytes" where
  "TransitResponse_Encode p =
     put_u32 kTransitResponseMagicV2 @ put_list put_transit_entry (tr_entries p) @
     put_bool (tr_truncated p) @ put_u64 (tr_next_offset p)"

definition TransitResponse_Decode :: "bytes \<Rightarrow> TransitResponsePayload option" where
  "TransitResponse_Decode bs =
     (if \<not> HasMagic bs kTransitResponseMagicV2 then
        run_reader (\<lambda>bs. do {
          (es, bs) \<leftarrow> get_list get_transit_entry_v1 bs;
          (t, bs) \<leftarrow> get_opt get_bool False bs;
          Some (\<lparr>tr_entries = es, tr_truncated = t, tr_next_offset = 0\<rparr>, bs) }) bs
      else
        run_reader (\<lambda>bs. do {
          (_, bs) \<leftarrow> get_u32 bs;
          (es, bs) \<leftarrow> get_list get_transit_entry bs;
          (t, bs) \<leftarrow> get_opt get_bool False bs;
          (off, bs) \<leftarrow> get_opt get_u64 0 bs;
          Some (\<lparr>tr_entries = es, tr_truncated = t, tr_next_offset = off\<rparr>, bs) }) bs)"

record TransitClaimPayload =
  key_hashes :: "bytes list"
  claimer_node :: bytes

definition TransitClaim_Encode :: "TransitClaimPayload \<Rightarrow> bytes" where
  "TransitClaim_Encode p = put_bytes (claimer_node p) @ put_list put_bytes (key_hashes p)"

definition TransitClaim_Decode :: "bytes \<Rightarrow> TransitClaimPayload option" where
  "TransitClaim_Decode = run_reader (\<lambda>bs. do {
     (n, bs) \<leftarrow> get_bytes bs;
     (hs, bs) \<leftarrow> get_list get_bytes bs;
     Some (\<lparr>key_hashes = hs, claimer_node = n\<rparr>, bs) })"

record TransitHeldPayload =
  th_message_id :: bytes
  th_key_hash :: bytes
  th_holder_node :: bytes
  th_intent_lsn :: int
  th_signature :: bytes

definition TransitHeld_Encode :: "TransitHeldPayload \<Rightarrow> bytes" where
  "TransitHeld_Encode p =
     put_bytes (th_message_id p) @ put_bytes (th_key_hash p) @ put_bytes (th_holder_node p) @
     put_i64 (th_intent_lsn p) @ put_bytes (th_signature p)"

definition TransitHeld_Decode :: "bytes \<Rightarrow> TransitHeldPayload option" where
  "TransitHeld_Decode = run_reader (\<lambda>bs. do {
     (a, bs) \<leftarrow> get_bytes bs;
     (b, bs) \<leftarrow> get_bytes bs;
     (c, bs) \<leftarrow> get_bytes bs;
     (d, bs) \<leftarrow> get_i64 bs;
     (e, bs) \<leftarrow> get_bytes bs;
     Some (\<lparr>th_message_id = a, th_key_hash = b, th_holder_node = c, th_intent_lsn = d,
            th_signature = e\<rparr>, bs) })"

record MergeReceipt =
  mr_message_id :: bytes
  mr_key_hash :: bytes
  applier_node :: bytes
  applied_lsn :: int
  mr_signature :: bytes

definition MergeReceipt_Encode :: "MergeReceipt \<Rightarrow> bytes" where
  "MergeReceipt_Encode p =
     put_bytes (mr_message_id p) @ put_bytes (mr_key_hash p) @ put_bytes (applier_node p) @
     put_i64 (applied_lsn p) @ put_bytes (mr_signature p)"

definition MergeReceipt_Decode :: "bytes \<Rightarrow> MergeReceipt option" where
  "MergeReceipt_Decode = run_reader (\<lambda>bs. do {
     (a, bs) \<leftarrow> get_bytes bs;
     (b, bs) \<leftarrow> get_bytes bs;
     (c, bs) \<leftarrow> get_bytes bs;
     (d, bs) \<leftarrow> get_i64 bs;
     (e, bs) \<leftarrow> get_bytes bs;
     Some (\<lparr>mr_message_id = a, mr_key_hash = b, applier_node = c, applied_lsn = d,
            mr_signature = e\<rparr>, bs) })"

section \<open>Ledger convergence, heartbeats and summaries\<close>

record LedgerDigestPayload =
  tip_entry_id :: int
  tip_entry_hash :: bytes
  ld_tip_signature :: bytes
  from_entry_id :: int
  entry_hashes :: "bytes list"

definition LedgerDigest_Encode :: "LedgerDigestPayload \<Rightarrow> bytes" where
  "LedgerDigest_Encode p =
     put_i64 (tip_entry_id p) @ put_bytes (tip_entry_hash p) @ put_bytes (ld_tip_signature p) @
     put_i64 (from_entry_id p) @ put_list put_bytes (entry_hashes p)"

definition LedgerDigest_Decode :: "bytes \<Rightarrow> LedgerDigestPayload option" where
  "LedgerDigest_Decode = run_reader (\<lambda>bs. do {
     (a, bs) \<leftarrow> get_i64 bs;
     (b, bs) \<leftarrow> get_bytes bs;
     (c, bs) \<leftarrow> get_bytes bs;
     (d, bs) \<leftarrow> get_i64 bs;
     (hs, bs) \<leftarrow> get_list get_bytes bs;
     Some (\<lparr>tip_entry_id = a, tip_entry_hash = b, ld_tip_signature = c, from_entry_id = d,
            entry_hashes = hs\<rparr>, bs) })"

record LedgerEntrySummary =
  le_entry_id :: int
  le_operation :: byte
  le_key_hash :: bytes
  le_entry_hash :: bytes
  le_prev_hash :: bytes
  le_origin_node_id :: bytes
  le_origin_signature :: bytes
  le_hlc_physical_ms :: int
  le_hlc_logical :: u32
  le_collection :: bytes
  le_key :: bytes
  le_transit_holder :: bytes
  le_transit_size_bytes :: u64
  le_transit_chunk_index :: u32
  le_transit_chunk_total :: u32
  le_acl_json :: bytes

definition put_ledger_entry :: "LedgerEntrySummary \<Rightarrow> bytes" where
  "put_ledger_entry e =
     put_i64 (le_entry_id e) @ put_u8 (le_operation e) @ put_bytes (le_key_hash e) @
     put_bytes (le_entry_hash e) @ put_bytes (le_prev_hash e) @ put_bytes (le_origin_node_id e) @
     put_bytes (le_origin_signature e) @ put_i64 (le_hlc_physical_ms e) @
     put_u32 (le_hlc_logical e) @ put_bytes (le_collection e) @ put_bytes (le_key e) @
     put_bytes (le_transit_holder e) @ put_u64 (le_transit_size_bytes e) @
     put_u32 (le_transit_chunk_index e) @ put_u32 (le_transit_chunk_total e) @
     put_bytes (le_acl_json e)"

definition DecodeLedgerEntryV1 :: "LedgerEntrySummary reader" where
  "DecodeLedgerEntryV1 bs = do {
     (a, bs) \<leftarrow> get_i64 bs;
     (b, bs) \<leftarrow> get_u8 bs;
     (c, bs) \<leftarrow> get_bytes bs;
     (d, bs) \<leftarrow> get_bytes bs;
     (e, bs) \<leftarrow> get_bytes bs;
     (f, bs) \<leftarrow> get_bytes bs;
     (g, bs) \<leftarrow> get_bytes bs;
     (h, bs) \<leftarrow> get_i64 bs;
     (i, bs) \<leftarrow> get_u32 bs;
     (j, bs) \<leftarrow> get_bytes bs;
     (k, bs) \<leftarrow> get_bytes bs;
     Some (\<lparr>le_entry_id = a, le_operation = b, le_key_hash = c, le_entry_hash = d,
            le_prev_hash = e, le_origin_node_id = f, le_origin_signature = g,
            le_hlc_physical_ms = h, le_hlc_logical = i, le_collection = j, le_key = k,
            le_transit_holder = [], le_transit_size_bytes = 0, le_transit_chunk_index = 0,
            le_transit_chunk_total = 1, le_acl_json = []\<rparr>, bs) }"

definition get_ledger_entry :: "LedgerEntrySummary reader" where
  "get_ledger_entry bs = do {
     (e, bs) \<leftarrow> DecodeLedgerEntryV1 bs;
     (h, bs) \<leftarrow> get_bytes bs;
     (sz, bs) \<leftarrow> get_u64 bs;
     (i, bs) \<leftarrow> get_u32 bs;
     (n, bs) \<leftarrow> get_u32 bs;
     if i \<ge> chunk_total_of n then None
     else do {
       (acl, bs) \<leftarrow> get_opt get_bytes [] bs;
       Some (e\<lparr>le_transit_holder := h, le_transit_size_bytes := sz, le_transit_chunk_index := i,
               le_transit_chunk_total := chunk_total_of n, le_acl_json := acl\<rparr>, bs) } }"

record LedgerDeltaPayload =
  ldp_entries :: "LedgerEntrySummary list"
  hashes_only :: bool
  ldp_tip_signature :: bytes

definition LedgerDelta_Encode :: "LedgerDeltaPayload \<Rightarrow> bytes" where
  "LedgerDelta_Encode p =
     put_u32 kLedgerDeltaMagicV2 @ put_bool (hashes_only p) @
     put_list put_ledger_entry (ldp_entries p) @ put_bytes (ldp_tip_signature p)"

definition LedgerDelta_Decode :: "bytes \<Rightarrow> LedgerDeltaPayload option" where
  "LedgerDelta_Decode bs =
     (if \<not> HasMagic bs kLedgerDeltaMagicV2 then
        run_reader (\<lambda>bs. do {
          (o1, bs) \<leftarrow> get_bool bs;
          (es, bs) \<leftarrow> get_list DecodeLedgerEntryV1 bs;
          Some (\<lparr>ldp_entries = es, hashes_only = o1, ldp_tip_signature = []\<rparr>, bs) }) bs
      else
        run_reader (\<lambda>bs. do {
          (_, bs) \<leftarrow> get_u32 bs;
          (o1, bs) \<leftarrow> get_bool bs;
          (es, bs) \<leftarrow> get_list get_ledger_entry bs;
          (s, bs) \<leftarrow> get_opt get_bytes [] bs;
          Some (\<lparr>ldp_entries = es, hashes_only = o1, ldp_tip_signature = s\<rparr>, bs) }) bs)"

record HeartbeatPayload =
  hb_node_id :: bytes
  ledger_tip_entry_id :: int
  free_quota_mb :: u64
  quota_limited :: bool
  transit_bytes_held :: u64
  transit_budget_bytes :: u64
  lifecycle_state :: byte
  is_supervisor :: bool

definition Heartbeat_Encode :: "HeartbeatPayload \<Rightarrow> bytes" where
  "Heartbeat_Encode h =
     put_bytes (hb_node_id h) @ put_i64 (ledger_tip_entry_id h) @ put_u64 (free_quota_mb h) @
     put_bool (quota_limited h) @ put_u64 (transit_bytes_held h) @
     put_u64 (transit_budget_bytes h) @ put_u8 (lifecycle_state h) @ put_bool (is_supervisor h)"

definition Heartbeat_Decode :: "bytes \<Rightarrow> HeartbeatPayload option" where
  "Heartbeat_Decode = run_reader (\<lambda>bs. do {
     (a, bs) \<leftarrow> get_bytes bs;
     (b, bs) \<leftarrow> get_i64 bs;
     (c, bs) \<leftarrow> get_u64 bs;
     (d, bs) \<leftarrow> get_opt get_bool False bs;
     (e, bs) \<leftarrow> get_opt get_u64 0 bs;
     (f, bs) \<leftarrow> get_opt get_u64 0 bs;
     (g, bs) \<leftarrow> get_opt get_u8 3 bs;
     (h, bs) \<leftarrow> get_opt get_bool False bs;
     Some (\<lparr>hb_node_id = a, ledger_tip_entry_id = b, free_quota_mb = c, quota_limited = d,
            transit_bytes_held = e, transit_budget_bytes = f, lifecycle_state = g,
            is_supervisor = h\<rparr>, bs) })"

definition put_pair :: "bytes \<times> bytes \<Rightarrow> bytes" where
  "put_pair p = put_bytes (fst p) @ put_bytes (snd p)"

definition get_pair :: "(bytes \<times> bytes) reader" where
  "get_pair bs = do { (a, bs) \<leftarrow> get_bytes bs; (b, bs) \<leftarrow> get_bytes bs; Some ((a, b), bs) }"

definition SyncSummary_Encode :: "(bytes \<times> bytes) list \<Rightarrow> bytes" where
  "SyncSummary_Encode collections = put_list put_pair collections"

definition SyncSummary_Decode :: "bytes \<Rightarrow> (bytes \<times> bytes) list option" where
  "SyncSummary_Decode bs = do {
     (n, bs) \<leftarrow> get_u32 bs;
     if n > 1024 then None
     else do {
       (cs, bs) \<leftarrow> get_n get_pair (unat n) bs;
       if bs \<noteq> [] then None else Some cs } }"

section \<open>Envelope and framing\<close>

text \<open>
  The type byte of a message is kept as received: the source casts any byte to the enumeration
  and the dispatcher answers unknown ones with an error.
\<close>

record WireMessage =
  wm_type :: byte
  wm_payload :: bytes

definition EncodeMessage :: "WireMessage \<Rightarrow> bytes" where
  "EncodeMessage m = put_u8 (wm_type m) @ put_raw (wm_payload m)"

definition DecodeMessage :: "bytes \<Rightarrow> WireMessage status_or" where
  "DecodeMessage bs =
     (case bs of [] \<Rightarrow> Inl kInvalidArgument | t # r \<Rightarrow> Inr \<lparr>wm_type = t, wm_payload = r\<rparr>)"

text \<open>
  The outcomes of the \<^verbatim>\<open>recv\<close> calls on a socket, in order: a run of bytes that has arrived
  (a call takes as much of it as it asked for), an interrupted call to be retried, the end of the
  connection, or an error.
\<close>

datatype recv_event = Arrived bytes | Interrupted | Closed | Failed

fun stream_size :: "recv_event list \<Rightarrow> nat" where
  "stream_size [] = 0"
| "stream_size (Arrived d # es) = Suc (length d) + stream_size es"
| "stream_size (_ # es) = Suc (stream_size es)"

text \<open>
  One receive loop: read until \<open>n\<close> bytes are in, asking for at most \<open>cap\<close> at a time. A stream
  that ends behaves as a closed connection; an empty run of arrived bytes is what a closed
  connection returns.
\<close>

function recv_n :: "nat \<Rightarrow> nat \<Rightarrow> bytes \<Rightarrow> recv_event list \<Rightarrow> (bytes \<times> recv_event list) status_or" where
  "recv_n cap n acc es =
     (if length acc \<ge> n then Inr (acc, es)
      else case es of
        Arrived d # es' \<Rightarrow>
          (let want = min cap (n - length acc)
           in if d = [] \<or> want = 0 then Inl kNetworkError
              else if length d \<le> want then recv_n cap n (acc @ d) es'
              else recv_n cap n (acc @ take want d) (Arrived (drop want d) # es'))
      | Interrupted # es' \<Rightarrow> recv_n cap n acc es'
      | _ \<Rightarrow> Inl kNetworkError)"
  by pat_completeness auto

termination
  by (relation "measure (\<lambda>(cap, n, acc, es). stream_size es)") auto

declare recv_n.simps [simp del]

definition htonl_bytes :: "nat \<Rightarrow> bytes" where
  "htonl_bytes n = rev (le_bytes 4 (of_nat n :: u32))"

definition WriteFrame_bytes :: "bytes \<Rightarrow> bytes" where
  "WriteFrame_bytes bs = htonl_bytes (length bs) @ bs"

definition ReadFrame :: "nat \<Rightarrow> recv_event list \<Rightarrow> (bytes \<times> recv_event list) status_or" where
  "ReadFrame max_len es =
     (case recv_n 4 4 [] es of
        Inl e \<Rightarrow> Inl e
      | Inr (len_be, es) \<Rightarrow>
          let len = unat (le_word (rev len_be) :: u32)
          in if len > max_len then Inl kInvalidArgument else recv_n 65536 len [] es)"

text \<open>
  \<^verbatim>\<open>WriteFrame\<close>'s send loop: each \<^verbatim>\<open>send\<close> reports how many bytes it took (\<open>Some k\<close>, with
  \<open>k\<close> at most what was offered), asks for a retry, or fails. The result is the bytes handed to
  the kernel and whether the call succeeded; running out of outcomes is a failure.
\<close>

datatype send_event = Sent nat | SendRetry | SendFailed

fun send_all :: "bytes \<Rightarrow> send_event list \<Rightarrow> bytes \<times> bool" where
  "send_all [] es = ([], True)"
| "send_all frame (Sent k # es) =
     (if k = 0 then ([], False)
      else case send_all (drop k frame) es of (out, ok) \<Rightarrow> (take k frame @ out, ok))"
| "send_all frame (SendRetry # es) = send_all frame es"
| "send_all frame _ = ([], False)"

definition WriteFrame :: "bytes \<Rightarrow> send_event list \<Rightarrow> bytes \<times> bool" where
  "WriteFrame bs es = send_all (WriteFrame_bytes bs) es"

section \<open>Round trips\<close>

definition hello_ok :: "HelloPayload \<Rightarrow> bool" where
  "hello_ok h = (fits (hello_node_id h) \<and> fits (ed25519_pubkey h) \<and>
     fits (x25519_ephemeral_pubkey h) \<and> fits (hello_signature h) \<and> fits (membership_tag h))"

definition digest_entry_ok :: "DigestEntry \<Rightarrow> bool" where
  "digest_entry_ok e = (fits (dg_key e) \<and> fits (top_ts_encoded e) \<and> fits (dg_content_hash e))"

definition doc_entry_ok :: "DocEntry \<Rightarrow> bool" where
  "doc_entry_ok d = (fits (de_key d) \<and> fits (encoded_doc d))"

definition transit_entry_ok :: "TransitEntry \<Rightarrow> bool" where
  "transit_entry_ok e = (fits (te_collection e) \<and> fits (te_key e) \<and> fits (te_key_hash e) \<and>
     fits (te_encoded_doc e) \<and> i64_ok (te_intent_lsn e) \<and> fits (te_holder_node e) \<and>
     te_chunk_index e < te_chunk_total e \<and> fits (te_content_hash e) \<and> fits (te_holder_sig e))"

definition ledger_entry_ok :: "LedgerEntrySummary \<Rightarrow> bool" where
  "ledger_entry_ok e = (i64_ok (le_entry_id e) \<and> fits (le_key_hash e) \<and> fits (le_entry_hash e) \<and>
     fits (le_prev_hash e) \<and> fits (le_origin_node_id e) \<and> fits (le_origin_signature e) \<and>
     i64_ok (le_hlc_physical_ms e) \<and> fits (le_collection e) \<and> fits (le_key e) \<and>
     fits (le_transit_holder e) \<and> le_transit_chunk_index e < le_transit_chunk_total e \<and>
     fits (le_acl_json e))"

definition pair_ok :: "bytes \<times> bytes \<Rightarrow> bool" where
  "pair_ok p = (fits (fst p) \<and> fits (snd p))"

interpretation digest_entryc: codec put_digest_entry get_digest_entry digest_entry_ok
  by unfold_locales
    (simp add: put_digest_entry_def get_digest_entry_def digest_entry_ok_def codec_simps)

interpretation doc_entryc: codec put_doc_entry get_doc_entry doc_entry_ok
  by unfold_locales (simp add: put_doc_entry_def get_doc_entry_def doc_entry_ok_def codec_simps)

interpretation transit_entryc: codec put_transit_entry get_transit_entry transit_entry_ok
  by unfold_locales
    (auto simp: put_transit_entry_def get_transit_entry_def get_transit_entry_v1_def
      transit_entry_ok_def codec_simps chunk_total_of_def)

interpretation ledger_entryc: codec put_ledger_entry get_ledger_entry ledger_entry_ok
  by unfold_locales
    (auto simp: put_ledger_entry_def get_ledger_entry_def DecodeLedgerEntryV1_def
      ledger_entry_ok_def codec_simps chunk_total_of_def)

interpretation pairc: codec put_pair get_pair pair_ok
  by unfold_locales (simp add: put_pair_def get_pair_def pair_ok_def codec_simps)

lemmas get_list_simps [codec_simps] =
  strc.get_list_put digest_entryc.get_list_put doc_entryc.get_list_put
  transit_entryc.get_list_put ledger_entryc.get_list_put
  strc.get_list_put [where r = "[]", simplified]
  digest_entryc.get_list_put [where r = "[]", simplified]
  doc_entryc.get_list_put [where r = "[]", simplified]

lemma HasMagic_put [simp]: "HasMagic (put_u32 m @ r) m"
  by (simp add: HasMagic_def put_u32_def le_word_le_bytes)

text \<open>The messages of the protocol with their payloads, and the type byte each travels under.\<close>

datatype payload =
    Hello HelloPayload | Digest DigestPayload | DeltaResponse DeltaResponsePayload
  | OpBroadcast OpBroadcastPayload | TransitQuery u64 | TransitResponse TransitResponsePayload
  | TransitClaim TransitClaimPayload | LedgerDigest LedgerDigestPayload
  | LedgerDelta LedgerDeltaPayload | Heartbeat HeartbeatPayload | Receipt MergeReceipt
  | TransitHeld TransitHeldPayload | Confirm bytes | SyncSummary "(bytes \<times> bytes) list"

fun message_type :: "payload \<Rightarrow> byte" where
  "message_type (Hello _) = 1" | "message_type (Digest _) = 2"
| "message_type (DeltaResponse _) = 3" | "message_type (OpBroadcast _) = 4"
| "message_type (TransitQuery _) = 8" | "message_type (TransitResponse _) = 9"
| "message_type (TransitClaim _) = 10" | "message_type (LedgerDigest _) = 11"
| "message_type (LedgerDelta _) = 12" | "message_type (Heartbeat _) = 13"
| "message_type (Receipt _) = 14" | "message_type (TransitHeld _) = 15"
| "message_type (Confirm _) = 16" | "message_type (SyncSummary _) = 17"

fun payload_encode :: "payload \<Rightarrow> bytes" where
  "payload_encode (Hello p) = Hello_Encode p" | "payload_encode (Digest p) = Digest_Encode p"
| "payload_encode (DeltaResponse p) = DeltaResponse_Encode p"
| "payload_encode (OpBroadcast p) = OpBroadcast_Encode p"
| "payload_encode (TransitQuery p) = TransitQuery_Encode p"
| "payload_encode (TransitResponse p) = TransitResponse_Encode p"
| "payload_encode (TransitClaim p) = TransitClaim_Encode p"
| "payload_encode (LedgerDigest p) = LedgerDigest_Encode p"
| "payload_encode (LedgerDelta p) = LedgerDelta_Encode p"
| "payload_encode (Heartbeat p) = Heartbeat_Encode p"
| "payload_encode (Receipt p) = MergeReceipt_Encode p"
| "payload_encode (TransitHeld p) = TransitHeld_Encode p"
| "payload_encode (Confirm p) = Confirm_Encode p"
| "payload_encode (SyncSummary p) = SyncSummary_Encode p"

definition payload_decode :: "byte \<Rightarrow> bytes \<Rightarrow> payload option" where
  "payload_decode t bs =
     (if t = 1 then map_option Hello (Hello_Decode bs)
      else if t = 2 then map_option Digest (Digest_Decode bs)
      else if t = 3 then map_option DeltaResponse (DeltaResponse_Decode bs)
      else if t = 4 then map_option OpBroadcast (OpBroadcast_Decode bs)
      else if t = 8 then map_option TransitQuery (TransitQuery_Decode bs)
      else if t = 9 then map_option TransitResponse (TransitResponse_Decode bs)
      else if t = 10 then map_option TransitClaim (TransitClaim_Decode bs)
      else if t = 11 then map_option LedgerDigest (LedgerDigest_Decode bs)
      else if t = 12 then map_option LedgerDelta (LedgerDelta_Decode bs)
      else if t = 13 then map_option Heartbeat (Heartbeat_Decode bs)
      else if t = 14 then map_option Receipt (MergeReceipt_Decode bs)
      else if t = 15 then map_option TransitHeld (TransitHeld_Decode bs)
      else if t = 16 then map_option Confirm (Confirm_Decode bs)
      else if t = 17 then map_option SyncSummary (SyncSummary_Decode bs)
      else None)"

fun payload_ok :: "payload \<Rightarrow> bool" where
  "payload_ok (Hello p) = hello_ok p"
| "payload_ok (Digest p) = (fits (dg_collection p) \<and> list_ok digest_entry_ok (dg_entries p))"
| "payload_ok (DeltaResponse p) =
     (fits (dr_collection p) \<and> list_ok doc_entry_ok (pushed p) \<and> list_ok fits (wanted_keys p))"
| "payload_ok (OpBroadcast p) =
     (fits (op_collection p) \<and> list_ok doc_entry_ok (op_docs p) \<and> fits (op_message_id p))"
| "payload_ok (TransitQuery p) = True"
| "payload_ok (TransitResponse p) = list_ok transit_entry_ok (tr_entries p)"
| "payload_ok (TransitClaim p) = (fits (claimer_node p) \<and> list_ok fits (key_hashes p))"
| "payload_ok (LedgerDigest p) =
     (i64_ok (tip_entry_id p) \<and> fits (tip_entry_hash p) \<and> fits (ld_tip_signature p) \<and>
      i64_ok (from_entry_id p) \<and> list_ok fits (entry_hashes p))"
| "payload_ok (LedgerDelta p) =
     (list_ok ledger_entry_ok (ldp_entries p) \<and> fits (ldp_tip_signature p))"
| "payload_ok (Heartbeat p) = (fits (hb_node_id p) \<and> i64_ok (ledger_tip_entry_id p))"
| "payload_ok (Receipt p) =
     (fits (mr_message_id p) \<and> fits (mr_key_hash p) \<and> fits (applier_node p) \<and>
      i64_ok (applied_lsn p) \<and> fits (mr_signature p))"
| "payload_ok (TransitHeld p) =
     (fits (th_message_id p) \<and> fits (th_key_hash p) \<and> fits (th_holder_node p) \<and>
      i64_ok (th_intent_lsn p) \<and> fits (th_signature p))"
| "payload_ok (Confirm p) = fits p"
| "payload_ok (SyncSummary p) = (length p \<le> 1024 \<and> list_all pair_ok p)"

lemmas payload_codec_defs =
  run_reader_def Hello_Encode_def Hello_Decode_def Digest_Encode_def Digest_Decode_def
  DeltaResponse_Encode_def DeltaResponse_Decode_def OpBroadcast_Encode_def OpBroadcast_Decode_def
  TransitQuery_Encode_def TransitQuery_Decode_def TransitResponse_Encode_def
  TransitResponse_Decode_def TransitClaim_Encode_def TransitClaim_Decode_def
  LedgerDigest_Encode_def LedgerDigest_Decode_def LedgerDelta_Encode_def LedgerDelta_Decode_def
  Heartbeat_Encode_def Heartbeat_Decode_def MergeReceipt_Encode_def MergeReceipt_Decode_def
  TransitHeld_Encode_def TransitHeld_Decode_def Confirm_Encode_def Confirm_Decode_def

lemma sync_summary_round_trip:
  assumes "length cs \<le> 1024" "list_all pair_ok cs"
  shows "SyncSummary_Decode (SyncSummary_Encode cs) = Some cs"
proof -
  have n: "unat (of_nat (length cs) :: u32) = length cs"
    using assms(1) by (intro unat_of_nat_u32) simp
  then have "\<not> (of_nat (length cs) :: u32) > 1024"
    using assms(1) by (simp add: word_less_nat_alt)
  then show ?thesis
    using pairc.get_n_put [of cs "[]"] assms(2) n
    by (simp add: SyncSummary_Encode_def SyncSummary_Decode_def put_list_def codec_simps)
qed

lemma payload_round_trip: "payload_ok p \<Longrightarrow> payload_decode (message_type p) (payload_encode p) = Some p"
  by (cases p)
    (simp_all add: payload_decode_def payload_codec_defs hello_ok_def codec_simps sync_summary_round_trip)

section \<open>Framing\<close>

text \<open>A stream that delivers bytes in arbitrary non-empty pieces, with retries in between.\<close>

fun delivering :: "recv_event list \<Rightarrow> bool" where
  "delivering [] = True"
| "delivering (Arrived d # es) = (d \<noteq> [] \<and> delivering es)"
| "delivering (Interrupted # es) = delivering es"
| "delivering (_ # es) = False"

fun stream_data :: "recv_event list \<Rightarrow> bytes" where
  "stream_data [] = []"
| "stream_data (Arrived d # es) = d @ stream_data es"
| "stream_data (_ # es) = stream_data es"

lemma recv_n_delivers:
  assumes "delivering es" "0 < cap" "length acc \<le> n" "n \<le> length acc + length (stream_data es)"
  shows "\<exists>es'. recv_n cap n acc es = Inr (acc @ take (n - length acc) (stream_data es), es') \<and>
           delivering es' \<and> stream_data es' = drop (n - length acc) (stream_data es)"
  using assms
proof (induction cap n acc es rule: recv_n.induct)
  case (1 cap n acc es)
  show ?case
  proof (cases "length acc \<ge> n")
    case True
    with 1 show ?thesis by (simp add: recv_n.simps)
  next
    case False
    then obtain e es2 where es: "es = e # es2" using 1(7) by (cases es) auto
    show ?thesis
    proof (cases e)
      case (Arrived d)
      let ?want = "min cap (n - length acc)"
      have d: "d \<noteq> []" "0 < ?want" using 1(4,5) False es Arrived by auto
      show ?thesis
      proof (cases "length d \<le> ?want")
        case True
        have "\<exists>es'. recv_n cap n (acc @ d) es2 =
            Inr ((acc @ d) @ take (n - length (acc @ d)) (stream_data es2), es') \<and>
            delivering es' \<and> stream_data es' = drop (n - length (acc @ d)) (stream_data es2)"
          by (rule 1(1) [OF False es Arrived refl]) (use 1(4-7) True d es Arrived in auto)
        then show ?thesis
          using False True d es Arrived by (subst recv_n.simps) (auto simp: Let_def)
      next
        case F: False
        have "\<exists>es'. recv_n cap n (acc @ take ?want d) (Arrived (drop ?want d) # es2) =
            Inr ((acc @ take ?want d) @ take (n - length (acc @ take ?want d))
                  (stream_data (Arrived (drop ?want d) # es2)), es') \<and>
            delivering es' \<and> stream_data es' = drop (n - length (acc @ take ?want d))
                  (stream_data (Arrived (drop ?want d) # es2))"
          by (rule 1(2) [OF False es Arrived refl]) (use 1(4-7) F d es Arrived in auto)
        moreover have "take ?want d @ take (n - length acc - ?want) (drop ?want d @ stream_data es2) =
            take (n - length acc) (d @ stream_data es2)"
          using F d by (simp add: min_def take_add [symmetric] split: if_splits)
        ultimately show ?thesis
          using False F d es Arrived by (subst recv_n.simps) (auto simp: Let_def min_def)
      qed
    next
      case Interrupted
      then show ?thesis
        using 1(3) [OF False es Interrupted] 1(4-7) False es by (subst recv_n.simps) auto
    qed (use 1(4) es in auto)
  qed
qed

lemma send_all_prefix:
  "send_all frame es = (out, ok) \<Longrightarrow> \<exists>rest. frame = out @ rest \<and> (ok \<longleftrightarrow> rest = [])"
proof (induction frame es arbitrary: out rule: send_all.induct)
  case (2 b bs k es)
  show ?case
  proof (cases "k = 0")
    case False
    obtain out2 where r: "send_all (drop k (b # bs)) es = (out2, ok)" and out: "out = take k (b # bs) @ out2"
      using 2(2) False by (auto split: prod.splits)
    from 2(1) [OF False r] out show ?thesis by (metis append.assoc append_take_drop_id)
  qed (use 2 in auto)
qed auto

lemma htonl_round_trip:
  "n < 2 ^ 32 \<Longrightarrow> unat (le_word (rev (htonl_bytes n)) :: u32) = n"
  by (simp add: htonl_bytes_def le_word_le_bytes unat_of_nat_u32)

lemma length_htonl [simp]: "length (htonl_bytes n) = 4"
  by (simp add: htonl_bytes_def)

lemma ReadFrame_delivers:
  assumes "length bs < 2 ^ 32" "length bs \<le> max_len"
    and "delivering es" "stream_data es = WriteFrame_bytes bs @ rest"
  shows "\<exists>es'. ReadFrame max_len es = Inr (bs, es') \<and> delivering es' \<and> stream_data es' = rest"
proof -
  have data: "stream_data es = htonl_bytes (length bs) @ bs @ rest"
    using assms(4) by (simp add: WriteFrame_bytes_def)
  obtain es1 where 1: "recv_n 4 4 [] es = Inr (htonl_bytes (length bs), es1)" "delivering es1"
    "stream_data es1 = bs @ rest"
    using recv_n_delivers [OF assms(3), of 4 "[]" 4] by (auto simp: data)
  obtain es2 where 2: "recv_n 65536 (length bs) [] es1 = Inr (bs, es2)" "delivering es2"
    "stream_data es2 = rest"
    using recv_n_delivers [OF 1(2), of 65536 "[]" "length bs"] by (auto simp: 1(3))
  show ?thesis
    using 1(1) 2 assms(1,2) by (simp add: ReadFrame_def htonl_round_trip Let_def)
qed

definition to_message :: "payload \<Rightarrow> WireMessage" where
  "to_message p = \<lparr>wm_type = message_type p, wm_payload = payload_encode p\<rparr>"

section \<open>Properties\<close>



text \<open>
  A frame is sent whole or the call fails. For any outcomes of the \<^verbatim>\<open>send\<close> calls, what
  reached the kernel is a prefix of the frame, and the call reports success exactly when that
  prefix is the whole frame.
\<close>

theorem write_frame_all_or_error:
  "\<exists>rest. WriteFrame_bytes bs = fst (WriteFrame bs es) @ rest \<and> (snd (WriteFrame bs es) \<longleftrightarrow> rest = [])"
  using send_all_prefix [of "WriteFrame_bytes bs" es "fst (WriteFrame bs es)" "snd (WriteFrame bs es)"]
  by (simp add: WriteFrame_def)

text \<open>
  C26: the signed handshake transcript determines both hellos: two different pairs of hello
  messages never give the same bytes to sign.
\<close>

theorem transcript_injective:
  assumes "fits c" "fits s" "fits c'" "fits s'" "TranscriptMessage c s = TranscriptMessage c' s'"
  shows "c = c' \<and> s = s'"
proof -
  have "put_bytes c @ put_bytes s = put_bytes c' @ put_bytes s'"
    using assms(5) by (simp add: TranscriptMessage_def)
  with strc.put_prefix_free [OF assms(1,3)] have "c = c'" "put_bytes s = put_bytes s'" by blast+
  then show ?thesis
    using strc.put_prefix_free [OF assms(2,4), of "[]" "[]"] by simp
qed

theorem transcript_injective_witness:
  "fits [1] \<and> fits [2, 3] \<and> fits [1, 2] \<and> fits [3] \<and>
   TranscriptMessage [1] [2, 3] \<noteq> TranscriptMessage [1, 2] [3]"
proof -
  have "fits [1]" "fits [2, 3]" "fits [1, 2]" "fits [3]" by (simp_all add: fits_def)
  then show ?thesis using transcript_injective [of "[1]" "[2, 3]" "[1, 2]" "[3]"] by auto
qed

text \<open>
  Broadcasts of peers that predate message ids still decode: a payload that ends after the
  documents gets an empty message id and a time-to-live of one.
\<close>

theorem v1_broadcast_decodes:
  assumes "fits c" "list_ok doc_entry_ok ds"
  shows "OpBroadcast_Decode (put_bytes c @ put_list put_doc_entry ds) =
         Some \<lparr>op_collection = c, op_docs = ds, op_message_id = [], op_ttl = 1\<rparr>"
  using assms by (simp add: OpBroadcast_Decode_def run_reader_def codec_simps)

theorem v1_broadcast_decodes_witness:
  "fits [117] \<and> list_ok doc_entry_ok [\<lparr>de_key = [107], encoded_doc = [1, 2]\<rparr>] \<and>
   OpBroadcast_Decode (put_bytes [117] @ put_list put_doc_entry [\<lparr>de_key = [107], encoded_doc = [1, 2]\<rparr>]) =
     Some \<lparr>op_collection = [117], op_docs = [\<lparr>de_key = [107], encoded_doc = [1, 2]\<rparr>], op_message_id = [], op_ttl = 1\<rparr>"
proof -
  have "fits [117]" "list_ok doc_entry_ok [\<lparr>de_key = [107], encoded_doc = [1, 2]\<rparr>]"
    by (simp_all add: fits_def list_ok_def doc_entry_ok_def)
  then show ?thesis using v1_broadcast_decodes by blast
qed

end
