(* ===== verification/AtRest.thy ===== *)
theory AtRest
  imports ByteBuffer
begin

text \<open>
  \<^verbatim>\<open>src/security/at_rest.cpp\<close>: sealing of log records, small files and pages, the mode
  checks that refuse a sealed file without a key and a plaintext file with one, the page header
  file, and the decoding of recovery keys.

  The OpenSSL primitives behind \<^verbatim>\<open>src/security/crypto.cpp\<close> are parameters, the fields of a
  record \<open>crypto\<close> the definitions take as an argument. What the code relies on is stated as
  \<open>aead_laws\<close> (an authenticated cipher opens what it sealed, adds a 16-byte tag, and opens
  nothing but sealings) and \<open>digest_laws\<close> (digests are 32 bytes). A random nonce is an argument,
  \<open>None\<close> when the generator fails.
\<close>

section \<open>The primitives\<close>

record crypto =
  Sha256 :: "bytes \<Rightarrow> bytes"
  HkdfSha256 :: "bytes \<Rightarrow> bytes \<Rightarrow> bytes \<Rightarrow> nat \<Rightarrow> bytes option"
  AesGcmSeal :: "bytes \<Rightarrow> bytes \<Rightarrow> bytes \<Rightarrow> bytes \<Rightarrow> bytes status_or"
  AesGcmOpen :: "bytes \<Rightarrow> bytes \<Rightarrow> bytes \<Rightarrow> bytes \<Rightarrow> bytes option"

definition digest_laws :: "crypto \<Rightarrow> bool" where
  "digest_laws C \<longleftrightarrow> (\<forall>x. length (Sha256 C x) = 32)"

definition aead_laws :: "crypto \<Rightarrow> bool" where
  "aead_laws C \<longleftrightarrow>
     (\<forall>k n p a. length k = 32 \<longrightarrow> length n = 12 \<longrightarrow>
        (\<exists>c. AesGcmSeal C k n p a = Inr c \<and> length c = length p + 16 \<and> AesGcmOpen C k n c a = Some p)) \<and>
     (\<forall>k n c a p. AesGcmOpen C k n c a = Some p \<longrightarrow> AesGcmSeal C k n p a = Inr c)"

section \<open>Recovery keys\<close>

definition kDekLen :: nat where
  "kDekLen = 32"

definition kAlpha :: bytes where
  "kAlpha = bytes_of ''0123456789ABCDEFGHJKMNPQRSTVWXYZ''"

fun index_in :: "byte \<Rightarrow> bytes \<Rightarrow> nat option" where
  "index_in c [] = None"
| "index_in c (b # bs) = (if c = b then Some 0 else map_option Suc (index_in c bs))"

text \<open>
  \<open>None\<close> is the source's \<open>-1\<close>. \<^verbatim>\<open>std::strchr\<close> also finds the terminating NUL of the alphabet, so a
  NUL byte has the value 32.
\<close>

definition CrockfordValue :: "byte \<Rightarrow> nat option" where
  "CrockfordValue raw =
     (let c = (if 97 \<le> raw \<and> raw \<le> 122 then raw - 97 + 65 else raw)
      in if c = 79 then Some 0
         else if c = 73 \<or> c = 76 then Some 1
         else index_in c (kAlpha @ [0]))"

definition is_separator :: "byte \<Rightarrow> bool" where
  "is_separator b \<longleftrightarrow> b \<in> {45, 32, 9, 10, 13, 95}"

fun decode_key_loop :: "bytes \<Rightarrow> u32 \<Rightarrow> nat \<Rightarrow> bytes \<Rightarrow> bytes status_or" where
  "decode_key_loop [] bits bit_count out =
     (if length out \<noteq> kDekLen then Inl kCorruption else Inr out)"
| "decode_key_loop (raw # text) bits bit_count out =
     (if is_separator raw then decode_key_loop text bits bit_count out
      else case CrockfordValue raw of
        None \<Rightarrow> Inl kCorruption
      | Some v \<Rightarrow>
          if v > 31 then Inl kCorruption
          else
          let bits = push_bit 5 bits OR of_nat v; n = bit_count + 5
          in if n \<ge> 8
             then decode_key_loop text bits (n - 8) (out @ [ucast (drop_bit (n - 8) bits)])
             else decode_key_loop text bits n out)"

definition DecodeRecoveryKey :: "bytes \<Rightarrow> bytes status_or" where
  "DecodeRecoveryKey text = decode_key_loop text 0 0 []"

section \<open>Sealing\<close>

definition kSealedRecordMagic :: bytes where
  "kSealedRecordMagic = bytes_of ''DSWE''"

definition kSealedFileMagic :: bytes where
  "kSealedFileMagic = bytes_of ''DSNJ''"

definition kPageSize :: nat where
  "kPageSize = 4096"

definition FileSubkey :: "crypto \<Rightarrow> bytes \<Rightarrow> bytes \<Rightarrow> bytes status_or" where
  "FileSubkey C dek file_tag =
     (if length dek \<noteq> kDekLen then Inl kInvalidArgument
      else case HkdfSha256 C dek file_tag (bytes_of ''desentry-at-rest-v1'') kDekLen of
        Some k \<Rightarrow> Inr k | None \<Rightarrow> Inl kInternal)"

definition LooksSealedRecord :: "bytes \<Rightarrow> bool" where
  "LooksSealedRecord bs = (4 \<le> length bs \<and> take 4 bs = kSealedRecordMagic)"

definition LooksSealedFile :: "bytes \<Rightarrow> bool" where
  "LooksSealedFile bs = (4 \<le> length bs \<and> take 4 bs = kSealedFileMagic)"

definition seal_with_magic :: "crypto \<Rightarrow> bytes \<Rightarrow> bytes option \<Rightarrow> bytes \<Rightarrow> bytes \<Rightarrow> bytes \<Rightarrow> bytes status_or" where
  "seal_with_magic C magic nonce_or subkey plaintext aad =
     (if length subkey \<noteq> kDekLen then Inl kInvalidArgument
      else case nonce_or of
        None \<Rightarrow> Inl kInternal
      | Some nonce \<Rightarrow>
          (case AesGcmSeal C subkey nonce plaintext aad of
             Inl e \<Rightarrow> Inl e
           | Inr sealed \<Rightarrow> Inr (magic @ nonce @ sealed)))"

definition SealRecord :: "crypto \<Rightarrow> bytes option \<Rightarrow> bytes \<Rightarrow> bytes \<Rightarrow> bytes \<Rightarrow> bytes status_or" where
  "SealRecord C = seal_with_magic C kSealedRecordMagic"

definition SealFile :: "crypto \<Rightarrow> bytes option \<Rightarrow> bytes \<Rightarrow> bytes \<Rightarrow> bytes \<Rightarrow> bytes status_or" where
  "SealFile C = seal_with_magic C kSealedFileMagic"

text \<open>
  The common tail of \<^verbatim>\<open>OpenRecord\<close> and \<^verbatim>\<open>OpenFile\<close>. \<open>None\<close> is an exception:
  \<^verbatim>\<open>sealed.substr(16)\<close> throws \<^verbatim>\<open>std::out_of_range\<close> on fewer than sixteen bytes.
\<close>

definition open_with_magic :: "crypto \<Rightarrow> bytes \<Rightarrow> bytes \<Rightarrow> bytes \<Rightarrow> bytes status_or option" where
  "open_with_magic C subkey sealed aad =
     (if length subkey \<noteq> kDekLen then Some (Inl kInvalidArgument)
      else if length sealed < 16 then None
      else case AesGcmOpen C subkey (take 12 (drop 4 sealed)) (drop 16 sealed) aad of
        None \<Rightarrow> Some (Inl kCorruption) | Some plaintext \<Rightarrow> Some (Inr plaintext))"

definition OpenRecord :: "crypto \<Rightarrow> bytes \<Rightarrow> bytes \<Rightarrow> bytes \<Rightarrow> bytes status_or option" where
  "OpenRecord C subkey sealed aad =
     (if \<not> LooksSealedRecord sealed then Some (Inl kCorruption)
      else open_with_magic C subkey sealed aad)"

definition OpenFile :: "crypto \<Rightarrow> bytes \<Rightarrow> bytes \<Rightarrow> bytes \<Rightarrow> bytes status_or option" where
  "OpenFile C subkey sealed aad =
     (if \<not> LooksSealedFile sealed then Some (Inl kCorruption)
      else open_with_magic C subkey sealed aad)"

definition PageAad :: "bytes \<Rightarrow> u32 \<Rightarrow> bytes" where
  "PageAad file_tag page_id = file_tag @ rev (le_bytes 4 page_id)"

definition SealPage :: "crypto \<Rightarrow> bytes option \<Rightarrow> bytes \<Rightarrow> u32 \<Rightarrow> bytes \<Rightarrow> bytes \<Rightarrow> bytes status_or" where
  "SealPage C nonce_or subkey page_id file_tag page =
     (if length subkey \<noteq> kDekLen then Inl kInvalidArgument
      else case nonce_or of
        None \<Rightarrow> Inl kInternal
      | Some nonce \<Rightarrow>
          (case AesGcmSeal C subkey nonce page (PageAad file_tag page_id) of
             Inl e \<Rightarrow> Inl e
           | Inr ct \<Rightarrow> if length ct \<noteq> kPageSize + 16 then Inl kInternal else Inr (nonce @ ct)))"

definition OpenPage :: "crypto \<Rightarrow> bytes \<Rightarrow> u32 \<Rightarrow> bytes \<Rightarrow> bytes \<Rightarrow> bytes status_or" where
  "OpenPage C subkey page_id file_tag sealed =
     (if length subkey \<noteq> kDekLen then Inl kInvalidArgument
      else case AesGcmOpen C subkey (take 12 sealed) (take (kPageSize + 16) (drop 12 sealed))
                  (PageAad file_tag page_id) of
        None \<Rightarrow> Inl kCorruption
      | Some p \<Rightarrow> if length p \<noteq> kPageSize then Inl kCorruption else Inr p)"

section \<open>Files and their modes\<close>

text \<open>A file is its contents, \<open>None\<close> when it cannot be opened; writing returns the contents.\<close>

definition ReadSealedJsonFile :: "crypto \<Rightarrow> bytes option \<Rightarrow> bytes \<Rightarrow> bytes \<Rightarrow> bytes status_or option" where
  "ReadSealedJsonFile C file dek aad =
     (if dek \<noteq> [] \<and> length dek \<noteq> 32 then Some (Inl kInvalidArgument)
      else case file of
        None \<Rightarrow> Some (Inl kNotFound)
      | Some text \<Rightarrow>
          if text = [] then Some (Inr text)
          else if LooksSealedFile text \<and> dek = [] then Some (Inl kCorruption)
          else if \<not> LooksSealedFile text \<and> dek \<noteq> [] then Some (Inl kCorruption)
          else if \<not> LooksSealedFile text then Some (Inr text)
          else case FileSubkey C dek aad of
            Inl e \<Rightarrow> Some (Inl e) | Inr k \<Rightarrow> OpenFile C k text aad)"

definition WriteSealedJsonFile ::
  "crypto \<Rightarrow> bytes option \<Rightarrow> bytes \<Rightarrow> bytes \<Rightarrow> bytes \<Rightarrow> bytes status_or" where
  "WriteSealedJsonFile C nonce_or content dek aad =
     (if dek \<noteq> [] \<and> length dek \<noteq> 32 then Inl kInvalidArgument
      else if dek = [] then Inr content
      else case FileSubkey C dek aad of
        Inl e \<Rightarrow> Inl e | Inr k \<Rightarrow> SealFile C nonce_or k content aad)"

text \<open>
  \<^verbatim>\<open>DetectLogMode\<close> peeks at the first record of a length-prefixed log. The result is the
  \<^verbatim>\<open>sealed\<close> flag; a file whose first record is cut short has no mode yet.
\<close>

definition DetectLogMode :: "bytes option \<Rightarrow> nat \<Rightarrow> bool \<Rightarrow> bool status_or" where
  "DetectLogMode file record_cap have_key =
     (case file of
        None \<Rightarrow> Inr False
      | Some bs \<Rightarrow>
          if length bs < 4 then Inr False
          else
            let body_len = unat (le_word (take 4 bs) :: u32)
            in if body_len = 0 \<or> body_len > record_cap then Inl kCorruption
               else
                 let peek = (if body_len < 64 then body_len else 64);
                     head = take peek (drop 4 bs)
                 in if length head < peek then Inr False
                    else
                      let sealed = LooksSealedRecord head
                      in if sealed \<and> \<not> have_key then Inl kCorruption
                         else if \<not> sealed \<and> have_key then Inl kCorruption
                         else Inr sealed)"

section \<open>The page header file\<close>

fun find_from :: "bytes \<Rightarrow> bytes \<Rightarrow> bytes option" where
  "find_from pat text =
     (if take (length pat) text = pat then Some (drop (length pat) text)
      else case text of [] \<Rightarrow> None | _ # r \<Rightarrow> find_from pat r)"

declare find_from.simps [simp del]

definition WritePageHeaderFile :: "bytes \<Rightarrow> bytes" where
  "WritePageHeaderFile tag_hex =
     bytes_of ''{\"magic\":\"DSNENC1\",\"file_tag_hex\":\"'' @ tag_hex @ bytes_of ''\"}''"

text \<open>
  \<open>find_from pat text\<close> is \<^verbatim>\<open>text.find(pat)\<close>: the text after the first occurrence. The tag is
  what stands between the first two quotes after the key.
\<close>

definition ReadPageHeaderFile :: "bytes option \<Rightarrow> bytes status_or" where
  "ReadPageHeaderFile file =
     (case file of
        None \<Rightarrow> Inl kNotFound
      | Some text \<Rightarrow>
          (case (find_from (bytes_of ''\"DSNENC1\"'') text, find_from (bytes_of ''\"file_tag_hex\"'') text) of
             (Some _, Some after_key) \<Rightarrow>
               (case find_from [34] after_key of
                  None \<Rightarrow> Inl kCorruption
                | Some r \<Rightarrow>
                    (case find_from [34] r of
                       None \<Rightarrow> Inl kCorruption
                     | Some _ \<Rightarrow>
                         let tag = takeWhile (\<lambda>c. c \<noteq> 34) r
                         in if tag = [] then Inl kCorruption else Inr tag))
           | _ \<Rightarrow> Inl kCorruption))"

section \<open>Lemmas\<close>

lemma aead_seal:
  assumes "aead_laws C" "length k = 32" "length n = 12"
  obtains c where "AesGcmSeal C k n p a = Inr c" "length c = length p + 16" "AesGcmOpen C k n c a = Some p"
  using assms unfolding aead_laws_def by blast

lemma aead_open: "aead_laws C \<Longrightarrow> AesGcmOpen C k n c a = Some p \<Longrightarrow> AesGcmSeal C k n p a = Inr c"
  unfolding aead_laws_def by blast

lemma length_magic [simp]: "length kSealedRecordMagic = 4" "length kSealedFileMagic = 4"
  by (simp_all add: kSealedRecordMagic_def kSealedFileMagic_def bytes_of_def)

lemma seal_with_magic_ok:
  assumes "aead_laws C" "length k = 32" "length n = 12"
  obtains c where "seal_with_magic C magic (Some n) k p a = Inr (magic @ n @ c)"
    "length c = length p + 16" "AesGcmOpen C k n c a = Some p"
proof -
  obtain c where c: "AesGcmSeal C k n p a = Inr c" "length c = length p + 16" "AesGcmOpen C k n c a = Some p"
    using aead_seal [OF assms] .
  then have "seal_with_magic C magic (Some n) k p a = Inr (magic @ n @ c)"
    by (simp add: seal_with_magic_def kDekLen_def assms(2))
  then show thesis using c(2,3) by (rule that)
qed

lemma open_with_magic_ok:
  "length magic = 4 \<Longrightarrow> length k = 32 \<Longrightarrow> length n = 12 \<Longrightarrow> AesGcmOpen C k n c a = Some p \<Longrightarrow>
   open_with_magic C k (magic @ n @ c) a = Some (Inr p)"
  by (simp add: open_with_magic_def kDekLen_def)

lemma OpenRecord_SealRecord:
  assumes "aead_laws C" "length k = 32" "length n = 12"
  shows "\<exists>s. SealRecord C (Some n) k p a = Inr s \<and> LooksSealedRecord s \<and> length s = length p + 32 \<and>
             OpenRecord C k s a = Some (Inr p)"
proof -
  obtain c where c: "seal_with_magic C kSealedRecordMagic (Some n) k p a = Inr (kSealedRecordMagic @ n @ c)"
    "length c = length p + 16" "AesGcmOpen C k n c a = Some p"
    using seal_with_magic_ok [OF assms] .
  then show ?thesis
    using open_with_magic_ok [OF _ assms(2,3) c(3), of kSealedRecordMagic] assms(3)
    by (simp add: SealRecord_def OpenRecord_def LooksSealedRecord_def)
qed

lemma OpenFile_SealFile:
  assumes "aead_laws C" "length k = 32" "length n = 12"
  shows "\<exists>s. SealFile C (Some n) k p a = Inr s \<and> LooksSealedFile s \<and> OpenFile C k s a = Some (Inr p)"
proof -
  obtain c where c: "seal_with_magic C kSealedFileMagic (Some n) k p a = Inr (kSealedFileMagic @ n @ c)"
    "length c = length p + 16" "AesGcmOpen C k n c a = Some p"
    using seal_with_magic_ok [OF assms] .
  then show ?thesis
    using open_with_magic_ok [OF _ assms(2,3) c(3), of kSealedFileMagic] assms(3)
    by (simp add: SealFile_def OpenFile_def LooksSealedFile_def)
qed

text \<open>A cipher that only appends a tag, and a truncating digest: the laws can hold.\<close>

definition ex_crypto :: crypto where
  "ex_crypto = \<lparr>Sha256 = (\<lambda>x. take 32 (x @ replicate 32 0)), HkdfSha256 = (\<lambda>s salt info n. Some (replicate n 7)),
     AesGcmSeal = (\<lambda>k n p a. Inr (p @ replicate 16 5)),
     AesGcmOpen = (\<lambda>k n c a. if 16 \<le> length c \<and> drop (length c - 16) c = replicate 16 5
                             then Some (take (length c - 16) c) else None)\<rparr>"

lemma ex_crypto_laws: "aead_laws ex_crypto" "digest_laws ex_crypto"
proof -
  have "c = take (length c - 16) c @ replicate 16 5"
    if "16 \<le> length c" "drop (length c - 16) c = replicate 16 5" for c :: bytes
    using that by (metis append_take_drop_id)
  then show "aead_laws ex_crypto" by (auto simp: aead_laws_def ex_crypto_def split: if_splits)
  show "digest_laws ex_crypto" by (simp add: digest_laws_def ex_crypto_def min_def)
qed

section \<open>Properties\<close>

text \<open>
  C15: sealing is reversible under the same key and label, and detectable. With any 32-byte
  subkey and 12-byte nonce, a sealed record opens to the plaintext, and anything that opens is
  a sealing of what it opens to under the same key and label: a changed byte, another key or
  another label opens only if the cipher itself seals to those very bytes.
\<close>

theorem sealed_record_round_trip:
  assumes "aead_laws C" "length k = 32" "length n = 12"
  shows "(\<exists>s. SealRecord C (Some n) k p a = Inr s \<and> LooksSealedRecord s \<and> OpenRecord C k s a = Some (Inr p))
       \<and> (\<forall>s q. OpenRecord C k s a = Some (Inr q) \<longrightarrow>
            (\<exists>n' c. s = kSealedRecordMagic @ n' @ c \<and> length n' = 12 \<and> AesGcmSeal C k n' q a = Inr c))"
proof
  show "\<exists>s. SealRecord C (Some n) k p a = Inr s \<and> LooksSealedRecord s \<and> OpenRecord C k s a = Some (Inr p)"
    using OpenRecord_SealRecord [OF assms] by blast
  show "\<forall>s q. OpenRecord C k s a = Some (Inr q) \<longrightarrow>
      (\<exists>n' c. s = kSealedRecordMagic @ n' @ c \<and> length n' = 12 \<and> AesGcmSeal C k n' q a = Inr c)"
  proof (intro allI impI)
    fix s q
    assume "OpenRecord C k s a = Some (Inr q)"
    then have s: "LooksSealedRecord s" "16 \<le> length s"
      "AesGcmOpen C k (take 12 (drop 4 s)) (drop 16 s) a = Some q"
      by (auto simp: OpenRecord_def open_with_magic_def split: if_splits option.splits)
    have "s = take 4 s @ take 12 (drop 4 s) @ drop 16 s"
      using append_take_drop_id [of 4 s] append_take_drop_id [of 12 "drop 4 s"] by simp
    then have "s = kSealedRecordMagic @ take 12 (drop 4 s) @ drop 16 s"
      using s(1) by (simp add: LooksSealedRecord_def)
    moreover have "length (take 12 (drop 4 s)) = 12" using s(2) by simp
    ultimately show "\<exists>n' c. s = kSealedRecordMagic @ n' @ c \<and> length n' = 12 \<and> AesGcmSeal C k n' q a = Inr c"
      using aead_open [OF assms(1) s(3)] by blast
  qed
qed

theorem sealed_record_round_trip_witness:
  "aead_laws ex_crypto \<and> length (replicate 32 1 :: bytes) = 32 \<and> length (replicate 12 2 :: bytes) = 12 \<and>
   (\<exists>s. SealRecord ex_crypto (Some (replicate 12 2)) (replicate 32 1) [9] [119] = Inr s \<and>
      OpenRecord ex_crypto (replicate 32 1) s [119] = Some (Inr [9]))"
  using sealed_record_round_trip [OF ex_crypto_laws(1), of "replicate 32 1" "replicate 12 2" "[9]" "[119]"]
    ex_crypto_laws(1) by auto

text \<open>
  C27: an encrypted configuration file reads back, and the modes never mix. What was written
  with a key reads back with it; read without a key it is refused as corrupt, and so is a
  plaintext file read with a key.
\<close>

theorem json_file_fails_closed:
  assumes "aead_laws C" "length dek = 32" "length n = 12"
    and "HkdfSha256 C dek aad (bytes_of ''desentry-at-rest-v1'') 32 = Some k" "length k = 32"
  shows "\<exists>f. WriteSealedJsonFile C (Some n) content dek aad = Inr f \<and>
           ReadSealedJsonFile C (Some f) dek aad = Some (Inr content) \<and>
           ReadSealedJsonFile C (Some f) [] aad = Some (Inl kCorruption) \<and>
           (content \<noteq> [] \<and> \<not> LooksSealedFile content \<longrightarrow>
              ReadSealedJsonFile C (Some content) dek aad = Some (Inl kCorruption))"
proof -
  have sub: "FileSubkey C dek aad = Inr k" using assms(2,4) by (simp add: FileSubkey_def kDekLen_def)
  obtain f where f: "SealFile C (Some n) k content aad = Inr f" "LooksSealedFile f"
    "OpenFile C k f aad = Some (Inr content)"
    using OpenFile_SealFile [OF assms(1,5,3)] by blast
  have ne: "dek \<noteq> []" "f \<noteq> []" using assms(2) f(2) by (auto simp: LooksSealedFile_def)
  show ?thesis
    using f ne sub assms(2) by (simp add: WriteSealedJsonFile_def ReadSealedJsonFile_def)
qed

theorem json_file_fails_closed_witness:
  "aead_laws ex_crypto \<and> length (replicate 32 1 :: bytes) = 32 \<and>
   HkdfSha256 ex_crypto (replicate 32 1) [99] (bytes_of ''desentry-at-rest-v1'') 32 = Some (replicate 32 7) \<and>
   (\<exists>f. WriteSealedJsonFile ex_crypto (Some (replicate 12 2)) [123, 125] (replicate 32 1) [99] = Inr f \<and>
      ReadSealedJsonFile ex_crypto (Some f) (replicate 32 1) [99] = Some (Inr [123, 125]))"
proof -
  have "HkdfSha256 ex_crypto (replicate 32 1) [99] (bytes_of ''desentry-at-rest-v1'') 32 = Some (replicate 32 7)"
    by (simp add: ex_crypto_def)
  then show ?thesis
    using json_file_fails_closed [OF ex_crypto_laws(1), of "replicate 32 1" "replicate 12 2" "[99]" "replicate 32 7" "[123, 125]"]
      ex_crypto_laws(1) by auto
qed

text \<open>
  A short sealed-looking record is not reported as corrupt but throws: the magic alone, or
  the magic with up to eleven further bytes, raises an out-of-range exception in
  \<^verbatim>\<open>OpenRecord\<close> and \<^verbatim>\<open>OpenFile\<close> for every valid key.
\<close>

theorem short_sealed_record_throws:
  assumes "length k = 32" "length r < 12"
  shows "OpenRecord C k (kSealedRecordMagic @ r) a = None \<and> OpenFile C k (kSealedFileMagic @ r) a = None"
  using assms
  by (simp add: OpenRecord_def OpenFile_def open_with_magic_def LooksSealedRecord_def LooksSealedFile_def kDekLen_def)

theorem short_sealed_record_throws_witness:
  "length (replicate 32 1 :: bytes) = 32 \<and> length ([] :: bytes) < 12 \<and>
   OpenRecord ex_crypto (replicate 32 1) (kSealedRecordMagic @ []) [119] = None"
  using short_sealed_record_throws [of "replicate 32 1" "[]" ex_crypto "[119]"] by simp

lemma find_from_simps:
  "find_from [] text = Some text"
  "find_from (p # ps) [] = None"
  "find_from (p # ps) (c # text) =
     (if p = c \<and> take (length ps) text = ps then Some (drop (length ps) text) else find_from (p # ps) text)"
  by (subst find_from.simps; simp)+

lemma find_from_byte: "c \<notin> set xs \<Longrightarrow> find_from [c] (xs @ c # r) = Some r"
  by (induction xs) (auto simp: find_from_simps)

text \<open>
  The page header file gives back the tag it was written with, for every non-empty tag
  without a quote (tags are hexadecimal).
\<close>

theorem page_header_round_trip:
  assumes "tag \<noteq> []" "34 \<notin> set tag"
  shows "ReadPageHeaderFile (Some (WritePageHeaderFile tag)) = Inr tag"
proof -
  have magic: "find_from (bytes_of ''\"DSNENC1\"'') (WritePageHeaderFile tag) =
      Some (bytes_of '',\"file_tag_hex\":\"'' @ tag @ bytes_of ''\"}'')"
    by (simp add: WritePageHeaderFile_def bytes_of_def of_char_def find_from_simps)
  have key: "find_from (bytes_of ''\"file_tag_hex\"'') (WritePageHeaderFile tag) =
      Some (bytes_of '':\"'' @ tag @ bytes_of ''\"}'')"
    by (simp add: WritePageHeaderFile_def bytes_of_def of_char_def find_from_simps)
  have q1: "find_from [34] (bytes_of '':\"'' @ tag @ bytes_of ''\"}'') = Some (tag @ bytes_of ''\"}'')"
    by (simp add: bytes_of_def of_char_def find_from_simps)
  have q2: "find_from [34] (tag @ bytes_of ''\"}'') = Some (bytes_of ''}'')"
    using find_from_byte [OF assms(2), of "bytes_of ''}''"] by (simp add: bytes_of_def of_char_def)
  have "takeWhile (\<lambda>c. c \<noteq> 34) (tag @ bytes_of ''\"}'') = tag"
    using assms(2) by (subst takeWhile_append2) (auto simp: bytes_of_def of_char_def)
  with magic key q1 q2 assms(1) show ?thesis by (simp add: ReadPageHeaderFile_def Let_def)
qed

theorem page_header_round_trip_witness:
  "[97, 98] \<noteq> ([] :: bytes) \<and> 34 \<notin> set ([97, 98] :: bytes) \<and>
   ReadPageHeaderFile (Some (WritePageHeaderFile [97, 98])) = Inr [97, 98]"
  using page_header_round_trip [of "[97, 98]"] by simp

end
