(* ===== verification/Wal.thy ===== *)
theory Wal
  imports Hlc Checksum AtRest
begin

text \<open>
  \<^verbatim>\<open>include/desentry/storage/wal.h\<close> and \<^verbatim>\<open>src/storage/wal.cpp\<close>: the write-ahead log, a
  hash-chained, optionally sealed ledger of length-prefixed, checksummed records. This theory
  holds the definitions; \<^verbatim>\<open>WalRecovery\<close> what they show of durability and crash recovery,
  \<^verbatim>\<open>WalChain\<close> of tamper evidence and pruning.

  The log's file is its contents. \<open>None\<close> is an exception leaving the operation. The clock, the
  nonces and the outcome of disk operations are arguments.
\<close>

section \<open>Records\<close>

definition kPut :: byte where "kPut = 1"
definition kDelete :: byte where "kDelete = 2"
definition kCheckpoint :: byte where "kCheckpoint = 3"
definition kTransitIntent :: byte where "kTransitIntent = 4"
definition kTransitClaimed :: byte where "kTransitClaimed = 5"
definition kAbort :: byte where "kAbort = 6"
definition kAcl :: byte where "kAcl = 7"

definition kWalHashLen :: nat where
  "kWalHashLen = 32"

definition kWalRecordMagicV2 :: u32 where
  "kWalRecordMagicV2 = 0x44535732"

definition kWalRecordMagicV3 :: u32 where
  "kWalRecordMagicV3 = 0x44535733"

definition kMaxRecordBytes :: nat where
  "kMaxRecordBytes = 268435456"

definition kInvalidLsn :: int where
  "kInvalidLsn = - 1"

definition kMaxLsn :: int where
  "kMaxLsn = 9223372036854775807"

definition GenesisHash :: bytes where
  "GenesisHash = replicate 32 0"

record WalRecord =
  lsn :: int
  rtype :: byte
  collection :: bytes
  rkey :: bytes
  document_bytes :: bytes
  key_hash :: bytes
  rhlc :: hlc
  origin_node_id :: bytes
  origin_signature :: bytes
  prev_hash :: bytes
  entry_hash :: bytes
  transit_holder :: bytes
  transit_size_bytes :: u64
  transit_chunk_index :: u32
  transit_chunk_total :: u32
  position_bound :: bool

definition default_record :: WalRecord where
  "default_record = \<lparr>lsn = kInvalidLsn, rtype = kPut, collection = [], rkey = [],
     document_bytes = [], key_hash = [], rhlc = HLC 0 0 [], origin_node_id = [],
     origin_signature = [], prev_hash = [], entry_hash = [], transit_holder = [],
     transit_size_bytes = 0, transit_chunk_index = 0, transit_chunk_total = 1,
     position_bound = False\<rparr>"

definition IsTransit :: "WalRecord \<Rightarrow> bool" where
  "IsTransit r = (rtype r = kTransitIntent \<or> rtype r = kTransitClaimed)"

definition LedgerKeyHash :: "crypto \<Rightarrow> bytes \<Rightarrow> bytes \<Rightarrow> bytes" where
  "LedgerKeyHash C coll key = Sha256 C (coll @ [0] @ key)"

definition TransitChunkKeyHash :: "crypto \<Rightarrow> bytes \<Rightarrow> u32 \<Rightarrow> bytes" where
  "TransitChunkKeyHash C doc_key_hash chunk_index =
     Sha256 C (doc_key_hash @ [0] @ rev (le_bytes 4 chunk_index))"

section \<open>Record bodies\<close>

definition content_tail :: "WalRecord \<Rightarrow> bytes" where
  "content_tail r =
     put_i64 (lsn r) @ put_u8 (rtype r) @ put_bytes (collection r) @ put_bytes (rkey r) @
     put_bytes (document_bytes r) @ put_bytes (key_hash r) @ put_u64 (physical_ms (rhlc r)) @
     put_u32 (logical (rhlc r)) @ put_bytes (node_id (rhlc r)) @ put_bytes (origin_node_id r)"

definition BuildContentLegacy :: "WalRecord \<Rightarrow> bytes" where
  "BuildContentLegacy r = put_u32 kWalRecordMagicV2 @ content_tail r"

definition BuildContent :: "WalRecord \<Rightarrow> bytes" where
  "BuildContent r = put_u32 kWalRecordMagicV3 @ drop 4 (BuildContentLegacy r) @ prev_hash r"

definition EncodeBody :: "WalRecord \<Rightarrow> bytes" where
  "EncodeBody r =
     (if position_bound r then BuildContent r else BuildContentLegacy r) @
     put_bytes (origin_signature r) @ put_raw (prev_hash r) @ put_raw (entry_hash r) @
     (if rtype r = kTransitIntent
      then put_bytes (transit_holder r) @ put_u64 (transit_size_bytes r) @
           put_u32 (transit_chunk_index r) @ put_u32 (transit_chunk_total r)
      else [])"

text \<open>The unsigned tail of a transit intent; a record of another type may have none.\<close>

definition get_transit_tail :: "WalRecord \<Rightarrow> bytes \<Rightarrow> WalRecord option" where
  "get_transit_tail r bs =
     (if bs = [] then Some r
      else if rtype r \<noteq> kTransitIntent then None
      else do {
        (h, bs) \<leftarrow> get_bytes bs;
        (sz, bs) \<leftarrow> get_u64 bs;
        (i, bs) \<leftarrow> get_u32 bs;
        (n, bs) \<leftarrow> get_u32 bs;
        if n = 0 \<or> i \<ge> n then None
        else Some (r\<lparr>transit_holder := h, transit_size_bytes := sz, transit_chunk_index := i,
                     transit_chunk_total := n\<rparr>) })"

definition get_content :: "bool \<Rightarrow> WalRecord reader" where
  "get_content bound bs = do {
     (a, bs) \<leftarrow> get_i64 bs;
     (b, bs) \<leftarrow> get_u8 bs;
     (c, bs) \<leftarrow> get_bytes bs;
     (d, bs) \<leftarrow> get_bytes bs;
     (e, bs) \<leftarrow> get_bytes bs;
     (f, bs) \<leftarrow> get_bytes bs;
     (g, bs) \<leftarrow> get_u64 bs;
     (h, bs) \<leftarrow> get_u32 bs;
     (i, bs) \<leftarrow> get_bytes bs;
     (j, bs) \<leftarrow> get_bytes bs;
     Some (default_record\<lparr>position_bound := bound, lsn := a, rtype := b, collection := c, rkey := d,
            document_bytes := e, key_hash := f, rhlc := HLC g h i, origin_node_id := j\<rparr>, bs) }"

definition DecodeBody :: "bytes \<Rightarrow> WalRecord status_or" where
  "DecodeBody body =
     (case (do {
        (magic, bs) \<leftarrow> get_u32 body;
        if magic \<noteq> kWalRecordMagicV2 \<and> magic \<noteq> kWalRecordMagicV3 then None
        else do {
          let bound = (magic = kWalRecordMagicV3);
          (r, bs) \<leftarrow> get_content bound bs;
          (content_prev, bs) \<leftarrow> (if bound then get_raw kWalHashLen bs else Some ([], bs));
          (sig, bs) \<leftarrow> get_bytes bs;
          if length bs < 2 * kWalHashLen then None
          else do {
            (prev, bs) \<leftarrow> get_raw kWalHashLen bs;
            if bound \<and> prev \<noteq> content_prev then None
            else do {
              (eh, bs) \<leftarrow> get_raw kWalHashLen bs;
              get_transit_tail (r\<lparr>origin_signature := sig, prev_hash := prev, entry_hash := eh\<rparr>) bs } } } })
      of None \<Rightarrow> Inl kCorruption | Some r \<Rightarrow> Inr r)"

definition DecodeBodyV1 :: "crypto \<Rightarrow> bytes \<Rightarrow> WalRecord status_or" where
  "DecodeBodyV1 C body =
     (if length body < 85 then Inl kCorruption
      else case (do {
        (a, bs) \<leftarrow> get_i64 body;
        (b, bs) \<leftarrow> get_u8 bs;
        (c, bs) \<leftarrow> get_bytes bs;
        (d, bs) \<leftarrow> get_bytes bs;
        (e, bs) \<leftarrow> get_bytes bs;
        (p, bs) \<leftarrow> get_raw kWalHashLen bs;
        (h, bs) \<leftarrow> get_raw kWalHashLen bs;
        Some (default_record\<lparr>lsn := a, rtype := b, collection := c, rkey := d, document_bytes := e,
               prev_hash := p, entry_hash := h, key_hash := LedgerKeyHash C c d\<rparr>) })
      of None \<Rightarrow> Inl kCorruption | Some r \<Rightarrow> Inr r)"

section \<open>Sealing and frames\<close>

definition SealPayload :: "crypto \<Rightarrow> bytes \<Rightarrow> bytes option \<Rightarrow> bytes \<Rightarrow> bytes status_or" where
  "SealPayload C subkey nonce payload =
     (if subkey = [] then Inr payload else SealRecord C nonce subkey payload (bytes_of ''wal''))"

definition UnsealPayload :: "crypto \<Rightarrow> bytes \<Rightarrow> bytes \<Rightarrow> bytes status_or option" where
  "UnsealPayload C subkey payload =
     (if LooksSealedRecord payload \<and> subkey = [] then Some (Inl kCorruption)
      else if \<not> LooksSealedRecord payload \<and> subkey \<noteq> [] then Some (Inl kCorruption)
      else if \<not> LooksSealedRecord payload then Some (Inr payload)
      else OpenRecord C subkey payload (bytes_of ''wal''))"

definition frame_payload :: "bytes \<Rightarrow> bytes" where
  "frame_payload payload =
     (let body = payload @ put_u32 (Crc32 payload) in put_u32 (of_nat (length body)) @ body)"

definition has_record_magic :: "bytes \<Rightarrow> bool" where
  "has_record_magic p =
     (4 \<le> length p \<and>
      (le_word (take 4 p) = kWalRecordMagicV2 \<or> le_word (take 4 p) = kWalRecordMagicV3))"

text \<open>
  One step of the replay loop, on the bytes from the current position: a clean end, a torn tail,
  a record that is present but bad, an exception, or a record with the bytes after it and whether
  it had the v1 layout.
\<close>

datatype frame_result =
    FrEnd | FrTorn | FrCorrupt | FrThrow | FrRecord WalRecord bool bytes

definition parse_frame :: "crypto \<Rightarrow> bytes \<Rightarrow> bytes \<Rightarrow> frame_result" where
  "parse_frame C subkey bs =
     (if length bs < 4 then FrEnd
      else
        let body_len = unat (le_word (take 4 bs) :: u32); rest = drop 4 bs
        in if body_len < 8 \<or> body_len > kMaxRecordBytes then FrCorrupt
           else if length rest < body_len then FrTorn
           else
             let payload = take (body_len - 4) rest;
                 stored_crc = le_word (take 4 (drop (body_len - 4) rest))
             in if stored_crc \<noteq> Crc32 payload then FrCorrupt
                else case UnsealPayload C subkey payload of
                  None \<Rightarrow> FrThrow
                | Some (Inl _) \<Rightarrow> FrCorrupt
                | Some (Inr p) \<Rightarrow>
                    if has_record_magic p
                    then (case DecodeBody p of
                            Inl _ \<Rightarrow> FrCorrupt | Inr r \<Rightarrow> FrRecord r False (drop body_len rest))
                    else (case DecodeBodyV1 C p of
                            Inl _ \<Rightarrow> FrCorrupt | Inr r \<Rightarrow> FrRecord r True (drop body_len rest)))"

section \<open>The log\<close>

record wal =
  w_file :: bytes
  w_hwm :: "bytes option"
  next_lsn :: int
  lsn_offsets :: "int list"
  tip_hash :: bytes
  last_checkpoint_lsn :: int
  last_read_corrupt :: bool
  w_origin_node_id :: bytes
  w_signer :: "(bytes \<Rightarrow> bytes) option"
  w_subkey :: bytes
  migrated_from_v1 :: bool
  pre_migration_tip_hash :: bytes
  hwm_saved_lsn :: int
  hwm_saved_ms :: int

text \<open>The offset index, sized for dense sequence numbers with \<open>-1\<close> for gaps.\<close>

definition set_offset :: "int \<Rightarrow> int \<Rightarrow> int list \<Rightarrow> int list" where
  "set_offset l off v =
     (if l < 0 then v
      else let v = (if nat l \<ge> length v then v @ replicate (nat l + 1 - length v) (- 1) else v)
           in v[nat l := off])"

text \<open>
  The replay loop: records in order, the corruption flag, the frame offsets found, and whether a
  v1 record was met. \<open>None\<close> when unsealing threw.
\<close>

lemma parse_frame_shorter:
  "parse_frame C subkey bs = FrRecord r v1 rest \<Longrightarrow> length rest < length bs"
  unfolding parse_frame_def Let_def
  by (auto split: if_splits option.splits sum.splits)

function read_loop ::
  "crypto \<Rightarrow> bytes \<Rightarrow> nat \<Rightarrow> int \<Rightarrow> bytes \<Rightarrow> (WalRecord list \<times> bool \<times> (int \<times> int) list \<times> bool) option" where
  "read_loop C subkey off expected bs =
     (case parse_frame C subkey bs of
        FrEnd \<Rightarrow> Some ([], False, [], False)
      | FrTorn \<Rightarrow> Some ([], False, [], False)
      | FrCorrupt \<Rightarrow> Some ([], True, [], False)
      | FrThrow \<Rightarrow> None
      | FrRecord r v1 rest \<Rightarrow>
          if 0 \<le> lsn r \<and> lsn r < expected then Some ([], True, [], v1)
          else
            (case read_loop C subkey (off + (length bs - length rest))
                    (if lsn r \<ge> expected then lsn r + 1 else expected) rest of
               None \<Rightarrow> None
             | Some (rs, c, offs, m) \<Rightarrow> Some (r # rs, c, (lsn r, int off) # offs, v1 \<or> m)))"
  by pat_completeness auto

termination
  by (relation "measure (\<lambda>(C, k, off, e, bs). length bs)") (auto dest: parse_frame_shorter)

declare read_loop.simps [simp del]

definition ReadAllLocked :: "crypto \<Rightarrow> wal \<Rightarrow> (WalRecord list \<times> wal) option" where
  "ReadAllLocked C w =
     (case read_loop C (w_subkey w) 0 0 (w_file w) of
        None \<Rightarrow> None
      | Some (rs, c, offs, m) \<Rightarrow>
          Some (rs, w\<lparr>last_read_corrupt := c,
                      lsn_offsets := foldl (\<lambda>v p. set_offset (fst p) (snd p) v) (lsn_offsets w) offs,
                      migrated_from_v1 := migrated_from_v1 w \<or> m\<rparr>))"

definition ReadAll :: "crypto \<Rightarrow> wal \<Rightarrow> (WalRecord list \<times> wal) option" where
  "ReadAll C w = ReadAllLocked C w"

definition Tip :: "wal \<Rightarrow> int \<times> bytes" where
  "Tip w = (next_lsn w - 1, tip_hash w)"

definition SetOrigin :: "bytes \<Rightarrow> (bytes \<Rightarrow> bytes) option \<Rightarrow> wal \<Rightarrow> wal" where
  "SetOrigin nid signer w = w\<lparr>w_origin_node_id := nid, w_signer := signer\<rparr>"

text \<open>The range read of \<^verbatim>\<open>ReadRange\<close>: it stops, silently, at the first frame it cannot use.\<close>

function range_loop :: "crypto \<Rightarrow> bytes \<Rightarrow> int \<Rightarrow> int \<Rightarrow> bytes \<Rightarrow> WalRecord list option" where
  "range_loop C subkey from to bs =
     (case parse_frame C subkey bs of
        FrEnd \<Rightarrow> Some [] | FrTorn \<Rightarrow> Some [] | FrCorrupt \<Rightarrow> Some [] | FrThrow \<Rightarrow> None
      | FrRecord r v1 rest \<Rightarrow>
          if lsn r > to then Some []
          else map_option (\<lambda>rs. if lsn r \<ge> from then r # rs else rs)
                 (range_loop C subkey from to rest))"
  by pat_completeness auto

termination
  by (relation "measure (\<lambda>(C, k, from, to, bs). length bs)") (auto dest: parse_frame_shorter)

declare range_loop.simps [simp del]

text \<open>The first indexed offset among the sequence numbers \<open>i\<close>, ..., \<open>to\<close>, or \<open>-1\<close>.\<close>

definition first_offset :: "int list \<Rightarrow> nat \<Rightarrow> nat \<Rightarrow> int" where
  "first_offset v from to =
     (case find (\<lambda>i. v ! i \<ge> 0) [from ..< min (to + 1) (length v)] of
        None \<Rightarrow> - 1 | Some i \<Rightarrow> v ! i)"

definition ReadRange :: "crypto \<Rightarrow> wal \<Rightarrow> int \<Rightarrow> int \<Rightarrow> WalRecord list option" where
  "ReadRange C w from to =
     (if to < 0 \<or> next_lsn w \<le> 0 then Some []
      else let from = (if from < 0 then 0 else from) in
        if from > to then Some []
        else let start_off = first_offset (lsn_offsets w) (nat from) (nat to)
             in range_loop C (w_subkey w) from to
                  (if start_off < 0 then w_file w else drop (nat start_off) (w_file w)))"

section \<open>Appending\<close>

record AppendOptions =
  ao_hlc :: hlc
  ao_transit_owner :: bytes
  ao_transit_holder :: bytes
  ao_transit_size_bytes :: u64
  ao_transit_chunk_index :: u32
  ao_transit_chunk_total :: u32

definition default_options :: AppendOptions where
  "default_options = \<lparr>ao_hlc = HLC 0 0 [], ao_transit_owner = [], ao_transit_holder = [],
     ao_transit_size_bytes = 0, ao_transit_chunk_index = 0, ao_transit_chunk_total = 1\<rparr>"

text \<open>
  How the disk answers an append: all bytes written and synced, a write that stopped after some
  prefix, or a write whose sync failed.
\<close>

datatype append_io = IoOk | WriteFails nat | SyncFails

definition WriteHwm :: "bool \<Rightarrow> int \<Rightarrow> bytes \<Rightarrow> wal \<Rightarrow> wal" where
  "WriteHwm hwm_ok tip_id tip w =
     (if hwm_ok then w\<lparr>w_hwm := Some (put_i64 tip_id @ take 32 tip)\<rparr> else w)"

definition WriteHwmIfDue :: "bool \<Rightarrow> int \<Rightarrow> int \<Rightarrow> bytes \<Rightarrow> wal \<Rightarrow> wal" where
  "WriteHwmIfDue hwm_ok now tip_id tip w =
     (if tip_id < hwm_saved_lsn w + 64 \<and> now < hwm_saved_ms w + 1000 then w
      else (WriteHwm hwm_ok tip_id tip w)\<lparr>hwm_saved_lsn := tip_id, hwm_saved_ms := now\<rparr>)"

definition append_record ::
  "crypto \<Rightarrow> wal \<Rightarrow> byte \<Rightarrow> bytes \<Rightarrow> bytes \<Rightarrow> bytes \<Rightarrow> AppendOptions \<Rightarrow> WalRecord" where
  "append_record C w type coll key doc opts =
     (let h = (if node_id (ao_hlc opts) = []
               then HLC (physical_ms (ao_hlc opts)) (logical (ao_hlc opts)) (w_origin_node_id w)
               else ao_hlc opts);
          r = default_record\<lparr>lsn := next_lsn w, rtype := type, position_bound := True,
                collection := coll, rkey := key, document_bytes := doc,
                key_hash := LedgerKeyHash C coll key, rhlc := h,
                origin_node_id := w_origin_node_id w\<rparr>;
          r = (if type = kTransitIntent
               then r\<lparr>transit_holder := ao_transit_holder opts,
                      transit_size_bytes := ao_transit_size_bytes opts,
                      transit_chunk_index := ao_transit_chunk_index opts,
                      transit_chunk_total := ao_transit_chunk_total opts\<rparr>
               else r);
          r = r\<lparr>prev_hash := tip_hash w\<rparr>;
          content = BuildContent r
      in r\<lparr>entry_hash := Sha256 C content,
           origin_signature := (case w_signer w of None \<Rightarrow> [] | Some sign \<Rightarrow> sign content)\<rparr>)"

definition Append ::
  "crypto \<Rightarrow> bytes option \<Rightarrow> append_io \<Rightarrow> bool \<Rightarrow> int \<Rightarrow> byte \<Rightarrow> bytes \<Rightarrow> bytes \<Rightarrow> bytes \<Rightarrow>
   AppendOptions \<Rightarrow> wal \<Rightarrow> int status_or \<times> wal" where
  "Append C nonce io hwm_ok now type coll key doc opts w =
     (if next_lsn w = kMaxLsn then (Inl kOutOfSpace, w)
      else
        let r = append_record C w type coll key doc opts
        in case SealPayload C (w_subkey w) nonce (EncodeBody r) of
             Inl e \<Rightarrow> (Inl e, w)
           | Inr payload \<Rightarrow>
               let frame = frame_payload payload; frame_off = int (length (w_file w))
               in case io of
                    WriteFails n \<Rightarrow> (Inl kIOError, w\<lparr>w_file := w_file w @ take n frame\<rparr>)
                  | SyncFails \<Rightarrow> (Inl kIOError, w\<lparr>w_file := w_file w @ frame\<rparr>)
                  | IoOk \<Rightarrow>
                      let w = w\<lparr>w_file := w_file w @ frame, tip_hash := entry_hash r\<rparr>;
                          w = (if type = kCheckpoint then w\<lparr>last_checkpoint_lsn := lsn r\<rparr> else w);
                          w = w\<lparr>lsn_offsets := set_offset (lsn r) frame_off (lsn_offsets w),
                                next_lsn := next_lsn w + 1\<rparr>
                      in (Inr (lsn r), WriteHwmIfDue hwm_ok now (lsn r) (entry_hash r) w))"

section \<open>Verifying the chain\<close>

record VerifyResult =
  v_ok :: bool
  entries_checked :: nat
  signed_entries :: nat
  unsigned_entries :: nat
  failed_at_entry_id :: int

definition bound_ok :: "crypto \<Rightarrow> WalRecord \<Rightarrow> bool" where
  "bound_ok C r = (Sha256 C (BuildContent r) = entry_hash r)"

definition legacy_ok :: "crypto \<Rightarrow> WalRecord \<Rightarrow> bool" where
  "legacy_ok C r = (\<not> bound_ok C r \<and> Sha256 C (BuildContentLegacy r @ prev_hash r) = entry_hash r)"

fun verify_loop ::
  "crypto \<Rightarrow> (bytes \<Rightarrow> bytes \<Rightarrow> bytes \<Rightarrow> bool) option \<Rightarrow> bytes \<Rightarrow> WalRecord list \<Rightarrow> VerifyResult \<Rightarrow> VerifyResult" where
  "verify_loop C verify expected_prev [] result = result\<lparr>failed_at_entry_id := kInvalidLsn\<rparr>"
| "verify_loop C verify expected_prev (r # rs) result =
     (if prev_hash r \<noteq> expected_prev then result\<lparr>v_ok := False, failed_at_entry_id := lsn r\<rparr>
      else if \<not> bound_ok C r \<and> \<not> legacy_ok C r
      then result\<lparr>v_ok := False, failed_at_entry_id := lsn r\<rparr>
      else if origin_signature r = [] \<or> origin_node_id r = []
      then verify_loop C verify (entry_hash r) rs
             (result\<lparr>unsigned_entries := unsigned_entries result + 1,
                     entries_checked := entries_checked result + 1\<rparr>)
      else
        let sig_ok = (case verify of None \<Rightarrow> True
              | Some vf \<Rightarrow> vf (origin_node_id r) (BuildContent r) (origin_signature r) \<or>
                  (\<not> bound_ok C r \<and>
                   vf (origin_node_id r) (BuildContentLegacy r) (origin_signature r)));
            result = result\<lparr>signed_entries := signed_entries result + 1\<rparr>
        in if \<not> sig_ok then result\<lparr>v_ok := False, failed_at_entry_id := lsn r\<rparr>
           else verify_loop C verify (entry_hash r) rs
                  (result\<lparr>entries_checked := entries_checked result + 1\<rparr>))"

definition default_verify :: VerifyResult where
  "default_verify = \<lparr>v_ok = True, entries_checked = 0, signed_entries = 0, unsigned_entries = 0,
     failed_at_entry_id = kInvalidLsn\<rparr>"

definition VerifyChain ::
  "crypto \<Rightarrow> (bytes \<Rightarrow> bytes \<Rightarrow> bytes \<Rightarrow> bool) option \<Rightarrow> wal \<Rightarrow> (VerifyResult \<times> wal) option" where
  "VerifyChain C verify w =
     (case ReadAllLocked C w of
        None \<Rightarrow> None
      | Some (rs, w) \<Rightarrow>
          Some (if last_read_corrupt w
                then default_verify\<lparr>v_ok := False, entries_checked := length rs,
                       failed_at_entry_id := (if rs = [] then 0 else lsn (last rs) + 1)\<rparr>
                else verify_loop C verify GenesisHash rs default_verify, w))"

section \<open>Rewriting and pruning\<close>

datatype rewrite_io = RwOk | RwWriteFails | RwRenameFails | RwReopenFails

text \<open>The frames of a rewritten log; the \<open>i\<close>-th record from \<open>i = n\<close> on is sealed under \<open>nonces i\<close>.\<close>

fun encode_frames :: "crypto \<Rightarrow> bytes \<Rightarrow> (nat \<Rightarrow> bytes option) \<Rightarrow> nat \<Rightarrow> WalRecord list \<Rightarrow> bytes status_or" where
  "encode_frames C subkey nonces n [] = Inr []"
| "encode_frames C subkey nonces n (r # rs) =
     (case SealPayload C subkey (nonces n) (EncodeBody r) of
        Inl e \<Rightarrow> Inl e
      | Inr payload \<Rightarrow>
          (case encode_frames C subkey nonces (Suc n) rs of
             Inl e \<Rightarrow> Inl e | Inr fs \<Rightarrow> Inr (frame_payload payload @ fs)))"

text \<open>
  The old file is removed before the rename, so a rename that fails leaves the log with no file;
  the state then has the empty one a later open would create.
\<close>

definition RewriteLocked ::
  "crypto \<Rightarrow> (nat \<Rightarrow> bytes option) \<Rightarrow> rewrite_io \<Rightarrow> WalRecord list \<Rightarrow> wal \<Rightarrow> (unit status_or \<times> wal) option" where
  "RewriteLocked C nonces io rs w =
     (case encode_frames C (w_subkey w) nonces 0 rs of
        Inl e \<Rightarrow> Some (Inl e, w)
      | Inr fs \<Rightarrow>
          (case io of
             RwWriteFails \<Rightarrow> Some (Inl kIOError, w)
           | RwRenameFails \<Rightarrow> Some (Inl kIOError, w\<lparr>w_file := []\<rparr>)
           | RwReopenFails \<Rightarrow> Some (Inl kIOError, w\<lparr>w_file := fs\<rparr>)
           | RwOk \<Rightarrow>
               map_option (\<lambda>(_, w). (Inr (), w))
                 (ReadAllLocked C (w\<lparr>w_file := fs, lsn_offsets := []\<rparr>))))"

record PruneResult =
  pruned_through :: int
  dropped :: nat
  previous_tip_hash :: bytes
  new_tip_hash :: bytes

definition claimed_below :: "int \<Rightarrow> WalRecord list \<Rightarrow> bytes set" where
  "claimed_below cp rs =
     set (map key_hash (filter (\<lambda>r. rtype r = kTransitClaimed)
                          (takeWhile (\<lambda>r. \<not> lsn r > cp) rs)))"

definition droppable :: "int \<Rightarrow> WalRecord list \<Rightarrow> WalRecord \<Rightarrow> bool" where
  "droppable cp rs r = (lsn r \<le> cp \<and> IsTransit r \<and> key_hash r \<in> claimed_below cp rs)"

text \<open>Re-chaining: the records with their new links and cleared signatures, and the new tip.\<close>

fun rechain :: "crypto \<Rightarrow> bytes \<Rightarrow> WalRecord list \<Rightarrow> WalRecord list \<times> bytes" where
  "rechain C prev [] = ([], prev)"
| "rechain C prev (r # rs) =
     (let r = r\<lparr>prev_hash := prev\<rparr>;
          r = r\<lparr>entry_hash := (if position_bound r then Sha256 C (BuildContent r)
                               else Sha256 C (BuildContentLegacy r @ prev)),
                origin_signature := []\<rparr>;
          (rs, tip) = rechain C (entry_hash r) rs
      in (r # rs, tip))"

definition last_checkpoint :: "int \<Rightarrow> WalRecord list \<Rightarrow> int" where
  "last_checkpoint d rs = foldl (\<lambda>c r. if rtype r = kCheckpoint then lsn r else c) d rs"

definition Prune ::
  "crypto \<Rightarrow> (nat \<Rightarrow> bytes option) \<Rightarrow> rewrite_io \<Rightarrow> bool \<Rightarrow> int \<Rightarrow> wal \<Rightarrow>
   (PruneResult status_or \<times> wal) option" where
  "Prune C nonces io hwm_ok cp w =
     (case ReadAllLocked C w of
        None \<Rightarrow> None
      | Some (rs, w) \<Rightarrow>
          let kept = filter (\<lambda>r. \<not> droppable cp rs r) rs;
              result = \<lparr>pruned_through = cp, dropped = length (filter (droppable cp rs) rs),
                        previous_tip_hash = tip_hash w, new_tip_hash = tip_hash w\<rparr>
          in if dropped result = 0 then Some (Inr result, w)
             else
               let (kept, prev) = rechain C GenesisHash kept
               in case RewriteLocked C nonces io kept w of
                    None \<Rightarrow> None
                  | Some (Inl e, w) \<Rightarrow> Some (Inl e, w)
                  | Some (Inr _, w) \<Rightarrow>
                      let w = w\<lparr>tip_hash := prev,
                                next_lsn := (if kept = [] then 0 else lsn (last kept) + 1)\<rparr>;
                          w = WriteHwm hwm_ok (next_lsn w - 1) (tip_hash w) w;
                          w = w\<lparr>last_checkpoint_lsn := last_checkpoint kInvalidLsn kept\<rparr>
                      in Some (Inr (result\<lparr>new_tip_hash := tip_hash w\<rparr>), w))"

section \<open>Opening\<close>

definition DetectMode :: "bytes \<Rightarrow> bool \<Rightarrow> bool status_or" where
  "DetectMode file have_key =
     (if length file < 4 then Inr False
      else
        let body_len = unat (le_word (take 4 file) :: u32)
        in if body_len < 8 \<or> body_len > kMaxRecordBytes then Inl kCorruption
           else
             let n = min body_len 64; head = take n (drop 4 file)
             in if length head < n then Inr False
                else
                  let sealed = (8 \<le> length head \<and> LooksSealedRecord head)
                  in if sealed \<and> \<not> have_key then Inl kCorruption
                     else if \<not> sealed \<and> have_key then Inl kCorruption
                     else Inr sealed)"

definition fresh_wal :: "bytes \<Rightarrow> bytes option \<Rightarrow> bytes \<Rightarrow> wal" where
  "fresh_wal file hwm subkey =
     \<lparr>w_file = file, w_hwm = hwm, next_lsn = 0, lsn_offsets = [], tip_hash = GenesisHash,
      last_checkpoint_lsn = kInvalidLsn, last_read_corrupt = False, w_origin_node_id = [],
      w_signer = None, w_subkey = subkey, migrated_from_v1 = False, pre_migration_tip_hash = [],
      hwm_saved_lsn = - 1, hwm_saved_ms = 0\<rparr>"

text \<open>The truncation check against the high-water mark; a short mark file is ignored.\<close>

definition hwm_violated :: "bytes option \<Rightarrow> int \<Rightarrow> bytes \<Rightarrow> bool" where
  "hwm_violated hwm tip_id tip =
     (case hwm of
        None \<Rightarrow> False
      | Some buf \<Rightarrow>
          40 \<le> length buf \<and>
          (let hwm_id = sint (le_word (take 8 buf) :: u64); hwm_hash = take 32 (drop 8 buf)
           in tip_id < hwm_id \<or> (tip_id = hwm_id \<and> tip \<noteq> hwm_hash)))"

fun upgrade_v1 :: "crypto \<Rightarrow> bytes \<Rightarrow> WalRecord list \<Rightarrow> WalRecord list \<times> bytes" where
  "upgrade_v1 C prev [] = ([], prev)"
| "upgrade_v1 C prev (r # rs) =
     (let r = r\<lparr>prev_hash := prev, position_bound := False\<rparr>;
          r = r\<lparr>entry_hash := Sha256 C (BuildContentLegacy r @ prev)\<rparr>;
          (rs, tip) = upgrade_v1 C (entry_hash r) rs
      in (r # rs, tip))"

text \<open>The part of \<^verbatim>\<open>Open\<close> after the key is derived: replay, checks, and the v1 migration.\<close>

definition open_replay ::
  "crypto \<Rightarrow> (nat \<Rightarrow> bytes option) \<Rightarrow> rewrite_io \<Rightarrow> bool \<Rightarrow> bytes \<Rightarrow> bytes option \<Rightarrow> bool \<Rightarrow> bytes \<Rightarrow>
   wal status_or option" where
  "open_replay C nonces io hwm_ok file hwm have_dek subkey =
     (case ReadAllLocked C (fresh_wal file hwm subkey) of
        None \<Rightarrow> None
      | Some (rs, w) \<Rightarrow>
          if have_dek \<and> rs = [] \<and> last_read_corrupt w then Some (Inl kCorruption)
          else
            let w = (if rs = [] then w
                     else w\<lparr>next_lsn := lsn (last rs) + 1, tip_hash := entry_hash (last rs),
                            last_checkpoint_lsn := last_checkpoint (last_checkpoint_lsn w) rs\<rparr>);
                tip_id = (if rs = [] then kInvalidLsn else lsn (last rs));
                tip = (if rs = [] then GenesisHash else entry_hash (last rs))
            in if hwm_violated hwm tip_id tip then Some (Inl kCorruption)
               else case VerifyChain C None w of
                 None \<Rightarrow> None
               | Some (vr, w) \<Rightarrow>
                   if \<not> v_ok vr then Some (Inl kCorruption)
                   else if \<not> migrated_from_v1 w then Some (Inr w)
                   else
                     let (upgraded, prev) = upgrade_v1 C GenesisHash rs
                     in case RewriteLocked C nonces io upgraded (w\<lparr>pre_migration_tip_hash := tip\<rparr>) of
                          None \<Rightarrow> None
                        | Some (Inl e, w) \<Rightarrow> Some (Inl e)
                        | Some (Inr _, w) \<Rightarrow>
                            Some (Inr (WriteHwm hwm_ok (next_lsn w - 1) prev (w\<lparr>tip_hash := prev\<rparr>))))"

definition Open ::
  "crypto \<Rightarrow> (nat \<Rightarrow> bytes option) \<Rightarrow> rewrite_io \<Rightarrow> bool \<Rightarrow> bytes option \<Rightarrow> bytes option \<Rightarrow> bytes \<Rightarrow>
   wal status_or option" where
  "Open C nonces io hwm_ok file hwm dek =
     (let file = (case file of None \<Rightarrow> [] | Some f \<Rightarrow> f)
      in case DetectMode file (dek \<noteq> []) of
           Inl e \<Rightarrow> Some (Inl e)
         | Inr _ \<Rightarrow>
             if dek \<noteq> [] \<and> length dek \<noteq> 32 then Some (Inl kInvalidArgument)
             else case (if dek = [] then Inr [] else FileSubkey C dek (bytes_of ''wal'')) of
               Inl e \<Rightarrow> Some (Inl e)
             | Inr subkey \<Rightarrow> open_replay C nonces io hwm_ok file hwm (dek \<noteq> []) subkey)"

end
