(* ===== verification/WalRecovery.thy ===== *)
theory WalRecovery
  imports Wal
begin

text \<open>
  What the ledger of \<^verbatim>\<open>Wal\<close> promises across restarts: record bodies decode to what was
  encoded, an opened log replays exactly what was acknowledged, its hash chain verifies, and a
  crash in the middle of an append costs that append only. The representation invariant is
  \<open>wal_inv\<close>: the file is a sequence of frames whose records are strictly ascending, chained from
  the genesis hash, and agree with the tip, the offset index and the high-water mark in memory.
\<close>

section \<open>Record bodies\<close>

text \<open>What a body can carry: lengths below $2^{32}$, and a transit tail only on an intent.\<close>

definition record_ok :: "WalRecord \<Rightarrow> bool" where
  "record_ok r \<longleftrightarrow>
     i64_ok (lsn r) \<and> fits (collection r) \<and> fits (rkey r) \<and> fits (document_bytes r) \<and>
     fits (key_hash r) \<and> fits (node_id (rhlc r)) \<and> fits (origin_node_id r) \<and>
     fits (origin_signature r) \<and> length (prev_hash r) = 32 \<and> length (entry_hash r) = 32 \<and>
     (if rtype r = kTransitIntent
      then fits (transit_holder r) \<and> transit_chunk_index r < transit_chunk_total r
      else transit_holder r = [] \<and> transit_size_bytes r = 0 \<and> transit_chunk_index r = 0 \<and>
           transit_chunk_total r = 1)"

lemma BuildContent_alt: "BuildContent r = put_u32 kWalRecordMagicV3 @ content_tail r @ prev_hash r"
  by (simp add: BuildContent_def BuildContentLegacy_def)

lemma get_content_tail:
  assumes "record_ok r"
  shows "get_content b (content_tail r @ rest) =
    Some (default_record\<lparr>position_bound := b, lsn := lsn r, rtype := rtype r, collection := collection r,
            rkey := rkey r, document_bytes := document_bytes r, key_hash := key_hash r, rhlc := rhlc r,
            origin_node_id := origin_node_id r\<rparr>, rest)"
  using assms by (simp add: get_content_def content_tail_def codec_simps record_ok_def)

lemma get_transit_tail_put:
  assumes "fits h" "i < n" "rtype r = kTransitIntent"
  shows "get_transit_tail r (put_bytes h @ put_u64 s @ put_u32 i @ put_u32 n) =
    Some (r\<lparr>transit_holder := h, transit_size_bytes := s, transit_chunk_index := i,
            transit_chunk_total := n\<rparr>)"
  using assms by (auto simp: get_transit_tail_def codec_simps not_le)

lemma magic_neq [simp]: "kWalRecordMagicV2 \<noteq> kWalRecordMagicV3" "kWalRecordMagicV3 \<noteq> kWalRecordMagicV2"
  by (simp_all add: kWalRecordMagicV2_def kWalRecordMagicV3_def)

lemma DecodeBody_EncodeBody:
  assumes "record_ok r"
  shows "DecodeBody (EncodeBody r) = Inr r"
proof -
  note ok = assms [unfolded record_ok_def]
  have tail: "get_transit_tail
      (default_record\<lparr>position_bound := b, lsn := lsn r, rtype := rtype r, collection := collection r,
         rkey := rkey r, document_bytes := document_bytes r, key_hash := key_hash r, rhlc := rhlc r,
         origin_node_id := origin_node_id r, origin_signature := origin_signature r,
         prev_hash := prev_hash r, entry_hash := entry_hash r\<rparr>)
      (if rtype r = kTransitIntent
       then put_bytes (transit_holder r) @ put_u64 (transit_size_bytes r) @
            put_u32 (transit_chunk_index r) @ put_u32 (transit_chunk_total r) else []) = Some r"
    if "b = position_bound r" for b
    using ok that
    by (auto simp: get_transit_tail_put)
       (auto simp: get_transit_tail_def default_record_def)
  show ?thesis
    using ok tail
    by (cases "position_bound r")
       (simp_all add: DecodeBody_def EncodeBody_def BuildContent_alt BuildContentLegacy_def
          codec_simps get_content_tail [OF assms] put_raw_def kWalHashLen_def del: WalRecord.update_convs)
qed

lemma EncodeBody_magic:
  "take 4 (EncodeBody r) = put_u32 (if position_bound r then kWalRecordMagicV3 else kWalRecordMagicV2)"
  by (simp add: EncodeBody_def BuildContent_alt BuildContentLegacy_def)

lemma length_EncodeBody: "4 \<le> length (EncodeBody r)"
  by (simp add: EncodeBody_def BuildContent_alt BuildContentLegacy_def)

lemma has_record_magic_EncodeBody: "has_record_magic (EncodeBody r)"
  using length_EncodeBody [of r]
  by (simp add: has_record_magic_def EncodeBody_magic put_u32_def le_word_le_bytes)

lemma EncodeBody_not_sealed: "\<not> LooksSealedRecord (EncodeBody r)"
proof -
  have "put_u32 kWalRecordMagicV3 \<noteq> kSealedRecordMagic" "put_u32 kWalRecordMagicV2 \<noteq> kSealedRecordMagic"
    by code_simp+
  then show ?thesis by (simp add: LooksSealedRecord_def EncodeBody_magic)
qed

section \<open>Frames\<close>

definition key_ok :: "bytes \<Rightarrow> bool" where
  "key_ok k \<longleftrightarrow> k = [] \<or> length k = 32"

definition frame_ok :: "crypto \<Rightarrow> bytes \<Rightarrow> bytes \<Rightarrow> WalRecord \<Rightarrow> bool" where
  "frame_ok C k f r \<longleftrightarrow>
     (\<exists>payload. f = frame_payload payload \<and> UnsealPayload C k payload = Some (Inr (EncodeBody r)) \<and>
        record_ok r \<and> 4 \<le> length payload \<and> length payload + 4 \<le> kMaxRecordBytes \<and>
        length (EncodeBody r) + 36 \<le> kMaxRecordBytes)"

lemma length_frame_payload [simp]: "length (frame_payload p) = length p + 8"
  by (simp add: frame_payload_def Let_def)

lemma SealPayload_ok:
  assumes "aead_laws C" "key_ok k" "length n = 12"
  shows "\<exists>p. SealPayload C k (Some n) (EncodeBody r) = Inr p \<and>
    UnsealPayload C k p = Some (Inr (EncodeBody r)) \<and> 4 \<le> length p \<and>
    length p = length (EncodeBody r) + (if k = [] then 0 else 32)"
proof (cases "k = []")
  case True
  then show ?thesis
    using length_EncodeBody [of r] by (simp add: SealPayload_def UnsealPayload_def EncodeBody_not_sealed)
next
  case False
  then have "length k = 32" using assms(2) by (simp add: key_ok_def)
  then obtain s where "SealRecord C (Some n) k (EncodeBody r) (bytes_of ''wal'') = Inr s"
    "LooksSealedRecord s" "length s = length (EncodeBody r) + 32"
    "OpenRecord C k s (bytes_of ''wal'') = Some (Inr (EncodeBody r))"
    using OpenRecord_SealRecord [OF assms(1) _ assms(3)] by blast
  with False show ?thesis by (simp add: SealPayload_def UnsealPayload_def)
qed

lemma frame_payload_header:
  assumes "length p + 4 \<le> kMaxRecordBytes"
  shows "unat (le_word (take 4 (frame_payload p @ rest)) :: u32) = length p + 4"
  using assms
  by (simp add: frame_payload_def Let_def put_u32_def le_word_le_bytes kMaxRecordBytes_def unat_of_nat_u32
      del: of_nat_add)

lemma drop_frame_payload: "drop 4 (frame_payload p @ rest) = p @ put_u32 (Crc32 p) @ rest"
  by (simp add: frame_payload_def Let_def)

lemma parse_frame_ok:
  assumes "frame_ok C k f r"
  shows "parse_frame C k (f @ rest) = FrRecord r False rest"
proof -
  obtain p where p: "f = frame_payload p" "UnsealPayload C k p = Some (Inr (EncodeBody r))"
    "record_ok r" "4 \<le> length p" "length p + 4 \<le> kMaxRecordBytes"
    using assms by (auto simp: frame_ok_def)
  then show ?thesis
    unfolding parse_frame_def p(1) frame_payload_header [OF p(5)] drop_frame_payload Let_def
    by (simp add: put_u32_def le_word_le_bytes has_record_magic_EncodeBody DecodeBody_EncodeBody)
qed

definition benign_tail :: "crypto \<Rightarrow> bytes \<Rightarrow> bytes \<Rightarrow> bool" where
  "benign_tail C k t \<longleftrightarrow> parse_frame C k t = FrEnd \<or> parse_frame C k t = FrTorn"

lemma benign_tail_Nil [simp]: "benign_tail C k []"
  by (simp add: benign_tail_def parse_frame_def)

text \<open>A frame cut short anywhere reads as a torn tail, never as corruption.\<close>

lemma benign_short_frame:
  assumes "frame_ok C k f r" "n + length x < length f" "4 \<le> n \<or> x = []"
  shows "benign_tail C k (take n f @ x)"
proof -
  obtain p where p: "f = frame_payload p" "4 \<le> length p" "length p + 4 \<le> kMaxRecordBytes"
    using assms by (auto simp: frame_ok_def)
  have "take 4 (take n f @ x) = take 4 (frame_payload p @ [])" if "4 \<le> n"
    using that p(1,2) by (simp add: min_def)
  then show ?thesis
    using p assms(2,3) frame_payload_header [OF p(3), of "[]"]
    by (cases "4 \<le> n") (auto simp: benign_tail_def parse_frame_def Let_def)
qed

lemma benign_torn_frame:
  assumes "frame_ok C k f r" "n < length f"
  shows "benign_tail C k (take n f)"
  using benign_short_frame [OF assms(1), of n "[]"] assms(2) by simp

section \<open>Replay\<close>

definition ascending :: "WalRecord list \<Rightarrow> bool" where
  "ascending rs \<longleftrightarrow> sorted_wrt (<) (map lsn rs) \<and> list_all (\<lambda>r. 0 \<le> lsn r) rs"

fun frame_offsets :: "nat \<Rightarrow> bytes list \<Rightarrow> int list" where
  "frame_offsets off [] = []"
| "frame_offsets off (f # fs) = int off # frame_offsets (off + length f) fs"

definition index_pairs :: "bytes list \<Rightarrow> WalRecord list \<Rightarrow> (int \<times> int) list" where
  "index_pairs fs rs = zip (map lsn rs) (frame_offsets 0 fs)"

lemma length_frame_offsets [simp]: "length (frame_offsets off fs) = length fs"
  by (induction fs arbitrary: off) auto

lemma frame_offsets_append:
  "frame_offsets off (fs @ gs) = frame_offsets off fs @ frame_offsets (off + length (concat fs)) gs"
  by (induction fs arbitrary: off) (auto simp: add.assoc)

lemma read_loop_frames:
  assumes "list_all2 (frame_ok C k) fs rs" "sorted_wrt (<) (map lsn rs)" "\<forall>r\<in>set rs. e \<le> lsn r" "0 \<le> e"
  shows "read_loop C k off e (concat fs @ t) =
    (case read_loop C k (off + length (concat fs)) (if rs = [] then e else lsn (last rs) + 1) t of
       None \<Rightarrow> None
     | Some (rs', c, offs, m) \<Rightarrow> Some (rs @ rs', c, zip (map lsn rs) (frame_offsets off fs) @ offs, m))"
  using assms
proof (induction fs rs arbitrary: e off rule: list_all2_induct)
  case Nil
  then show ?case by (auto split: option.splits)
next
  case (Cons f fs r rs)
  have *: "read_loop C k (off + length f) (lsn r + 1) (concat fs @ t) =
    (case read_loop C k (off + length f + length (concat fs)) (if rs = [] then lsn r + 1 else lsn (last rs) + 1) t of
       None \<Rightarrow> None
     | Some (rs', c, offs, m) \<Rightarrow> Some (rs @ rs', c, zip (map lsn rs) (frame_offsets (off + length f) fs) @ offs, m))"
    using Cons.prems by (intro Cons.IH) auto
  have "read_loop C k off e (f @ concat fs @ t) =
    (case read_loop C k (off + length f) (lsn r + 1) (concat fs @ t) of
       None \<Rightarrow> None | Some (rs, c, offs, m) \<Rightarrow> Some (r # rs, c, (lsn r, int off) # offs, m))"
    using Cons.prems(2) by (subst read_loop.simps) (auto simp: parse_frame_ok [OF Cons.hyps(1)] split: option.splits)
  then show ?case
    unfolding * by (auto simp: add.assoc split: option.splits)
qed

lemma read_loop_benign: "benign_tail C k t \<Longrightarrow> read_loop C k off e t = Some ([], False, [], False)"
  by (subst read_loop.simps) (auto simp: benign_tail_def)

lemma read_loop_log:
  assumes "list_all2 (frame_ok C k) fs rs" "ascending rs" "benign_tail C k t"
  shows "read_loop C k 0 0 (concat fs @ t) = Some (rs, False, index_pairs fs rs, False)"
  using assms
  by (simp add: read_loop_frames ascending_def list_all_iff read_loop_benign index_pairs_def)

section \<open>The offset index\<close>

definition index_ok :: "int list \<Rightarrow> (int \<times> int) list \<Rightarrow> bool" where
  "index_ok v ps \<longleftrightarrow>
     (\<forall>(l, off)\<in>set ps. 0 \<le> l \<and> 0 \<le> off \<and> nat l < length v \<and> v ! nat l = off) \<and>
     (\<forall>i<length v. v ! i \<ge> 0 \<longrightarrow> (int i, v ! i) \<in> set ps)"

lemma index_ok_Nil [simp]: "index_ok [] []"
  by (simp add: index_ok_def)

lemma set_offset_nth:
  "0 \<le> l \<Longrightarrow> i < length (set_offset l off v) \<Longrightarrow>
     set_offset l off v ! i = (if i = nat l then off else if i < length v then v ! i else - 1)"
  by (auto simp: set_offset_def Let_def nth_append)

lemma length_set_offset: "0 \<le> l \<Longrightarrow> length (set_offset l off v) = max (length v) (nat l + 1)"
  by (auto simp: set_offset_def Let_def)

lemma index_ok_snoc:
  assumes "index_ok v ps" "0 \<le> l" "0 \<le> off" "l \<notin> fst ` set ps"
  shows "index_ok (set_offset l off v) (ps @ [(l, off)])"
proof -
  have "nat l' \<noteq> nat l" if "(l', y) \<in> set ps" for l' y
    using that assms by (force simp: index_ok_def)
  then show ?thesis
    using assms by (fastforce simp: index_ok_def set_offset_nth length_set_offset)
qed

lemma index_ok_fold:
  assumes "index_ok v qs" "distinct (map fst (qs @ ps))" "\<forall>(l, off)\<in>set ps. 0 \<le> l \<and> 0 \<le> off"
  shows "index_ok (foldl (\<lambda>v p. set_offset (fst p) (snd p) v) v ps) (qs @ ps)"
  using assms
proof (induction ps arbitrary: v qs)
  case (Cons p ps)
  obtain l off where p: "p = (l, off)" by (cases p)
  have "index_ok (set_offset l off v) (qs @ [(l, off)])"
    using Cons.prems p by (intro index_ok_snoc) auto
  then have "index_ok (foldl (\<lambda>v p. set_offset (fst p) (snd p) v) (set_offset l off v) ps) ((qs @ [(l, off)]) @ ps)"
    using Cons.prems p by (intro Cons.IH) auto
  then show ?case using p by simp
qed simp

lemma set_offset_same:
  assumes "index_ok v ps" "(l, off) \<in> set ps"
  shows "set_offset l off v = v"
proof (rule nth_equalityI)
  have *: "0 \<le> l" "nat l < length v" "v ! nat l = off" using assms by (auto simp: index_ok_def)
  then show "length (set_offset l off v) = length v" by (simp add: length_set_offset)
  with * show "set_offset l off v ! i = v ! i" if "i < length (set_offset l off v)" for i
    using that by (auto simp: set_offset_nth)
qed

lemma refold_index:
  assumes "index_ok v ps" "set qs \<subseteq> set ps"
  shows "foldl (\<lambda>v p. set_offset (fst p) (snd p) v) v qs = v"
  using assms by (induction qs) (auto simp: set_offset_same)

lemma frame_offsets_nonneg: "x \<in> set (frame_offsets off fs) \<Longrightarrow> 0 \<le> x"
  by (induction fs arbitrary: off) auto

lemma index_pairs_facts:
  assumes "ascending rs" "length fs = length rs"
  shows "map fst (index_pairs fs rs) = map lsn rs" "distinct (map lsn rs)"
    "\<forall>(l, off)\<in>set (index_pairs fs rs). 0 \<le> l \<and> 0 \<le> off"
proof -
  show "map fst (index_pairs fs rs) = map lsn rs" "distinct (map lsn rs)"
    using assms by (auto simp: index_pairs_def ascending_def strict_sorted_iff)
  have "0 \<le> l" if "l \<in> set (map lsn rs)" for l
    using that assms(1) by (auto simp: ascending_def list_all_iff)
  then show "\<forall>(l, off)\<in>set (index_pairs fs rs). 0 \<le> l \<and> 0 \<le> off"
    unfolding index_pairs_def using frame_offsets_nonneg by (fastforce dest: set_zip_leftD set_zip_rightD)
qed

lemma index_ok_pairs:
  assumes "ascending rs" "length fs = length rs"
  shows "index_ok (foldl (\<lambda>v p. set_offset (fst p) (snd p) v) [] (index_pairs fs rs)) (index_pairs fs rs)"
  using index_ok_fold [of "[]" "[]" "index_pairs fs rs"] index_pairs_facts [OF assms] by simp

lemma index_pairs_fresh:
  assumes "ascending rs" "length fs = length rs" "(if rs = [] then 0 else lsn (last rs) + 1) \<le> l"
  shows "l \<notin> fst ` set (index_pairs fs rs)"
proof -
  have "fst ` set (index_pairs fs rs) = lsn ` set rs"
    using index_pairs_facts(1) [OF assms(1,2)] by (metis set_map)
  moreover have "lsn r < l" if "r \<in> set rs" for r
    using assms(1,3) that
    by (cases rs rule: rev_cases) (force simp: ascending_def sorted_wrt_append)+
  ultimately show ?thesis by force
qed

section \<open>Verification of a chain\<close>

fun chained :: "crypto \<Rightarrow> bytes \<Rightarrow> WalRecord list \<Rightarrow> bool" where
  "chained C p [] = True"
| "chained C p (r # rs) = (prev_hash r = p \<and> (bound_ok C r \<or> legacy_ok C r) \<and> chained C (entry_hash r) rs)"

definition chain_tip :: "bytes \<Rightarrow> WalRecord list \<Rightarrow> bytes" where
  "chain_tip p rs = (if rs = [] then p else entry_hash (last rs))"

definition sig_accepted :: "crypto \<Rightarrow> (bytes \<Rightarrow> bytes \<Rightarrow> bytes \<Rightarrow> bool) option \<Rightarrow> WalRecord \<Rightarrow> bool" where
  "sig_accepted C verify r =
     (origin_signature r = [] \<or> origin_node_id r = [] \<or>
      (case verify of None \<Rightarrow> True
       | Some vf \<Rightarrow> vf (origin_node_id r) (BuildContent r) (origin_signature r) \<or>
           (\<not> bound_ok C r \<and> vf (origin_node_id r) (BuildContentLegacy r) (origin_signature r))))"

lemma chained_append: "chained C p (rs @ qs) \<longleftrightarrow> chained C p rs \<and> chained C (chain_tip p rs) qs"
  by (induction rs arbitrary: p) (auto simp: chain_tip_def)

lemma verify_loop_iff:
  "v_ok res \<Longrightarrow> v_ok (verify_loop C verify p rs res) \<longleftrightarrow> chained C p rs \<and> list_all (sig_accepted C verify) rs"
  by (induction C verify p rs res rule: verify_loop.induct)
     (auto simp: Let_def sig_accepted_def split: option.splits)

lemma verify_loop_count:
  "chained C p rs \<Longrightarrow> list_all (sig_accepted C verify) rs \<Longrightarrow>
     entries_checked (verify_loop C verify p rs res) = entries_checked res + length rs"
  by (induction C verify p rs res rule: verify_loop.induct)
     (auto simp: Let_def sig_accepted_def split: option.splits)

lemma sig_accepted_None [simp]: "sig_accepted C None r"
  by (simp add: sig_accepted_def)

section \<open>The invariant\<close>

definition wal_inv :: "crypto \<Rightarrow> wal \<Rightarrow> bytes list \<Rightarrow> WalRecord list \<Rightarrow> bool" where
  "wal_inv C w fs rs \<longleftrightarrow>
     key_ok (w_subkey w) \<and> w_file w = concat fs \<and> list_all2 (frame_ok C (w_subkey w)) fs rs \<and>
     ascending rs \<and> chained C GenesisHash rs \<and>
     next_lsn w = (if rs = [] then 0 else lsn (last rs) + 1) \<and>
     tip_hash w = chain_tip GenesisHash rs \<and>
     index_ok (lsn_offsets w) (index_pairs fs rs) \<and>
     \<not> hwm_violated (w_hwm w) (next_lsn w - 1) (tip_hash w) \<and> \<not> migrated_from_v1 w"

lemma ReadAllLocked_log:
  assumes "wal_inv C w fs rs" "benign_tail C (w_subkey w) t"
  shows "ReadAllLocked C (w\<lparr>w_file := concat fs @ t\<rparr>) =
    Some (rs, w\<lparr>w_file := concat fs @ t, last_read_corrupt := False\<rparr>)"
proof -
  have inv: "list_all2 (frame_ok C (w_subkey w)) fs rs" "ascending rs"
    "index_ok (lsn_offsets w) (index_pairs fs rs)" "\<not> migrated_from_v1 w"
    using assms(1) by (simp_all add: wal_inv_def)
  show ?thesis
    using inv(4) by (simp add: ReadAllLocked_def read_loop_log [OF inv(1,2) assms(2)] refold_index [OF inv(3)])
qed

lemma wal_inv_file: "wal_inv C w fs rs \<Longrightarrow> w\<lparr>w_file := concat fs\<rparr> = w"
  by (simp add: wal_inv_def)

lemma ReadAllLocked_inv:
  assumes "wal_inv C w fs rs"
  shows "ReadAllLocked C w = Some (rs, w\<lparr>last_read_corrupt := False\<rparr>)"
proof -
  have "w = w\<lparr>w_file := concat fs @ []\<rparr>" using assms by (simp add: wal_inv_def)
  then show ?thesis using ReadAllLocked_log [OF assms benign_tail_Nil] by metis
qed

lemma wal_inv_corrupt_flag [simp]: "wal_inv C (w\<lparr>last_read_corrupt := b\<rparr>) fs rs = wal_inv C w fs rs"
  by (simp add: wal_inv_def)

lemma VerifyChain_log:
  assumes "wal_inv C w fs rs" "benign_tail C (w_subkey w) t" "list_all (sig_accepted C verify) rs"
  shows "\<exists>v. VerifyChain C verify (w\<lparr>w_file := concat fs @ t\<rparr>) =
             Some (v, w\<lparr>w_file := concat fs @ t, last_read_corrupt := False\<rparr>) \<and> v_ok v \<and>
           entries_checked v = length rs"
proof -
  have "chained C GenesisHash rs" using assms(1) by (simp add: wal_inv_def)
  then show ?thesis
    using assms(3)
    by (simp add: VerifyChain_def ReadAllLocked_log [OF assms(1,2)] verify_loop_iff verify_loop_count
        default_verify_def)
qed

lemma VerifyChain_inv:
  assumes "wal_inv C w fs rs" "list_all (sig_accepted C verify) rs"
  shows "\<exists>v. VerifyChain C verify w = Some (v, w\<lparr>last_read_corrupt := False\<rparr>) \<and> v_ok v \<and>
           entries_checked v = length rs"
proof -
  have "w\<lparr>w_file := concat fs @ []\<rparr> = w" using assms(1) by (simp add: wal_inv_def)
  then show ?thesis using VerifyChain_log [OF assms(1) benign_tail_Nil assms(2)] by metis
qed

section \<open>Appending\<close>

text \<open>What the on-disk format can carry of a request; larger fields are beyond its limits.\<close>

definition request_fits :: "crypto \<Rightarrow> wal \<Rightarrow> byte \<Rightarrow> bytes \<Rightarrow> bytes \<Rightarrow> bytes \<Rightarrow> AppendOptions \<Rightarrow> bool" where
  "request_fits C w type coll key doc opts \<longleftrightarrow>
     next_lsn w < kMaxLsn \<and>
     length (EncodeBody (append_record C w type coll key doc opts)) + 36 \<le> kMaxRecordBytes \<and>
     (type = kTransitIntent \<longrightarrow> ao_transit_chunk_index opts < ao_transit_chunk_total opts)"

lemma append_record_sel [simp]:
  "lsn (append_record C w type coll key doc opts) = next_lsn w"
  "rtype (append_record C w type coll key doc opts) = type"
  "collection (append_record C w type coll key doc opts) = coll"
  "rkey (append_record C w type coll key doc opts) = key"
  "document_bytes (append_record C w type coll key doc opts) = doc"
  "key_hash (append_record C w type coll key doc opts) = LedgerKeyHash C coll key"
  "origin_node_id (append_record C w type coll key doc opts) = w_origin_node_id w"
  "prev_hash (append_record C w type coll key doc opts) = tip_hash w"
  "position_bound (append_record C w type coll key doc opts) = True"
  by (simp_all add: append_record_def Let_def)

lemma BuildContent_seal [simp]:
  "BuildContent (r\<lparr>entry_hash := h, origin_signature := s\<rparr>) = BuildContent r"
  by (simp add: BuildContent_alt content_tail_def)

lemma append_record_hash:
  "entry_hash (append_record C w type coll key doc opts) =
     Sha256 C (BuildContent (append_record C w type coll key doc opts))"
  by (simp only: append_record_def Let_def BuildContent_seal) simp

lemma append_record_signature:
  "origin_signature (append_record C w type coll key doc opts) =
     (case w_signer w of None \<Rightarrow> []
      | Some sign \<Rightarrow> sign (BuildContent (append_record C w type coll key doc opts)))"
  by (simp only: append_record_def Let_def BuildContent_seal) simp

lemma append_record_tail:
  "type \<noteq> kTransitIntent \<Longrightarrow>
     transit_holder (append_record C w type coll key doc opts) = [] \<and>
     transit_size_bytes (append_record C w type coll key doc opts) = 0 \<and>
     transit_chunk_index (append_record C w type coll key doc opts) = 0 \<and>
     transit_chunk_total (append_record C w type coll key doc opts) = 1"
  "type = kTransitIntent \<Longrightarrow>
     transit_chunk_index (append_record C w type coll key doc opts) = ao_transit_chunk_index opts \<and>
     transit_chunk_total (append_record C w type coll key doc opts) = ao_transit_chunk_total opts"
  by (simp_all add: append_record_def Let_def default_record_def)

lemma field_lengths:
  "length (collection r) \<le> length (EncodeBody r)" "length (rkey r) \<le> length (EncodeBody r)"
  "length (document_bytes r) \<le> length (EncodeBody r)" "length (key_hash r) \<le> length (EncodeBody r)"
  "length (node_id (rhlc r)) \<le> length (EncodeBody r)" "length (origin_node_id r) \<le> length (EncodeBody r)"
  "length (origin_signature r) \<le> length (EncodeBody r)"
  "rtype r = kTransitIntent \<Longrightarrow> length (transit_holder r) \<le> length (EncodeBody r)"
  by (simp_all add: EncodeBody_def BuildContent_alt BuildContentLegacy_def content_tail_def)

lemma chain_tip_length:
  assumes "list_all2 (frame_ok C k) fs rs"
  shows "length (chain_tip GenesisHash rs) = 32"
proof (cases "rs = []")
  case False
  then have "record_ok (last rs)"
    using assms by (auto simp: list_all2_conv_all_nth frame_ok_def last_conv_nth dest!: spec [of _ "length rs - 1"])
  with False show ?thesis by (simp add: chain_tip_def record_ok_def)
qed (simp add: chain_tip_def GenesisHash_def)

lemma next_lsn_nonneg: "wal_inv C w fs rs \<Longrightarrow> 0 \<le> next_lsn w"
  by (cases rs rule: rev_cases) (auto simp: wal_inv_def ascending_def)

lemma record_ok_append:
  assumes "digest_laws C" "wal_inv C w fs rs" "request_fits C w type coll key doc opts"
  shows "record_ok (append_record C w type coll key doc opts)"
proof -
  let ?r = "append_record C w type coll key doc opts"
  have "length (EncodeBody ?r) < 2 ^ 32"
    using assms(3) by (simp add: request_fits_def kMaxRecordBytes_def)
  note bound = order.strict_trans1 [OF _ this]
  have "fits (collection ?r)" "fits (rkey ?r)" "fits (document_bytes ?r)" "fits (key_hash ?r)"
    "fits (node_id (rhlc ?r))" "fits (origin_node_id ?r)" "fits (origin_signature ?r)"
    "type = kTransitIntent \<Longrightarrow> fits (transit_holder ?r)"
    unfolding fits_def
    by (rule bound, rule field_lengths)+ simp
  moreover have "length (tip_hash w) = 32"
    using assms(2) chain_tip_length by (auto simp: wal_inv_def)
  moreover have "i64_ok (next_lsn w)"
    using next_lsn_nonneg [OF assms(2)] assms(3) by (simp add: i64_ok_def request_fits_def kMaxLsn_def)
  ultimately show ?thesis
    using assms append_record_tail [of type C w coll key doc opts]
    by (auto simp: record_ok_def append_record_hash digest_laws_def request_fits_def)
qed

lemma hwm_violated_mark:
  assumes "i64_ok tip_id" "length tip = 32"
  shows "\<not> hwm_violated (Some (put_i64 tip_id @ take 32 tip)) tip_id tip"
  using assms
  by (simp add: hwm_violated_def Let_def put_i64_def le_word_le_bytes sint_word_of_int_i64)

lemma hwm_violated_later:
  "\<not> hwm_violated hwm i h \<Longrightarrow> i < j \<Longrightarrow> \<not> hwm_violated hwm j h'"
  by (auto simp: hwm_violated_def Let_def split: option.splits)

lemma WriteHwmIfDue_sel [simp]:
  "w_file (WriteHwmIfDue ok now i h w) = w_file w" "next_lsn (WriteHwmIfDue ok now i h w) = next_lsn w"
  "lsn_offsets (WriteHwmIfDue ok now i h w) = lsn_offsets w"
  "tip_hash (WriteHwmIfDue ok now i h w) = tip_hash w" "w_subkey (WriteHwmIfDue ok now i h w) = w_subkey w"
  "w_signer (WriteHwmIfDue ok now i h w) = w_signer w"
  "w_origin_node_id (WriteHwmIfDue ok now i h w) = w_origin_node_id w"
  "migrated_from_v1 (WriteHwmIfDue ok now i h w) = migrated_from_v1 w"
  "last_checkpoint_lsn (WriteHwmIfDue ok now i h w) = last_checkpoint_lsn w"
  by (simp_all add: WriteHwmIfDue_def WriteHwm_def)

lemma hwm_after_append:
  assumes "\<not> hwm_violated (w_hwm w) i h" "i < j" "i64_ok j" "length h' = 32"
  shows "\<not> hwm_violated (w_hwm (WriteHwmIfDue ok now j h' w)) j h'"
  using hwm_violated_mark [OF assms(3,4)] hwm_violated_later [OF assms(1,2)]
  by (simp add: WriteHwmIfDue_def WriteHwm_def)

lemma list_all2_snoc: "list_all2 P xs ys \<Longrightarrow> P x y \<Longrightarrow> list_all2 P (xs @ [x]) (ys @ [y])"
  by (auto intro: list_all2_appendI)

lemma index_pairs_snoc:
  "length fs = length rs \<Longrightarrow>
     index_pairs (fs @ [f]) (rs @ [r]) = index_pairs fs rs @ [(lsn r, int (length (concat fs)))]"
  by (simp add: index_pairs_def frame_offsets_append)

lemma ascending_snoc:
  "ascending rs \<Longrightarrow> (if rs = [] then 0 else lsn (last rs) + 1) \<le> lsn r \<Longrightarrow> ascending (rs @ [r])"
proof (cases rs rule: rev_cases)
  case (snoc ys y)
  assume "ascending rs" "(if rs = [] then 0 else lsn (last rs) + 1) \<le> lsn r"
  with snoc show ?thesis
    by (force simp: ascending_def sorted_wrt_append)
qed (simp add: ascending_def)

lemma append_record_file [simp]: "append_record C (w\<lparr>w_file := x\<rparr>) = append_record C w"
  by (intro ext) (simp add: append_record_def)

lemma request_fits_file [simp]: "request_fits C (w\<lparr>w_file := x\<rparr>) = request_fits C w"
  by (intro ext) (simp add: request_fits_def)

definition frame_length :: "bytes \<Rightarrow> WalRecord \<Rightarrow> nat" where
  "frame_length k r = length (EncodeBody r) + (if k = [] then 8 else 40)"

text \<open>
  What an append does to the file, whatever the file holds beside the log's own frames: it adds
  one well-formed frame, or a part of it when the disk fails.
\<close>

lemma Append_effect:
  assumes laws: "digest_laws C" "aead_laws C"
    and inv: "wal_inv C (w\<lparr>w_file := concat fs\<rparr>) fs rs"
    and req: "request_fits C w type coll key doc opts" "length n = 12"
    and r: "r = append_record C w type coll key doc opts"
  shows "\<exists>f w'. frame_ok C (w_subkey w) f r \<and> length f = frame_length (w_subkey w) r \<and>
    Append C (Some n) IoOk hwm_ok now type coll key doc opts w = (Inr (next_lsn w), w') \<and>
    w_file w' = w_file w @ f \<and> tip_hash w' = entry_hash r \<and> next_lsn w' = next_lsn w + 1 \<and>
    lsn_offsets w' = set_offset (next_lsn w) (int (length (w_file w))) (lsn_offsets w) \<and>
    \<not> hwm_violated (w_hwm w') (next_lsn w) (entry_hash r) \<and> \<not> migrated_from_v1 w' \<and>
    w_subkey w' = w_subkey w \<and> w_signer w' = w_signer w \<and> w_origin_node_id w' = w_origin_node_id w \<and>
    (\<forall>m. Append C (Some n) (WriteFails m) hwm_ok now type coll key doc opts w =
       (Inl kIOError, w\<lparr>w_file := w_file w @ take m f\<rparr>)) \<and>
    Append C (Some n) SyncFails hwm_ok now type coll key doc opts w =
       (Inl kIOError, w\<lparr>w_file := w_file w @ f\<rparr>)"
proof -
  have key: "key_ok (w_subkey w)" and mig: "\<not> migrated_from_v1 w"
    and hwm: "\<not> hwm_violated (w_hwm w) (next_lsn w - 1) (tip_hash w)"
    using inv unfolding wal_inv_def by auto
  have rok: "record_ok r" using record_ok_append [OF laws(1) inv] req(1) r by simp
  obtain p where p: "SealPayload C (w_subkey w) (Some n) (EncodeBody r) = Inr p"
    "UnsealPayload C (w_subkey w) p = Some (Inr (EncodeBody r))" "4 \<le> length p"
    "length p = length (EncodeBody r) + (if w_subkey w = [] then 0 else 32)"
    using SealPayload_ok [OF laws(2) key req(2)] by blast
  let ?f = "frame_payload p"
  have f: "frame_ok C (w_subkey w) ?f r" "length ?f = frame_length (w_subkey w) r"
    using p rok req(1) r by (auto simp: frame_ok_def request_fits_def frame_length_def split: if_splits)
  define w0 where "w0 = w\<lparr>w_file := w_file w @ ?f, tip_hash := entry_hash r\<rparr>"
  define w1 where "w1 = (if type = kCheckpoint then w0\<lparr>last_checkpoint_lsn := next_lsn w\<rparr> else w0)
    \<lparr>lsn_offsets := set_offset (next_lsn w) (int (length (w_file w))) (lsn_offsets w),
     next_lsn := next_lsn w + 1\<rparr>"
  define w' where "w' = WriteHwmIfDue hwm_ok now (next_lsn w) (entry_hash r) w1"
  have max: "next_lsn w \<noteq> kMaxLsn" using req(1) by (simp add: request_fits_def)
  have "Append C (Some n) IoOk hwm_ok now type coll key doc opts w = (Inr (next_lsn w), w')"
    using max by (simp add: Append_def Let_def p(1) w'_def w1_def w0_def r [symmetric]) (simp add: r)
  moreover have "\<not> hwm_violated (w_hwm w') (next_lsn w) (entry_hash r)"
  proof -
    have "i64_ok (next_lsn w)" "length (entry_hash r) = 32" using rok r by (simp_all add: record_ok_def)
    moreover have "w_hwm w1 = w_hwm w" by (simp add: w1_def w0_def)
    ultimately show ?thesis
      unfolding w'_def using hwm by (intro hwm_after_append [where i = "next_lsn w - 1"]) auto
  qed
  ultimately show ?thesis
    using f mig max by (intro exI [of _ ?f] exI [of _ w'])
      (simp add: w'_def w1_def w0_def Append_def Let_def p(1) r [symmetric])
qed

text \<open>
  An acknowledged append adds exactly its record: the invariant holds with it at the end.
\<close>

lemma Append_inv:
  assumes laws: "digest_laws C" "aead_laws C"
    and inv: "wal_inv C w fs rs"
    and req: "request_fits C w type coll key doc opts" "length n = 12"
  shows "\<exists>f w'. Append C (Some n) IoOk hwm_ok now type coll key doc opts w = (Inr (next_lsn w), w') \<and>
    wal_inv C w' (fs @ [f]) (rs @ [append_record C w type coll key doc opts]) \<and>
    w_subkey w' = w_subkey w \<and> w_signer w' = w_signer w \<and> w_origin_node_id w' = w_origin_node_id w"
proof -
  let ?r = "append_record C w type coll key doc opts"
  have key: "key_ok (w_subkey w)" and tip: "tip_hash w = chain_tip GenesisHash rs"
    and fsrs: "list_all2 (frame_ok C (w_subkey w)) fs rs" and asc: "ascending rs"
    and next_eq: "next_lsn w = (if rs = [] then 0 else lsn (last rs) + 1)"
    and idx: "index_ok (lsn_offsets w) (index_pairs fs rs)" and wfile: "w_file w = concat fs"
    using inv unfolding wal_inv_def by blast+
  have "wal_inv C (w\<lparr>w_file := concat fs\<rparr>) fs rs" using inv wal_inv_file [OF inv] by simp
  then obtain f w' where f: "frame_ok C (w_subkey w) f ?r"
    and app: "Append C (Some n) IoOk hwm_ok now type coll key doc opts w = (Inr (next_lsn w), w')"
    and w': "w_file w' = w_file w @ f" "tip_hash w' = entry_hash ?r" "next_lsn w' = next_lsn w + 1"
      "lsn_offsets w' = set_offset (next_lsn w) (int (length (w_file w))) (lsn_offsets w)"
      "\<not> hwm_violated (w_hwm w') (next_lsn w) (entry_hash ?r)" "\<not> migrated_from_v1 w'"
      "w_subkey w' = w_subkey w" "w_signer w' = w_signer w" "w_origin_node_id w' = w_origin_node_id w"
    using Append_effect [OF laws _ req refl] by blast
  have asc': "ascending (rs @ [?r])" using ascending_snoc [OF asc] next_eq by simp
  have "next_lsn w \<notin> fst ` set (index_pairs fs rs)"
    using index_pairs_fresh [OF asc list_all2_lengthD [OF fsrs]] next_eq by simp
  then have "index_ok (lsn_offsets w') (index_pairs (fs @ [f]) (rs @ [?r]))"
    unfolding index_pairs_snoc [OF list_all2_lengthD [OF fsrs]] w'(4)
    using index_ok_snoc [OF idx next_lsn_nonneg [OF inv]] wfile by simp
  moreover have "chained C GenesisHash (rs @ [?r])"
    using inv tip by (simp add: wal_inv_def chained_append bound_ok_def append_record_hash)
  ultimately have "wal_inv C w' (fs @ [f]) (rs @ [?r])"
    using key list_all2_snoc [OF fsrs f] asc' w' wfile by (simp add: wal_inv_def chain_tip_def)
  then show ?thesis using app w' by blast
qed

section \<open>Opening\<close>

definition dek_ok :: "crypto \<Rightarrow> bytes \<Rightarrow> bytes \<Rightarrow> bool" where
  "dek_ok C dek k \<longleftrightarrow>
     (if dek = [] then k = []
      else length dek = 32 \<and> FileSubkey C dek (bytes_of ''wal'') = Inr k \<and> length k = 32)"

definition torn_tail :: "crypto \<Rightarrow> bytes \<Rightarrow> bytes \<Rightarrow> bool" where
  "torn_tail C k t \<longleftrightarrow> t = [] \<or> (\<exists>f r n. frame_ok C k f r \<and> n < length f \<and> t = take n f)"

lemma torn_tail_Nil [simp]: "torn_tail C k []"
  by (simp add: torn_tail_def)

lemma torn_tail_benign: "torn_tail C k t \<Longrightarrow> benign_tail C k t"
  by (auto simp: torn_tail_def benign_torn_frame)

lemma UnsealPayload_mode: "UnsealPayload C k p = Some (Inr x) \<Longrightarrow> LooksSealedRecord p \<longleftrightarrow> k \<noteq> []"
  by (auto simp: UnsealPayload_def split: if_splits)

lemma DetectMode_head:
  assumes "4 \<le> length file" "unat (le_word (take 4 file) :: u32) = n" "8 \<le> n" "n \<le> kMaxRecordBytes"
    and "h = take (min n 64) (drop 4 file)" "length h < min n 64 \<or> LooksSealedRecord h = key"
  shows "\<exists>b. DetectMode file key = Inr b"
proof -
  have "8 \<le> length h \<or> length h < min n 64" using assms(3) by linarith
  then show ?thesis
    using assms(1-4,6) unfolding DetectMode_def Let_def assms(2) assms(5) [symmetric] by auto
qed

lemma DetectMode_frame:
  assumes "frame_ok C k f r" "n < length f \<Longrightarrow> rest = []"
  shows "\<exists>b. DetectMode (take n f @ rest) (k \<noteq> []) = Inr b"
proof -
  obtain p where p: "f = frame_payload p" "UnsealPayload C k p = Some (Inr (EncodeBody r))"
    "4 \<le> length p" "length p + 4 \<le> kMaxRecordBytes"
    using assms(1) by (auto simp: frame_ok_def)
  define b where "b = take n f @ rest"
  have b: "take 8 b = take 4 (put_u32 (of_nat (length p + 4))) @ take 4 p" if "8 \<le> length b"
  proof -
    have "8 \<le> n" using that assms(2) p(1,3) by (cases "n < length f") (auto simp: b_def)
    then have "take 8 b = take 8 f" using p(1,3) by (simp add: b_def)
    also have "\<dots> = take 4 f @ take 4 (drop 4 f)" using take_add [of 4 4 f] by simp
    also have "\<dots> = take 4 (put_u32 (of_nat (length p + 4))) @ take 4 p"
      using drop_frame_payload [of p "[]"] p(1,3) by (simp add: frame_payload_def Let_def)
    finally show ?thesis .
  qed
  show ?thesis
  proof (cases "4 \<le> length b")
    case True
    then have "4 \<le> n" using assms(2) p(1,3) by (cases "n < length f") (auto simp: b_def)
    then have "take 4 b = take 4 (frame_payload p @ [])" using p(1,3) by (simp add: b_def)
    then have hdr: "unat (le_word (take 4 b) :: u32) = length p + 4"
      using frame_payload_header [OF p(4), of "[]"] by simp
    let ?h = "take (min (length p + 4) 64) (drop 4 b)"
    have "LooksSealedRecord ?h = (k \<noteq> [])" if "\<not> length ?h < min (length p + 4) 64"
    proof -
      have "8 \<le> length b" "4 \<le> length ?h" using that p(3) by (auto simp: min_def split: if_splits)
      moreover have "take 4 ?h = drop 4 (take 8 b)" using p(3) by (simp add: drop_take min_def)
      ultimately show ?thesis
        using UnsealPayload_mode [OF p(2)] p(3) b by (simp add: LooksSealedRecord_def)
    qed
    moreover have "8 \<le> length p + 4" using p(3) by simp
    ultimately show ?thesis
      unfolding b_def [symmetric] by (intro DetectMode_head [OF True hdr _ p(4) refl]) blast+
  qed (auto simp: DetectMode_def b_def)
qed

lemma DetectMode_log:
  assumes "list_all2 (frame_ok C k) fs rs" "torn_tail C k t"
  shows "\<exists>b. DetectMode (concat fs @ t) (k \<noteq> []) = Inr b"
proof (cases fs)
  case Nil
  show ?thesis
  proof (cases "t = []")
    case False
    then obtain f r n where "frame_ok C k f r" "t = take n f"
      using assms(2) by (auto simp: torn_tail_def)
    then show ?thesis using DetectMode_frame [of C k f r n "[]"] Nil by simp
  qed (auto simp: Nil DetectMode_def)
next
  case (Cons f gs)
  then obtain r where "frame_ok C k f r" using assms(1) by (auto simp: list_all2_Cons1)
  then show ?thesis using DetectMode_frame [of C k f r "length f" "concat gs @ t"] Cons by simp
qed

text \<open>Opening a log that a crash left with a torn last frame recovers all whole records.\<close>

lemma Open_log:
  assumes dek: "dek_ok C dek k"
    and log: "list_all2 (frame_ok C k) fs rs" "ascending rs" "chained C GenesisHash rs"
    and tail: "torn_tail C k t"
    and hwm: "\<not> hwm_violated hwm (if rs = [] then kInvalidLsn else lsn (last rs)) (chain_tip GenesisHash rs)"
  shows "\<exists>w. Open C nonces io hwm_ok (Some (concat fs @ t)) hwm dek = Some (Inr w) \<and>
    w_file w = concat fs @ t \<and> wal_inv C (w\<lparr>w_file := concat fs\<rparr>) fs rs \<and> w_subkey w = k \<and>
    w_origin_node_id w = [] \<and> w_signer w = None"
proof -
  let ?idx = "foldl (\<lambda>v p. set_offset (fst p) (snd p) v) [] (index_pairs fs rs)"
  define w0 where "w0 = (fresh_wal (concat fs @ t) hwm k)\<lparr>lsn_offsets := ?idx\<rparr>"
  define w1 where "w1 = (if rs = [] then w0
    else w0\<lparr>next_lsn := lsn (last rs) + 1, tip_hash := entry_hash (last rs),
            last_checkpoint_lsn := last_checkpoint (last_checkpoint_lsn w0) rs\<rparr>)"
  have k: "key_ok k" "(dek \<noteq> []) = (k \<noteq> [])" "\<not> (dek \<noteq> [] \<and> length dek \<noteq> 32)"
    "(if dek = [] then Inr [] else FileSubkey C dek (bytes_of ''wal'')) = Inr k"
    using dek by (auto simp: dek_ok_def key_ok_def split: if_splits)
  obtain b where mode: "DetectMode (concat fs @ t) (k \<noteq> []) = Inr b"
    using DetectMode_log [OF log(1) tail] by blast
  have read0: "ReadAllLocked C (fresh_wal (concat fs @ t) hwm k) = Some (rs, w0)"
    using read_loop_log [OF log(1,2) torn_tail_benign [OF tail]]
    by (simp add: ReadAllLocked_def fresh_wal_def w0_def)
  have inv: "wal_inv C (w1\<lparr>w_file := concat fs\<rparr>) fs rs"
    using k(1) log hwm index_ok_pairs [OF log(2) list_all2_lengthD [OF log(1)]]
    by (auto simp: wal_inv_def w1_def w0_def fresh_wal_def chain_tip_def kInvalidLsn_def)
  have sub: "w_subkey w1 = k" and file1: "w1\<lparr>w_file := concat fs @ t\<rparr> = w1"
    and flag: "w1\<lparr>last_read_corrupt := False\<rparr> = w1" and mig: "\<not> migrated_from_v1 w1"
    by (auto simp: w1_def w0_def fresh_wal_def)
  obtain v where v: "VerifyChain C None w1 = Some (v, w1)" "v_ok v"
    using VerifyChain_log [OF inv, of t None] torn_tail_benign [OF tail] sub file1 flag
    by (auto simp: list_all_iff)
  have "open_replay C nonces io hwm_ok (concat fs @ t) hwm (dek \<noteq> []) k = Some (Inr w1)"
  proof -
    have "\<not> last_read_corrupt w0" by (simp add: w0_def fresh_wal_def)
    then show ?thesis
      unfolding open_replay_def read0 option.case prod.case
      unfolding Let_def w1_def [symmetric] v(1) option.case prod.case
      using hwm v(2) mig by (simp add: chain_tip_def)
  qed
  then have "Open C nonces io hwm_ok (Some (concat fs @ t)) hwm dek = Some (Inr w1)"
    unfolding Open_def Let_def option.case k(4) sum.case using mode k(2,3) by simp
  moreover have "w_file w1 = concat fs @ t" "w_origin_node_id w1 = []" "w_signer w1 = None"
    by (simp_all add: w1_def w0_def fresh_wal_def)
  ultimately show ?thesis using inv sub by blast
qed

section \<open>Sequences of appends\<close>

record append_req =
  q_nonce :: bytes
  q_type :: byte
  q_coll :: bytes
  q_key :: bytes
  q_doc :: bytes
  q_opts :: AppendOptions
  q_now :: int
  q_hwm_ok :: bool

definition append_one :: "crypto \<Rightarrow> append_io \<Rightarrow> append_req \<Rightarrow> wal \<Rightarrow> int status_or \<times> wal" where
  "append_one C io q =
     Append C (Some (q_nonce q)) io (q_hwm_ok q) (q_now q) (q_type q) (q_coll q) (q_key q) (q_doc q) (q_opts q)"

definition req_record :: "crypto \<Rightarrow> wal \<Rightarrow> append_req \<Rightarrow> WalRecord" where
  "req_record C w q = append_record C w (q_type q) (q_coll q) (q_key q) (q_doc q) (q_opts q)"

definition req_fits :: "crypto \<Rightarrow> wal \<Rightarrow> append_req \<Rightarrow> bool" where
  "req_fits C w q \<longleftrightarrow>
     request_fits C w (q_type q) (q_coll q) (q_key q) (q_doc q) (q_opts q) \<and> length (q_nonce q) = 12"

fun append_all :: "crypto \<Rightarrow> append_req list \<Rightarrow> wal \<Rightarrow> int status_or list \<times> wal" where
  "append_all C [] w = ([], w)"
| "append_all C (q # qs) w =
     (let (s, w) = append_one C IoOk q w; (ss, w) = append_all C qs w in (s # ss, w))"

fun reqs_fit :: "crypto \<Rightarrow> wal \<Rightarrow> append_req list \<Rightarrow> bool" where
  "reqs_fit C w [] = True"
| "reqs_fit C w (q # qs) = (req_fits C w q \<and> reqs_fit C (snd (append_one C IoOk q w)) qs)"

definition req_data :: "append_req \<Rightarrow> byte \<times> bytes \<times> bytes \<times> bytes" where
  "req_data q = (q_type q, q_coll q, q_key q, q_doc q)"

definition record_data :: "WalRecord \<Rightarrow> byte \<times> bytes \<times> bytes \<times> bytes" where
  "record_data r = (rtype r, collection r, rkey r, document_bytes r)"

lemma append_one_effect:
  assumes "digest_laws C" "aead_laws C" "wal_inv C (w\<lparr>w_file := concat fs\<rparr>) fs rs" "req_fits C w q"
  shows "\<exists>f w'. frame_ok C (w_subkey w) f (req_record C w q) \<and>
    length f = frame_length (w_subkey w) (req_record C w q) \<and>
    append_one C IoOk q w = (Inr (next_lsn w), w') \<and> w_file w' = w_file w @ f \<and>
    lsn_offsets w' = set_offset (next_lsn w) (int (length (w_file w))) (lsn_offsets w) \<and>
    \<not> migrated_from_v1 w' \<and> w_subkey w' = w_subkey w \<and>
    (\<forall>m. append_one C (WriteFails m) q w = (Inl kIOError, w\<lparr>w_file := w_file w @ take m f\<rparr>)) \<and>
    append_one C SyncFails q w = (Inl kIOError, w\<lparr>w_file := w_file w @ f\<rparr>)"
  using Append_effect [OF assms(1-3) _ _ refl, of "q_type q" "q_coll q" "q_key q" "q_doc q" "q_opts q"
      "q_nonce q" "q_hwm_ok q" "q_now q"] assms(4)
  unfolding append_one_def req_record_def req_fits_def by blast

lemma append_one_inv:
  assumes "digest_laws C" "aead_laws C" "wal_inv C w fs rs" "req_fits C w q"
  shows "\<exists>f w'. append_one C IoOk q w = (Inr (next_lsn w), w') \<and>
    wal_inv C w' (fs @ [f]) (rs @ [req_record C w q]) \<and>
    w_subkey w' = w_subkey w \<and> w_signer w' = w_signer w \<and> w_origin_node_id w' = w_origin_node_id w"
  using Append_inv [OF assms(1-3)] assms(4)
  unfolding append_one_def req_record_def req_fits_def by blast

lemma req_record_sel [simp]:
  "lsn (req_record C w q) = next_lsn w" "record_data (req_record C w q) = req_data q"
  by (simp_all add: req_record_def record_data_def req_data_def)

lemma req_record_signed:
  "w_signer w = Some sign \<Longrightarrow> \<forall>m. vf (w_origin_node_id w) m (sign m) \<Longrightarrow>
     sig_accepted C (Some vf) (req_record C w q)"
  by (simp add: sig_accepted_def req_record_def append_record_signature)

lemma append_all_inv:
  assumes "digest_laws C" "aead_laws C" "wal_inv C w fs rs" "reqs_fit C w qs"
    and "w_signer w = Some sign" "\<forall>m. vf (w_origin_node_id w) m (sign m)"
  shows "\<exists>fs' rs' w'. append_all C qs w = (map (\<lambda>i. Inr (next_lsn w + int i)) [0..<length qs], w') \<and>
    wal_inv C w' (fs @ fs') (rs @ rs') \<and> map record_data rs' = map req_data qs \<and>
    map lsn rs' = map (\<lambda>i. next_lsn w + int i) [0..<length qs] \<and>
    list_all (sig_accepted C (Some vf)) rs' \<and> w_subkey w' = w_subkey w"
  using assms(3-)
proof (induction qs arbitrary: w fs rs)
  case Nil
  then show ?case by (intro exI [of _ "[]"]) simp
next
  case (Cons q qs)
  obtain f w1 where w1: "append_one C IoOk q w = (Inr (next_lsn w), w1)"
    "wal_inv C w1 (fs @ [f]) (rs @ [req_record C w q])" "w_subkey w1 = w_subkey w"
    "w_signer w1 = w_signer w" "w_origin_node_id w1 = w_origin_node_id w"
    using append_one_inv [OF assms(1,2) Cons.prems(1), of q] Cons.prems(2) by (auto simp del: wal_inv_corrupt_flag)
  have next1: "next_lsn w1 = next_lsn w + 1" using w1(2) by (simp add: wal_inv_def)
  obtain fs' rs' w' where IH:
    "append_all C qs w1 = (map (\<lambda>i. Inr (next_lsn w1 + int i)) [0..<length qs], w')"
    "wal_inv C w' ((fs @ [f]) @ fs') ((rs @ [req_record C w q]) @ rs')" "map record_data rs' = map req_data qs"
    "map lsn rs' = map (\<lambda>i. next_lsn w1 + int i) [0..<length qs]"
    "list_all (sig_accepted C (Some vf)) rs'" "w_subkey w' = w_subkey w1"
    using Cons.IH [OF w1(2)] Cons.prems(2-) w1 by auto
  have shift: "map (\<lambda>i. g (next_lsn w + int i)) [0..<Suc n] =
      g (next_lsn w) # map (\<lambda>i. g (next_lsn w1 + int i)) [0..<n]" for n and g :: "int \<Rightarrow> 'z"
    by (simp add: map_upt_Suc next1 add.assoc del: upt_Suc)
  show ?case
    using IH w1(1,3) Cons.prems shift [of "Inr :: int \<Rightarrow> int status_or"] shift [of "\<lambda>x. x"]
    by (intro exI [of _ "f # fs'"] exI [of _ "req_record C w q # rs'"] exI [of _ w'])
       (simp add: req_record_signed del: upt_Suc)
qed

lemma Open_reopen:
  assumes "wal_inv C w fs rs" "dek_ok C dek (w_subkey w)" "torn_tail C (w_subkey w) t"
  shows "\<exists>w2. Open C nonces io hwm_ok (Some (concat fs @ t)) (w_hwm w) dek = Some (Inr w2) \<and>
    w_file w2 = concat fs @ t \<and> wal_inv C (w2\<lparr>w_file := concat fs\<rparr>) fs rs \<and> Tip w2 = Tip w \<and>
    w_subkey w2 = w_subkey w \<and> w_origin_node_id w2 = [] \<and> w_signer w2 = None \<and>
    ReadAll C w2 = Some (rs, w2\<lparr>last_read_corrupt := False\<rparr>)"
proof -
  have w: "list_all2 (frame_ok C (w_subkey w)) fs rs" "ascending rs" "chained C GenesisHash rs"
    "next_lsn w = (if rs = [] then 0 else lsn (last rs) + 1)" "tip_hash w = chain_tip GenesisHash rs"
    "\<not> hwm_violated (w_hwm w) (next_lsn w - 1) (tip_hash w)"
    using assms(1) unfolding wal_inv_def by blast+
  have "\<not> hwm_violated (w_hwm w) (if rs = [] then kInvalidLsn else lsn (last rs)) (chain_tip GenesisHash rs)"
    using w(4-6) by (simp add: kInvalidLsn_def split: if_splits)
  then obtain w2 where w2: "Open C nonces io hwm_ok (Some (concat fs @ t)) (w_hwm w) dek = Some (Inr w2)"
    "w_file w2 = concat fs @ t" "wal_inv C (w2\<lparr>w_file := concat fs\<rparr>) fs rs" "w_subkey w2 = w_subkey w"
    "w_origin_node_id w2 = []" "w_signer w2 = None"
    using Open_log [OF assms(2) w(1-3) assms(3)] by blast
  have "w2\<lparr>w_file := concat fs @ t\<rparr> = w2" using w2(2) by simp
  then have "ReadAll C w2 = Some (rs, w2\<lparr>last_read_corrupt := False\<rparr>)"
    using ReadAllLocked_log [OF w2(3), of t] torn_tail_benign [OF assms(3)] w2(4) by (simp add: ReadAll_def)
  moreover have "Tip w2 = Tip w" using w2(3) w(4,5) by (simp add: Tip_def wal_inv_def)
  ultimately show ?thesis using w2 by blast
qed

lemma wal_inv_SetOrigin [simp]: "wal_inv C (SetOrigin nid sg w) fs rs = wal_inv C w fs rs"
  by (simp add: wal_inv_def SetOrigin_def)

lemma Open_fresh:
  assumes "dek_ok C dek k" "Open C nonces io hwm_ok None None dek = Some (Inr w)"
  shows "wal_inv C w [] [] \<and> w_subkey w = k"
proof -
  have "Open C nonces io hwm_ok None None dek = Open C nonces io hwm_ok (Some (concat [] @ [])) None dek"
    by (simp add: Open_def)
  moreover have "torn_tail C k []" by (simp add: torn_tail_def)
  ultimately show ?thesis
    using Open_log [OF assms(1), of "[]" "[]" "[]" None nonces io hwm_ok] assms(2) wal_inv_file
    by (auto simp: ascending_def hwm_violated_def wal_inv_def)
qed

text \<open>A log with bytes that are present but bad does not open.\<close>

lemma open_replay_corrupt:
  assumes "read_loop C k 0 0 file = Some (rs, True, offs, m)"
  shows "open_replay C nonces io hwm_ok file hwm have_dek k = Some (Inl kCorruption)"
proof -
  have "\<exists>v w'. VerifyChain C None w = Some (v, w') \<and> \<not> v_ok v" if "w_file w = file" "w_subkey w = k" for w
    using assms that by (simp add: VerifyChain_def ReadAllLocked_def)
  then have *: "(case VerifyChain C None w of None \<Rightarrow> None
      | Some (vr, w) \<Rightarrow> if \<not> v_ok vr then Some (Inl kCorruption) else h vr w) = Some (Inl kCorruption)"
    if "w_file w = file" "w_subkey w = k" for w and h :: "VerifyResult \<Rightarrow> wal \<Rightarrow> wal status_or option"
    using that by fastforce
  show ?thesis
    unfolding open_replay_def using assms
    by (simp add: ReadAllLocked_def fresh_wal_def Let_def *)
qed

lemma list_all2_snoc2:
  "list_all2 P xs ys \<Longrightarrow> P x y \<Longrightarrow> P x' y' \<Longrightarrow> list_all2 P (xs @ [x, x']) (ys @ [y, y'])"
  by (auto intro: list_all2_appendI)

lemma Open_duplicate_lsn:
  assumes "dek_ok C dek k" "list_all2 (frame_ok C k) fs rs" "ascending (rs @ [r])" "frame_ok C k f r"
    and "frame_ok C k f' r'" "lsn r' = lsn r"
  shows "Open C nonces io hwm_ok (Some (concat fs @ f @ f')) hwm dek = Some (Inl kCorruption)"
proof -
  have fs': "list_all2 (frame_ok C k) (fs @ [f]) (rs @ [r])"
    using list_all2_snoc [OF assms(2,4)] .
  have asc: "sorted_wrt (<) (map lsn (rs @ [r]))" "\<forall>r\<in>set (rs @ [r]). 0 \<le> lsn r"
    using assms(3) by (auto simp: ascending_def list_all_iff)
  have "read_loop C k off (lsn r + 1) f' = Some ([], True, [], False)" for off
    using parse_frame_ok [OF assms(5), of "[]"] assms(6) asc(2)
    by (subst read_loop.simps) simp
  then have "read_loop C k 0 0 (concat (fs @ [f]) @ f') =
      Some (rs @ [r], True, zip (map lsn (rs @ [r])) (frame_offsets 0 (fs @ [f])), False)"
    using read_loop_frames [OF fs' asc, of 0 f'] by (simp del: concat_append)
  then have "open_replay C nonces io hwm_ok (concat fs @ f @ f') hwm (dek \<noteq> []) k = Some (Inl kCorruption)"
    using open_replay_corrupt by simp
  moreover obtain b where "DetectMode (concat (fs @ [f, f']) @ []) (k \<noteq> []) = Inr b"
    using DetectMode_log [OF list_all2_snoc2 [OF assms(2,4,5)] torn_tail_Nil] by blast
  moreover have "(dek \<noteq> []) = (k \<noteq> [])" "\<not> (dek \<noteq> [] \<and> length dek \<noteq> 32)"
    "(if dek = [] then Inr [] else FileSubkey C dek (bytes_of ''wal'')) = Inr k"
    using assms(1) by (auto simp: dek_ok_def split: if_splits)
  ultimately show ?thesis unfolding Open_def Let_def option.case by simp
qed

lemma append_one_duplicate:
  assumes "digest_laws C" "aead_laws C" "wal_inv C w fs rs" "dek_ok C dek (w_subkey w)"
    and "req_fits C w q" "req_fits C w q'"
    and "append_one C SyncFails q w = (s1, w1)" "append_one C IoOk q' w1 = (s2, w2)"
  shows "s1 = Inl kIOError \<and> s2 = Inr (next_lsn w) \<and>
    Open C nonces io hwm_ok (Some (w_file w2)) hwm dek = Some (Inl kCorruption)"
proof -
  have inv: "wal_inv C (w\<lparr>w_file := concat fs\<rparr>) fs rs" "w_file w = concat fs"
    using assms(3) wal_inv_file [OF assms(3)] by (simp, simp add: wal_inv_def)
  obtain f where f: "frame_ok C (w_subkey w) f (req_record C w q)"
    "append_one C SyncFails q w = (Inl kIOError, w\<lparr>w_file := w_file w @ f\<rparr>)"
    using append_one_effect [OF assms(1,2) inv(1) assms(5)] by blast
  have w1: "w1 = w\<lparr>w_file := w_file w @ f\<rparr>" "s1 = Inl kIOError" using f(2) assms(7) by simp_all
  have "req_fits C w1 q'" using assms(6) by (simp add: w1 req_fits_def)
  moreover have "wal_inv C (w1\<lparr>w_file := concat fs\<rparr>) fs rs" using inv(1) by (simp add: w1)
  ultimately obtain f' where f': "frame_ok C (w_subkey w) f' (req_record C w1 q')"
    "s2 = Inr (next_lsn w)" "w_file w2 = w_file w1 @ f'"
    using append_one_effect [where w = w1 and q = q', OF assms(1,2)] assms(8) w1(1) by fastforce
  have "list_all2 (frame_ok C (w_subkey w)) fs rs" "ascending (rs @ [req_record C w q])"
    using assms(3) ascending_snoc by (auto simp: wal_inv_def)
  then show ?thesis
    using Open_duplicate_lsn [OF assms(4) _ _ f(1) f'(1)] w1 f' inv(2) by simp
qed

section \<open>A concrete ledger\<close>

lemma length_append_body:
  assumes "digest_laws C" "length (tip_hash w) = 32"
  shows "length (EncodeBody (append_record C w type coll key doc opts)) =
    181 + length coll + length key + length doc + length (w_origin_node_id w) +
    length (if node_id (ao_hlc opts) = [] then w_origin_node_id w else node_id (ao_hlc opts)) +
    length (origin_signature (append_record C w type coll key doc opts)) +
    (if type = kTransitIntent then 20 + length (ao_transit_holder opts) else 0)"
proof -
  let ?r = "append_record C w type coll key doc opts"
  have "type = kTransitIntent \<Longrightarrow> transit_holder ?r = ao_transit_holder opts"
    by (simp add: append_record_def Let_def)
  moreover have "rhlc ?r = (if node_id (ao_hlc opts) = []
      then HLC (physical_ms (ao_hlc opts)) (logical (ao_hlc opts)) (w_origin_node_id w) else ao_hlc opts)"
    by (simp add: append_record_def Let_def)
  ultimately show ?thesis
    using assms
    by (simp add: EncodeBody_def BuildContent_alt content_tail_def put_raw_def append_record_hash
        digest_laws_def LedgerKeyHash_def)
qed

definition ex_treq :: "byte \<Rightarrow> nat \<Rightarrow> append_req" where
  "ex_treq type n = \<lparr>q_nonce = replicate 12 9, q_type = type, q_coll = bytes_of ''c'', q_key = bytes_of ''k'',
     q_doc = replicate n 1, q_opts = default_options, q_now = 0, q_hwm_ok = True\<rparr>"

definition ex_req :: "nat \<Rightarrow> append_req" where
  "ex_req n = ex_treq kPut n"

definition ex_key :: bytes where
  "ex_key = replicate 32 7"

definition ex_wal :: wal where
  "ex_wal = fresh_wal [] None ex_key"

lemma ex_dek: "dek_ok ex_crypto ex_key ex_key"
  by (simp add: dek_ok_def ex_key_def FileSubkey_def kDekLen_def ex_crypto_def)

lemma ex_wal_inv: "wal_inv ex_crypto ex_wal [] []"
  by (simp add: wal_inv_def ex_wal_def fresh_wal_def ex_key_def key_ok_def ascending_def chain_tip_def
      index_pairs_def hwm_violated_def)

lemma ex_wal_sel [simp]: "w_subkey ex_wal = ex_key" "next_lsn ex_wal = 0"
  by (simp_all add: ex_wal_def fresh_wal_def)

lemma wal_inv_tip_length: "wal_inv C w fs rs \<Longrightarrow> length (tip_hash w) = 32"
  using chain_tip_length by (auto simp: wal_inv_def)

lemma ex_treq_fits:
  assumes "wal_inv ex_crypto w fs rs" "next_lsn w < 1000" "n \<le> 1000" "w_origin_node_id w = []"
    and "w_signer w = None \<or> w_signer w = Some (\<lambda>_. [])"
  shows "req_fits ex_crypto w (ex_treq type n)"
    "frame_length ex_key (req_record ex_crypto w (ex_treq type n)) =
       223 + n + (if type = kTransitIntent then 20 else 0)"
proof -
  have "origin_signature (append_record ex_crypto w type coll key doc opts) = []" for type coll key doc opts
    using assms(5) by (auto simp: append_record_signature)
  then show "req_fits ex_crypto w (ex_treq type n)"
    "frame_length ex_key (req_record ex_crypto w (ex_treq type n)) =
       223 + n + (if type = kTransitIntent then 20 else 0)"
    using assms length_append_body [OF ex_crypto_laws(2) wal_inv_tip_length [OF assms(1)]]
    by (simp_all add: req_fits_def request_fits_def ex_treq_def kMaxLsn_def kMaxRecordBytes_def
        default_options_def bytes_of_def req_record_def frame_length_def ex_key_def)
qed

lemma ex_req_fits:
  assumes "wal_inv ex_crypto w fs rs" "next_lsn w < 1000" "n \<le> 1000" "w_origin_node_id w = []"
    and "w_signer w = None \<or> w_signer w = Some (\<lambda>_. [])"
  shows "req_fits ex_crypto w (ex_req n)"
    "frame_length ex_key (req_record ex_crypto w (ex_req n)) = 223 + n"
  using ex_treq_fits [OF assms, of kPut] by (simp_all add: ex_req_def kPut_def kTransitIntent_def)

lemma ex_append:
  assumes "wal_inv ex_crypto w fs rs" "next_lsn w < 1000" "n \<le> 1000" "w_origin_node_id w = []" "w_signer w = None"
  shows "\<exists>f w'. append_one ex_crypto IoOk (ex_treq type n) w = (Inr (next_lsn w), w') \<and>
    wal_inv ex_crypto w' (fs @ [f]) (rs @ [req_record ex_crypto w (ex_treq type n)]) \<and>
    next_lsn w' = next_lsn w + 1 \<and> w_subkey w' = w_subkey w \<and> w_origin_node_id w' = [] \<and> w_signer w' = None"
proof -
  have "req_fits ex_crypto w (ex_treq type n)" using ex_treq_fits(1) assms by blast
  from append_one_inv [OF ex_crypto_laws(2,1) assms(1) this] assms(4,5) show ?thesis
    by (force simp: wal_inv_def)
qed

lemma ex_reqs_fit:
  assumes "wal_inv ex_crypto w fs rs" "next_lsn w + int (length ns) < 1000" "list_all (\<lambda>n. n \<le> 1000) ns"
    and "w_origin_node_id w = []" "w_signer w = None \<or> w_signer w = Some (\<lambda>_. [])"
  shows "reqs_fit ex_crypto w (map ex_req ns)"
  using assms
proof (induction ns arbitrary: w fs rs)
  case (Cons n ns)
  have fit: "req_fits ex_crypto w (ex_req n)" using Cons.prems by (intro ex_req_fits) auto
  obtain f w' where w': "append_one ex_crypto IoOk (ex_req n) w = (Inr (next_lsn w), w')"
    "wal_inv ex_crypto w' (fs @ [f]) (rs @ [req_record ex_crypto w (ex_req n)])"
    "w_signer w' = w_signer w" "w_origin_node_id w' = w_origin_node_id w"
    using append_one_inv [OF ex_crypto_laws(2,1) Cons.prems(1) fit] by blast
  moreover have "next_lsn w' = next_lsn w + 1" using w'(2) by (simp add: wal_inv_def)
  ultimately have "reqs_fit ex_crypto w' (map ex_req ns)"
    using Cons.prems by (intro Cons.IH [OF w'(2)]) auto
  then show ?case using fit w'(1) by simp
qed simp

lemma ex_open:
  "\<exists>w. Open ex_crypto (\<lambda>_. None) RwOk True None None ex_key = Some (Inr w) \<and> wal_inv ex_crypto w [] []"
proof -
  have "Open ex_crypto (\<lambda>_. None) RwOk True None None ex_key =
      Open ex_crypto (\<lambda>_. None) RwOk True (Some (concat [] @ [])) (w_hwm ex_wal) ex_key"
    by (simp add: Open_def ex_wal_def fresh_wal_def)
  then obtain w where "Open ex_crypto (\<lambda>_. None) RwOk True None None ex_key = Some (Inr w)"
    using Open_reopen [OF ex_wal_inv, of ex_key "[]" "\<lambda>_. None" RwOk True] ex_dek by auto
  with Open_fresh [OF ex_dek] show ?thesis by blast
qed

lemma ex_reopen_torn:
  assumes "m < 223 + n" "n \<le> 1000" "n' \<le> 1000"
  shows "\<exists>w2. Open ex_crypto (\<lambda>_. None) RwOk True
      (Some (w_file (snd (append_one ex_crypto (WriteFails m) (ex_req n) ex_wal))))
      (w_hwm (snd (append_one ex_crypto (WriteFails m) (ex_req n) ex_wal))) ex_key = Some (Inr w2) \<and>
    req_fits ex_crypto w2 (ex_req n') \<and> frame_length ex_key (req_record ex_crypto w2 (ex_req n')) = 223 + n'"
proof -
  have fits: "req_fits ex_crypto ex_wal (ex_req n)"
    "frame_length ex_key (req_record ex_crypto ex_wal (ex_req n)) = 223 + n"
    using ex_req_fits [OF ex_wal_inv, of n] assms(2) by (auto simp: ex_wal_def fresh_wal_def)
  obtain f where f: "frame_ok ex_crypto ex_key f (req_record ex_crypto ex_wal (ex_req n))"
    "length f = 223 + n"
    "append_one ex_crypto (WriteFails m) (ex_req n) ex_wal = (Inl kIOError, ex_wal\<lparr>w_file := w_file ex_wal @ take m f\<rparr>)"
    using append_one_effect [OF ex_crypto_laws(2,1) _ fits(1), of "[]" "[]"] ex_wal_inv
      wal_inv_file [OF ex_wal_inv] fits(2) by fastforce
  have "torn_tail ex_crypto ex_key (take m f)"
    unfolding torn_tail_def using f(1,2) assms(1) by metis
  then obtain w2 where w2:
    "Open ex_crypto (\<lambda>_. None) RwOk True (Some (concat [] @ take m f)) (w_hwm ex_wal) ex_key = Some (Inr w2)"
    "wal_inv ex_crypto (w2\<lparr>w_file := concat []\<rparr>) [] []" "w_origin_node_id w2 = []" "w_signer w2 = None"
    using Open_reopen [OF ex_wal_inv, of ex_key "take m f" "\<lambda>_. None" RwOk True] ex_dek by auto
  have "req_fits ex_crypto (w2\<lparr>w_file := concat []\<rparr>) (ex_req n')"
    "frame_length ex_key (req_record ex_crypto (w2\<lparr>w_file := concat []\<rparr>) (ex_req n')) = 223 + n'"
    using ex_req_fits [OF w2(2), of n'] assms(3) w2(2-) by (auto simp: wal_inv_def)
  then show ?thesis
    using w2(1) f(3) by (simp add: ex_wal_def fresh_wal_def req_fits_def req_record_def)
qed

section \<open>Properties\<close>





text \<open>
  C32: the torn tail a crash leaves is not removed on the next open, and the next append is
  written after it. If that record ends before the torn frame was to end, the acknowledged write
  is invisible: a replay takes all of it for the torn tail and reports no corruption.
\<close>

theorem append_after_torn_tail_is_lost:
  assumes "digest_laws C" "aead_laws C" "wal_inv C w fs rs" "dek_ok C dek (w_subkey w)" "req_fits C w q"
    and "4 \<le> m" "append_one C (WriteFails m) q w = (s, w1)"
    and "Open C nonces io hwm_ok (Some (w_file w1)) (w_hwm w1) dek = Some (Inr w2)"
    and "req_fits C w2 q'" "append_one C IoOk q' w2 = (s', w3)"
    and "m + frame_length (w_subkey w) (req_record C w2 q') < frame_length (w_subkey w) (req_record C w q)"
  shows "s' = Inr (next_lsn w) \<and> ReadAll C w3 = Some (rs, w3\<lparr>last_read_corrupt := False\<rparr>)"
proof -
  have inv: "wal_inv C (w\<lparr>w_file := concat fs\<rparr>) fs rs" "w_file w = concat fs"
    using assms(3) wal_inv_file [OF assms(3)] by (simp, simp add: wal_inv_def)
  then obtain f where f: "frame_ok C (w_subkey w) f (req_record C w q)"
    "length f = frame_length (w_subkey w) (req_record C w q)"
    "append_one C (WriteFails m) q w = (Inl kIOError, w\<lparr>w_file := w_file w @ take m f\<rparr>)"
    using append_one_effect [OF assms(1,2) _ assms(5)] by blast
  have w1: "w_file w1 = concat fs @ take m f" "w_hwm w1 = w_hwm w"
    using f(3) assms(7) inv(2) by auto
  have "m < length f" using f(2) assms(11) by linarith
  then have "torn_tail C (w_subkey w) (take m f)"
    unfolding torn_tail_def using f(1) by blast
  then have w2: "w_file w2 = concat fs @ take m f" "wal_inv C (w2\<lparr>w_file := concat fs\<rparr>) fs rs"
    "Tip w2 = Tip w" "w_subkey w2 = w_subkey w"
    using Open_reopen [OF assms(3,4), of "take m f" nonces io hwm_ok] w1 assms(8) by auto
  then obtain f' where f': "s' = Inr (next_lsn w2)" "length f' = frame_length (w_subkey w) (req_record C w2 q')"
    "w_file w3 = w_file w2 @ f'" "\<not> migrated_from_v1 w3" "w_subkey w3 = w_subkey w2"
    "lsn_offsets w3 = set_offset (next_lsn w2) (int (length (w_file w2))) (lsn_offsets w2)"
    using append_one_effect [OF assms(1,2) w2(2) assms(9)] assms(10) by auto
  have log: "list_all2 (frame_ok C (w_subkey w)) fs rs" "ascending rs"
    "index_ok (lsn_offsets w2) (index_pairs fs rs)" and next_eq: "next_lsn w2 = (if rs = [] then 0 else lsn (last rs) + 1)"
    using w2(2,4) by (simp_all add: wal_inv_def)
  have "benign_tail C (w_subkey w) (take m f @ f')"
    using benign_short_frame [OF f(1), of m f'] f(2) f'(2) assms(6,11) by simp
  then have "read_loop C (w_subkey w) 0 0 (w_file w3) = Some (rs, False, index_pairs fs rs, False)"
    using read_loop_log [OF log(1,2)] w2(1) f'(3) by simp
  moreover have "foldl (\<lambda>v p. set_offset (fst p) (snd p) v) (lsn_offsets w3) (index_pairs fs rs) = lsn_offsets w3"
  proof (rule refold_index)
    have "next_lsn w2 \<notin> fst ` set (index_pairs fs rs)"
      using index_pairs_fresh [OF log(2) list_all2_lengthD [OF log(1)]] next_eq by simp
    then show "index_ok (lsn_offsets w3) (index_pairs fs rs @ [(next_lsn w2, int (length (w_file w2)))])"
      unfolding f'(6) using index_ok_snoc [OF log(3)] next_lsn_nonneg [OF w2(2)] by simp
  qed auto
  ultimately show ?thesis
    using f' w2 by (simp add: ReadAll_def ReadAllLocked_def Tip_def)
qed

theorem append_after_torn_tail_is_lost_witness:
  "\<exists>w2 w3. Open ex_crypto (\<lambda>_. None) RwOk True
      (Some (w_file (snd (append_one ex_crypto (WriteFails 100) (ex_req 700) ex_wal))))
      (w_hwm (snd (append_one ex_crypto (WriteFails 100) (ex_req 700) ex_wal))) ex_key = Some (Inr w2) \<and>
    append_one ex_crypto IoOk (ex_req 7) w2 = (Inr 0, w3) \<and>
    ReadAll ex_crypto w3 = Some ([], w3\<lparr>last_read_corrupt := False\<rparr>)"
proof -
  let ?q = "ex_req 700" and ?w1 = "snd (append_one ex_crypto (WriteFails 100) (ex_req 700) ex_wal)"
  have fits: "req_fits ex_crypto ex_wal ?q"
    "frame_length ex_key (req_record ex_crypto ex_wal ?q) = 923"
    using ex_req_fits [OF ex_wal_inv, of 700] by (auto simp: ex_wal_def fresh_wal_def)
  obtain w2 where w2: "Open ex_crypto (\<lambda>_. None) RwOk True (Some (w_file ?w1)) (w_hwm ?w1) ex_key = Some (Inr w2)"
    "req_fits ex_crypto w2 (ex_req 7)" "frame_length ex_key (req_record ex_crypto w2 (ex_req 7)) = 230"
    using ex_reopen_torn [of 100 700 7] by auto
  have "fst (append_one ex_crypto IoOk (ex_req 7) w2) = Inr (next_lsn ex_wal) \<and>
      ReadAll ex_crypto (snd (append_one ex_crypto IoOk (ex_req 7) w2)) =
        Some ([], (snd (append_one ex_crypto IoOk (ex_req 7) w2))\<lparr>last_read_corrupt := False\<rparr>)"
    using fits w2 ex_dek
    by (intro append_after_torn_tail_is_lost
        [where m = 100 and s = "fst (append_one ex_crypto (WriteFails 100) ?q ex_wal)", OF ex_crypto_laws(2,1) ex_wal_inv _ fits(1) _ _ w2(1) w2(2)]) simp_all
  with w2(1) show ?thesis by (metis prod.collapse ex_wal_sel(2))
qed

text \<open>
  C33: when the sync of an append fails, its frame stays in the file although the write was
  refused, and the next acknowledged append reuses the sequence number: the ledger then never
  opens again.
\<close>

theorem append_after_failed_sync_bricks_ledger:
  assumes "digest_laws C" "aead_laws C" "wal_inv C w fs rs" "dek_ok C dek (w_subkey w)"
    and "req_fits C w q" "req_fits C w q'"
    and "append_one C SyncFails q w = (s, w1)" "append_one C IoOk q' w1 = (s', w2)"
  shows "s = Inl kIOError \<and> s' = Inr (next_lsn w) \<and>
    Open C nonces io hwm_ok (Some (w_file w2)) (w_hwm w2) dek = Some (Inl kCorruption)"
  by (rule append_one_duplicate [OF assms])

theorem append_after_failed_sync_bricks_ledger_witness:
  "let (s, w1) = append_one ex_crypto SyncFails (ex_req 7) ex_wal;
       (s', w2) = append_one ex_crypto IoOk (ex_req 8) w1
   in s = Inl kIOError \<and> s' = Inr 0 \<and>
      Open ex_crypto (\<lambda>_. None) RwOk True (Some (w_file w2)) (w_hwm w2) ex_key = Some (Inl kCorruption)"
proof -
  let ?a = "append_one ex_crypto SyncFails (ex_req 7) ex_wal"
  let ?b = "append_one ex_crypto IoOk (ex_req 8) (snd ?a)"
  have "req_fits ex_crypto ex_wal (ex_req 7)" "req_fits ex_crypto ex_wal (ex_req 8)"
    using ex_req_fits [OF ex_wal_inv] by (auto simp: ex_wal_def fresh_wal_def)
  then have "fst ?a = Inl kIOError \<and> fst ?b = Inr (next_lsn ex_wal) \<and>
      Open ex_crypto (\<lambda>_. None) RwOk True (Some (w_file (snd ?b))) (w_hwm (snd ?b)) ex_key = Some (Inl kCorruption)"
    using ex_dek
    by (intro append_after_failed_sync_bricks_ledger [OF ex_crypto_laws(2,1) ex_wal_inv]) simp_all
  then show ?thesis by (simp add: Let_def case_prod_beta)
qed

end
