(* ===== verification/WalChain.thy ===== *)
theory WalChain
  imports WalRecovery
begin

text \<open>
  What the hash chain of the ledger is for, and what the maintenance operations do to it: two
  ledger files that both verify and end in the same hash hold the same history unless the digest
  collides on their records; the indexed range read agrees with a full scan; pruning keeps every
  record that is not a settled transit entry and leaves a ledger that verifies and reopens.
\<close>

section \<open>What a replay can return\<close>

lemma get_bytes_fits: "get_bytes bs = Some (x, r) \<Longrightarrow> fits x"
proof -
  have "unat (n :: u32) < 2 ^ 32" for n using unsigned_less [of n] by simp
  then show "get_bytes bs = Some (x, r) \<Longrightarrow> fits x"
    by (auto simp: get_bytes_def get_raw_def fits_def bind_eq_Some_conv split: if_splits)
qed

lemma get_i64_range: "get_i64 bs = Some (x, r) \<Longrightarrow> i64_ok x"
proof -
  have "- (2 ^ 63) \<le> sint n \<and> sint n < 2 ^ 63" for n :: u64
    using sint_greater_eq [of n] sint_less [of n] by simp
  then show "get_i64 bs = Some (x, r) \<Longrightarrow> i64_ok x"
    by (auto simp: get_i64_def i64_ok_def bind_eq_Some_conv)
qed

lemma get_raw_length: "get_raw n bs = Some (x, r) \<Longrightarrow> length x = n"
  by (auto simp: get_raw_def split: if_splits)

lemmas get_facts = get_bytes_fits get_i64_range get_raw_length

lemma get_content_ok:
  assumes "get_content b bs = Some (r, rest)"
  shows "i64_ok (lsn r) \<and> fits (collection r) \<and> fits (rkey r) \<and> fits (document_bytes r) \<and>
    fits (key_hash r) \<and> fits (node_id (rhlc r)) \<and> fits (origin_node_id r) \<and>
    transit_holder r = [] \<and> transit_size_bytes r = 0 \<and> transit_chunk_index r = 0 \<and> transit_chunk_total r = 1"
  using assms
  by (auto simp: get_content_def bind_eq_Some_conv default_record_def dest: get_facts)

lemma get_transit_tail_ok:
  assumes "get_transit_tail r bs = Some r'"
    and "transit_holder r = [] \<and> transit_size_bytes r = 0 \<and> transit_chunk_index r = 0 \<and> transit_chunk_total r = 1"
  shows "\<exists>h s i n. r' = r\<lparr>transit_holder := h, transit_size_bytes := s, transit_chunk_index := i,
      transit_chunk_total := n\<rparr> \<and>
    (if rtype r = kTransitIntent then fits h \<and> i < n else h = [] \<and> s = 0 \<and> i = 0 \<and> n = 1)"
proof (cases "bs = []")
  case True
  then show ?thesis using assms
    by (intro exI [of _ "[]"] exI [of _ 0] exI [of _ 1]) (auto simp: get_transit_tail_def fits_def)
next
  case False
  then show ?thesis
    using assms(1)
    by (auto simp: get_transit_tail_def bind_eq_Some_conv not_le split: if_splits)
       (blast dest: get_bytes_fits)
qed

lemma DecodeBody_ok:
  assumes "DecodeBody b = Inr r"
  shows "record_ok r"
proof -
  obtain bound bs1 r0 bs2 cp bs3 sig bs4 prev bs5 eh bs6 where d:
    "get_content bound bs1 = Some (r0, bs2)" "get_bytes bs3 = Some (sig, bs4)"
    "get_raw 32 bs4 = Some (prev, bs5)" "get_raw 32 bs5 = Some (eh, bs6)"
    "get_transit_tail (r0\<lparr>origin_signature := sig, prev_hash := prev, entry_hash := eh\<rparr>) bs6 = Some r"
    using assms
    by (auto simp: DecodeBody_def bind_eq_Some_conv Let_def kWalHashLen_def
        split: option.splits if_splits)
  from d(2-4) have "fits sig" "length prev = 32" "length eh = 32" by (auto dest: get_facts)
  then show ?thesis
    using get_content_ok [OF d(1)] get_transit_tail_ok [OF d(5)] by (auto simp: record_ok_def)
qed

lemma DecodeBodyV1_ok:
  assumes "digest_laws C" "DecodeBodyV1 C b = Inr r"
  shows "record_ok r"
  using assms
  by (auto simp: DecodeBodyV1_def bind_eq_Some_conv kWalHashLen_def record_ok_def default_record_def
      digest_laws_def LedgerKeyHash_def fits_def [of "Sha256 _ _"] fits_def [of "[]"]
      dest: get_facts split: option.splits if_splits)

lemma parse_frame_record_ok:
  assumes "digest_laws C" "parse_frame C k bs = FrRecord r v1 rest"
  shows "record_ok r"
  using assms
  by (auto simp: parse_frame_def Let_def split: if_splits option.splits sum.splits
      dest: DecodeBody_ok DecodeBodyV1_ok [OF assms(1)])

lemma read_loop_record:
  assumes "parse_frame C k bs = FrRecord r v1 rest"
  shows "read_loop C k off e bs =
    (if 0 \<le> lsn r \<and> lsn r < e then Some ([], True, [], v1)
     else case read_loop C k (off + (length bs - length rest)) (if lsn r \<ge> e then lsn r + 1 else e) rest of
       None \<Rightarrow> None | Some (rs, c, offs, m) \<Rightarrow> Some (r # rs, c, (lsn r, int off) # offs, v1 \<or> m))"
  using assms by (subst read_loop.simps) simp

lemma read_loop_record_ok:
  "digest_laws C \<Longrightarrow> read_loop C k off e bs = Some (rs, c, offs, m) \<Longrightarrow> list_all record_ok rs"
proof (induction C k off e bs arbitrary: rs c offs m rule: read_loop.induct)
  case (1 C k off e bs)
  show ?case
  proof (cases "parse_frame C k bs")
    case (FrRecord r v1 rest)
    then show ?thesis
      using 1 parse_frame_record_ok [OF "1.prems"(1) FrRecord]
      by (auto simp: read_loop_record [OF FrRecord] split: if_splits option.splits)
  qed (use "1.prems"(2) in \<open>simp_all add: read_loop.simps [of C k off e bs]\<close>)
qed

section \<open>Tamper evidence\<close>

text \<open>The bytes the entry hash of a verified record is computed over.\<close>

definition hashed_content :: "crypto \<Rightarrow> WalRecord \<Rightarrow> bytes" where
  "hashed_content C r = (if bound_ok C r then BuildContent r else BuildContentLegacy r @ prev_hash r)"

text \<open>What the chain attests of a record: all but the signature and the unsigned transit tail.\<close>

definition attested :: "WalRecord \<Rightarrow> int \<times> byte \<times> bytes \<times> bytes \<times> bytes \<times> bytes \<times> hlc \<times> bytes \<times> bytes" where
  "attested r = (lsn r, rtype r, collection r, rkey r, document_bytes r, key_hash r, rhlc r,
                 origin_node_id r, prev_hash r)"

lemma entry_hash_hashed: "bound_ok C r \<or> legacy_ok C r \<Longrightarrow> entry_hash r = Sha256 C (hashed_content C r)"
  by (auto simp: hashed_content_def bound_ok_def legacy_ok_def)

lemma content_tail_inj:
  assumes "record_ok r" "record_ok r'" "content_tail r @ x = content_tail r' @ x'"
  shows "x = x' \<and> lsn r = lsn r' \<and> rtype r = rtype r' \<and> collection r = collection r' \<and> rkey r = rkey r' \<and>
    document_bytes r = document_bytes r' \<and> key_hash r = key_hash r' \<and> rhlc r = rhlc r' \<and>
    origin_node_id r = origin_node_id r'"
proof -
  let ?h = "\<lambda>r. default_record\<lparr>position_bound := True, lsn := lsn r, rtype := rtype r, collection := collection r,
            rkey := rkey r, document_bytes := document_bytes r, key_hash := key_hash r, rhlc := rhlc r,
            origin_node_id := origin_node_id r\<rparr>"
  have "Some (?h r, x) = Some (?h r', x')"
    using get_content_tail [OF assms(1), of True x] get_content_tail [OF assms(2), of True x'] assms(3)
    by simp
  then show ?thesis by (simp add: default_record_def)
qed

lemma hashed_content_inj:
  assumes "record_ok r" "record_ok r'" "hashed_content C r = hashed_content C r'"
  shows "attested r = attested r'"
proof -
  have alt: "hashed_content C r = put_u32 (if bound_ok C r then kWalRecordMagicV3 else kWalRecordMagicV2) @
      content_tail r @ prev_hash r" for r
    by (simp add: hashed_content_def BuildContent_alt BuildContentLegacy_def)
  have "drop 4 (hashed_content C r) = drop 4 (hashed_content C r')" using assms(3) by simp
  then have "content_tail r @ prev_hash r = content_tail r' @ prev_hash r'" by (simp add: alt)
  then show ?thesis using content_tail_inj [OF assms(1,2)] by (simp add: attested_def)
qed

lemma chained_snoc:
  "chained C p (rs @ [r]) \<longleftrightarrow>
     chained C p rs \<and> prev_hash r = chain_tip p rs \<and> (bound_ok C r \<or> legacy_ok C r)"
  by (auto simp: chained_append)

lemma chain_tip_snoc [simp]: "chain_tip p (rs @ [r]) = entry_hash r"
  by (simp add: chain_tip_def)

lemma chain_determined:
  assumes "chained C G rs" "chained C G rs'" "chain_tip G rs = chain_tip G rs'"
    and "list_all record_ok rs" "list_all record_ok rs'"
    and "inj_on (Sha256 C) (hashed_content C ` (set rs \<union> set rs'))"
    and "G \<notin> Sha256 C ` hashed_content C ` (set rs \<union> set rs')"
  shows "map attested rs = map attested rs'"
  using assms
proof (induction rs arbitrary: rs' rule: rev_induct)
  case Nil
  show ?case
  proof (cases rs' rule: rev_cases)
    case (snoc qs q)
    then have "G = Sha256 C (hashed_content C q)"
      using Nil.prems(2,3) entry_hash_hashed [of C q] by (auto simp: chained_snoc chain_tip_def)
    then show ?thesis using Nil.prems(7) snoc by auto
  qed simp
next
  case (snoc r rs)
  have r: "entry_hash r = Sha256 C (hashed_content C r)" "prev_hash r = chain_tip G rs" "chained C G rs"
    using snoc.prems(1) entry_hash_hashed [of C r] by (auto simp: chained_snoc)
  obtain qs q where rs': "rs' = qs @ [q]"
    using r snoc.prems(3,7) by (cases rs' rule: rev_cases) (auto simp: chain_tip_def)
  have q: "entry_hash q = Sha256 C (hashed_content C q)" "prev_hash q = chain_tip G qs" "chained C G qs"
    using snoc.prems(2) entry_hash_hashed [of C q] by (auto simp: chained_snoc rs')
  have "Sha256 C (hashed_content C r) = Sha256 C (hashed_content C q)"
    using snoc.prems(3) r q by (simp add: rs')
  then have "hashed_content C r = hashed_content C q"
    by (rule inj_onD [OF snoc.prems(6)]) (auto simp: rs')
  then have eq: "attested r = attested q"
    using hashed_content_inj snoc.prems(4,5) by (auto simp: rs')
  then have "chain_tip G rs = chain_tip G qs" using r(2) q(2) by (simp add: attested_def)
  then have "map attested rs = map attested qs"
    using snoc.prems r(3) q(3)
    by (intro snoc.IH) (auto simp: rs' intro: inj_on_subset)
  with eq show ?case by (simp add: rs')
qed

lemma VerifyChain_chained:
  assumes "digest_laws C" "VerifyChain C v w = Some (res, w1)" "v_ok res" "ReadAll C w = Some (rs, w2)"
  shows "chained C GenesisHash rs \<and> list_all record_ok rs"
proof -
  obtain offs c m where rd: "read_loop C (w_subkey w) 0 0 (w_file w) = Some (rs, c, offs, m)"
    using assms(4) by (auto simp: ReadAll_def ReadAllLocked_def split: option.splits)
  have "\<not> c" using assms(2,3) rd by (auto simp: VerifyChain_def ReadAllLocked_def split: if_splits)
  then have "v_ok (verify_loop C v GenesisHash rs default_verify)"
    using assms(2,3) rd by (auto simp: VerifyChain_def ReadAllLocked_def)
  then show ?thesis
    using verify_loop_iff [of default_verify] read_loop_record_ok [OF assms(1) rd]
    by (simp add: default_verify_def)
qed

section \<open>Range reads\<close>

lemma range_loop_frames:
  assumes "list_all2 (frame_ok C k) fs rs" "sorted_wrt (<) (map lsn rs)"
  shows "range_loop C k from to (concat fs) = Some (filter (\<lambda>r. from \<le> lsn r \<and> lsn r \<le> to) rs)"
  using assms
proof (induction fs rs rule: list_all2_induct)
  case Nil
  then show ?case by (subst range_loop.simps) (simp add: parse_frame_def)
next
  case (Cons f fs r rs)
  have "filter (\<lambda>r. from \<le> lsn r \<and> lsn r \<le> to) rs = []" if "lsn r > to"
    using Cons.prems that by (force simp: filter_empty_conv)
  then show ?case
    using Cons by (subst range_loop.simps) (auto simp: parse_frame_ok)
qed

lemma frame_offsets_nth:
  "j < length fs \<Longrightarrow> frame_offsets off fs ! j = int (off + length (concat (take j fs)))"
proof (induction fs arbitrary: off j)
  case (Cons f fs)
  then show ?case by (cases j) auto
qed simp

lemma drop_concat_take: "drop (length (concat (take j fs))) (concat fs) = concat (drop j fs)"
  by (metis append_eq_conv_conj append_take_drop_id concat_append)

lemma index_pairs_nth:
  assumes "(l, off) \<in> set (index_pairs fs rs)" "length fs = length rs"
  shows "\<exists>j<length rs. lsn (rs ! j) = l \<and> off = int (length (concat (take j fs)))"
  using assms by (auto simp: index_pairs_def in_set_zip frame_offsets_nth)

lemma index_pairs_lsn:
  assumes "r \<in> set rs" "length fs = length rs"
  shows "\<exists>off. (lsn r, off) \<in> set (index_pairs fs rs)"
proof -
  obtain i where i: "i < length rs" "r = rs ! i" using assms(1) by (auto simp: in_set_conv_nth)
  then have "index_pairs fs rs ! i = (lsn r, frame_offsets 0 fs ! i)" "i < length (index_pairs fs rs)"
    using assms(2) by (simp_all add: index_pairs_def)
  then show ?thesis by (metis nth_mem)
qed

lemma find_upt:
  assumes "find P [a..<b] = Some i"
  shows "a \<le> i \<and> i < b \<and> P i \<and> (\<forall>m. a \<le> m \<and> m < i \<longrightarrow> \<not> P m)"
proof -
  obtain n where n: "n < b - a" "P (a + n)" "i = a + n" "\<forall>m<n. \<not> P ([a..<b] ! m)"
    using assms by (auto simp: find_Some_iff)
  have "\<not> P m" if "a \<le> m" "m < i" for m
    using n(4) [rule_format, of "m - a"] that n(1,3) by simp
  with n show ?thesis by auto
qed

lemma range_before_seek:
  assumes "sorted_wrt (<) (map lsn rs)" "\<forall>r\<in>set rs. 0 \<le> lsn r" "index_ok v (index_pairs fs rs)"
    and "length fs = length rs" "j < length rs" "lsn (rs ! j) = int i"
    and "\<forall>m. a \<le> m \<and> m < i \<longrightarrow> \<not> v ! m \<ge> 0"
  shows "filter (\<lambda>r. int a \<le> lsn r \<and> lsn r \<le> to) rs = filter (\<lambda>r. int a \<le> lsn r \<and> lsn r \<le> to) (drop j rs)"
proof -
  have "\<not> int a \<le> lsn r" if r: "r \<in> set (take j rs)" for r
  proof
    assume P: "int a \<le> lsn r"
    obtain m where m: "m < j" "r = rs ! m" using r by (auto simp: in_set_conv_nth)
    have "lsn (rs ! m) < lsn (rs ! j)"
      using assms(1,5) m(1) by (simp add: sorted_wrt_iff_nth_less)
    moreover have "0 \<le> lsn r" using assms(2) in_set_takeD [OF r] by blast
    ultimately have "nat (lsn r) < i" unfolding m(2) assms(6) by linarith
    moreover obtain off where "(lsn r, off) \<in> set (index_pairs fs rs)"
      using index_pairs_lsn [OF in_set_takeD [OF r] assms(4)] by blast
    then have "v ! nat (lsn r) \<ge> 0" using assms(3) unfolding index_ok_def by fastforce
    moreover have "a \<le> nat (lsn r)" using P by simp
    ultimately show False using assms(7) by blast
  qed
  then have "filter (\<lambda>r. int a \<le> lsn r \<and> lsn r \<le> to) (take j rs) = []" by (simp add: filter_empty_conv)
  then show ?thesis
    using filter_append [of "\<lambda>r. int a \<le> lsn r \<and> lsn r \<le> to" "take j rs" "drop j rs"] by simp
qed

lemma range_seek:
  assumes "list_all2 (frame_ok C k) fs rs" "sorted_wrt (<) (map lsn rs)" "\<forall>r\<in>set rs. 0 \<le> lsn r"
    and "index_ok v (index_pairs fs rs)" "length fs = length rs"
  shows "range_loop C k (int a) to
      (if first_offset v a b < 0 then concat fs else drop (nat (first_offset v a b)) (concat fs)) =
    Some (filter (\<lambda>r. int a \<le> lsn r \<and> lsn r \<le> to) rs)"
proof (cases "find (\<lambda>i. v ! i \<ge> 0) [a ..< min (b + 1) (length v)]")
  case None
  then show ?thesis using range_loop_frames [OF assms(1,2)] by (simp add: first_offset_def)
next
  case (Some i)
  note i = find_upt [OF Some]
  then have "i < length v" "v ! i \<ge> 0" by simp_all
  then have "(int i, v ! i) \<in> set (index_pairs fs rs)" using assms(4) by (simp add: index_ok_def)
  then obtain j where j: "j < length rs" "lsn (rs ! j) = int i" "v ! i = int (length (concat (take j fs)))"
    using index_pairs_nth [OF _ assms(5)] by blast
  have "sorted_wrt (<) (map lsn (drop j rs))"
    using assms(2) by (metis drop_map sorted_wrt_drop)
  then have "range_loop C k (int a) to (concat (drop j fs)) =
      Some (filter (\<lambda>r. int a \<le> lsn r \<and> lsn r \<le> to) (drop j rs))"
    using range_loop_frames list_all2_dropI [OF assms(1)] by blast
  also have "\<dots> = Some (filter (\<lambda>r. int a \<le> lsn r \<and> lsn r \<le> to) rs)"
    using range_before_seek [OF assms(2-5) j(1,2)] i by simp
  finally show ?thesis
    using Some j(3) by (simp add: first_offset_def drop_concat_take)
qed

lemma ReadRange_inv:
  assumes inv: "wal_inv C w fs rs"
  shows "ReadRange C w from to = Some (filter (\<lambda>r. from \<le> lsn r \<and> lsn r \<le> to) rs)"
proof -
  have log: "list_all2 (frame_ok C (w_subkey w)) fs rs" "sorted_wrt (<) (map lsn rs)" "\<forall>r\<in>set rs. 0 \<le> lsn r"
    "index_ok (lsn_offsets w) (index_pairs fs rs)" "length fs = length rs" and wfile: "w_file w = concat fs"
    using inv by (auto simp: wal_inv_def ascending_def list_all_iff dest: list_all2_lengthD)
  define a where "a = nat from"
  have lo: "(if from < 0 then 0 else from) = int a" by (simp add: a_def)
  have clamp: "filter (\<lambda>r. from \<le> lsn r \<and> lsn r \<le> to) rs = filter (\<lambda>r. int a \<le> lsn r \<and> lsn r \<le> to) rs"
    using log(3) by (intro filter_cong) (auto simp: a_def)
  have pos: "rs = [] \<or> 0 < next_lsn w"
    using inv log(3) by (cases rs rule: rev_cases) (auto simp: wal_inv_def)
  have none: "filter (\<lambda>r. int a \<le> lsn r \<and> lsn r \<le> to) rs = []" if "to < 0 \<or> next_lsn w \<le> 0 \<or> int a > to"
    using that pos log(3) by (auto simp: filter_empty_conv)
  show ?thesis
    unfolding ReadRange_def Let_def lo clamp nat_int wfile
    using range_seek [OF log, of a to "nat to"] none by simp
qed

section \<open>Pruning\<close>

text \<open>A record without its place in the chain.\<close>

definition unlinked :: "WalRecord \<Rightarrow> WalRecord" where
  "unlinked r = r\<lparr>prev_hash := [], entry_hash := [], origin_signature := []\<rparr>"

text \<open>A transit entry below the checkpoint with a claim for its key below it too.\<close>

definition settled :: "int \<Rightarrow> WalRecord list \<Rightarrow> WalRecord \<Rightarrow> bool" where
  "settled cp rs r \<longleftrightarrow>
     lsn r \<le> cp \<and> IsTransit r \<and>
     (\<exists>c\<in>set rs. rtype c = kTransitClaimed \<and> lsn c \<le> cp \<and> key_hash c = key_hash r)"

lemma takeWhile_ascending:
  "sorted_wrt (<) (map lsn rs) \<Longrightarrow> takeWhile (\<lambda>r. \<not> lsn r > cp) rs = filter (\<lambda>r. lsn r \<le> cp) rs"
proof (induction rs)
  case (Cons r rs)
  have "filter (\<lambda>r. lsn r \<le> cp) rs = []" if "lsn r > cp"
    using Cons.prems that by (force simp: filter_empty_conv)
  with Cons show ?case by auto
qed simp

lemma droppable_settled: "ascending rs \<Longrightarrow> droppable cp rs r = settled cp rs r"
  by (auto simp: droppable_def settled_def claimed_below_def ascending_def takeWhile_ascending image_iff)

lemma rechain_facts:
  assumes "digest_laws C" "rechain C p rs = (rs', tip)" "length p = 32" "list_all record_ok rs"
  shows "chained C p rs' \<and> tip = chain_tip p rs' \<and> map unlinked rs' = map unlinked rs \<and> length tip = 32 \<and>
    list_all record_ok rs' \<and> list_all2 (\<lambda>r' r. length (EncodeBody r') \<le> length (EncodeBody r)) rs' rs"
  using assms(2-)
proof (induction rs arbitrary: p rs' tip)
  case (Cons r rs)
  let ?r0 = "r\<lparr>prev_hash := p\<rparr>"
  let ?r = "?r0\<lparr>entry_hash := (if position_bound r then Sha256 C (BuildContent ?r0)
       else Sha256 C (BuildContentLegacy ?r0 @ p)), origin_signature := []\<rparr>"
  obtain qs where qs: "rechain C (entry_hash ?r) rs = (qs, tip)" "rs' = ?r # qs"
    using Cons.prems(1) by (auto simp: Let_def split: prod.splits)
  have len: "length (entry_hash ?r) = 32" using assms(1) by (simp add: digest_laws_def)
  have "list_all record_ok rs" using Cons.prems(3) by simp
  note IH = Cons.IH [OF qs(1) len this]
  have legacy: "BuildContentLegacy (r\<lparr>prev_hash := a, entry_hash := b, origin_signature := c\<rparr>) = BuildContentLegacy r"
    "BuildContentLegacy (r\<lparr>prev_hash := a\<rparr>) = BuildContentLegacy r" for a b c
    by (simp_all add: BuildContentLegacy_def content_tail_def)
  have "bound_ok C ?r \<or> legacy_ok C ?r"
    by (auto simp: bound_ok_def legacy_ok_def legacy)
  moreover have "record_ok ?r"
    using Cons.prems(2,3) len by (auto simp: record_ok_def fits_def split: if_splits)
  moreover have "length (EncodeBody ?r) \<le> length (EncodeBody r)"
    using Cons.prems(2,3) len
    by (simp add: EncodeBody_def BuildContent_alt BuildContentLegacy_def content_tail_def put_raw_def
        record_ok_def)
  ultimately show ?case
    using IH qs(2) by (auto simp: unlinked_def chain_tip_def)
qed (simp add: chain_tip_def)

lemma encode_frames_ok:
  assumes "aead_laws C" "key_ok k" "\<forall>i. \<exists>n. nonces i = Some n \<and> length n = 12"
    and "list_all (\<lambda>r. record_ok r \<and> length (EncodeBody r) + 36 \<le> kMaxRecordBytes) rs"
  shows "\<exists>fs. encode_frames C k nonces i rs = Inr (concat fs) \<and> list_all2 (frame_ok C k) fs rs"
  using assms(4)
proof (induction rs arbitrary: i)
  case Nil
  then show ?case by (intro exI [of _ "[]"]) simp
next
  case (Cons r rs)
  obtain n where n: "nonces i = Some n" "length n = 12" using assms(3) by blast
  obtain p where p: "SealPayload C k (Some n) (EncodeBody r) = Inr p"
    "UnsealPayload C k p = Some (Inr (EncodeBody r))" "4 \<le> length p"
    "length p = length (EncodeBody r) + (if k = [] then 0 else 32)"
    using SealPayload_ok [OF assms(1,2) n(2)] by blast
  have "frame_ok C k (frame_payload p) r"
    using p Cons.prems by (auto simp: frame_ok_def split: if_splits)
  moreover obtain fs where "encode_frames C k nonces (Suc i) rs = Inr (concat fs)" "list_all2 (frame_ok C k) fs rs"
    using Cons by auto
  ultimately show ?case
    using n p(1) by (intro exI [of _ "frame_payload p # fs"]) simp
qed

lemma WriteHwm_sel [simp]:
  "w_file (WriteHwm ok i h w) = w_file w" "next_lsn (WriteHwm ok i h w) = next_lsn w"
  "lsn_offsets (WriteHwm ok i h w) = lsn_offsets w" "tip_hash (WriteHwm ok i h w) = tip_hash w"
  "w_subkey (WriteHwm ok i h w) = w_subkey w" "migrated_from_v1 (WriteHwm ok i h w) = migrated_from_v1 w"
  by (simp_all add: WriteHwm_def)

lemma map_unlinked_lsn: "map unlinked rs = map unlinked rs' \<Longrightarrow> map lsn rs = map lsn rs'"
proof -
  have "lsn r = lsn (unlinked r)" for r by (simp add: unlinked_def)
  then show "map unlinked rs = map unlinked rs' \<Longrightarrow> map lsn rs = map lsn rs'"
    by (metis (no_types, lifting) map_eq_conv map_map comp_apply)
qed

lemma ascending_lsn: "map lsn rs = map lsn rs' \<Longrightarrow> ascending rs' \<Longrightarrow> ascending rs"
  by (metis (no_types, lifting) ascending_def list.pred_map comp_def list.pred_cong)

lemma Prune_inv:
  assumes laws: "digest_laws C" "aead_laws C" and inv: "wal_inv C w fs rs"
    and nonces: "\<forall>i. \<exists>n. nonces i = Some n \<and> length n = 12"
  shows "\<exists>res w' fs' rs'. Prune C nonces RwOk True cp w = Some (Inr res, w') \<and> wal_inv C w' fs' rs' \<and>
    map unlinked rs' = map unlinked (filter (\<lambda>r. \<not> settled cp rs r) rs) \<and>
    dropped res = length (filter (settled cp rs) rs) \<and> new_tip_hash res = tip_hash w' \<and> w_subkey w' = w_subkey w"
proof -
  let ?k = "w_subkey w" and ?w = "w\<lparr>last_read_corrupt := False\<rparr>"
  have asc: "ascending rs" and fsrs: "list_all2 (frame_ok C ?k) fs rs" and key: "key_ok ?k"
    and mig: "\<not> migrated_from_v1 w" using inv by (auto simp: wal_inv_def)
  have drop_eq: "droppable cp rs = settled cp rs" using droppable_settled [OF asc] by blast
  show ?thesis
  proof (cases "filter (settled cp rs) rs = []")
    case True
    then have "filter (\<lambda>r. \<not> settled cp rs r) rs = rs" by (simp add: filter_empty_conv filter_id_conv)
    then show ?thesis
      using True inv by (simp add: Prune_def ReadAllLocked_inv [OF inv] Let_def drop_eq) fastforce
  next
    case False
    define kept where "kept = filter (\<lambda>r. \<not> settled cp rs r) rs"
    have ok: "list_all (\<lambda>r. record_ok r \<and> length (EncodeBody r) + 36 \<le> kMaxRecordBytes) rs"
      using fsrs by (auto simp: list_all2_conv_all_nth list_all_length frame_ok_def)
    then have okk: "list_all (\<lambda>r. record_ok r \<and> length (EncodeBody r) + 36 \<le> kMaxRecordBytes) kept"
      by (auto simp: kept_def list_all_iff)
    obtain rs' tip where rc: "rechain C GenesisHash kept = (rs', tip)" by fastforce
    have facts: "chained C GenesisHash rs'" "tip = chain_tip GenesisHash rs'" "map unlinked rs' = map unlinked kept"
      "length tip = 32" "list_all record_ok rs'"
      "list_all2 (\<lambda>r' r. length (EncodeBody r') \<le> length (EncodeBody r)) rs' kept"
      using rechain_facts [OF laws(1) rc] okk by (auto simp: GenesisHash_def list_all_iff)
    have "list_all (\<lambda>r. record_ok r \<and> length (EncodeBody r) + 36 \<le> kMaxRecordBytes) rs'"
      using facts(5,6) okk by (fastforce simp: list_all2_conv_all_nth list_all_length)
    then obtain fs' where fs': "encode_frames C ?k nonces 0 rs' = Inr (concat fs')" "list_all2 (frame_ok C ?k) fs' rs'"
      using encode_frames_ok [OF laws(2) key nonces] by blast
    have "ascending kept"
      using asc by (auto simp: kept_def ascending_def list_all_iff sorted_wrt_map sorted_wrt_filter)
    then have asc': "ascending rs'" using ascending_lsn [OF map_unlinked_lsn [OF facts(3)]] by simp
    let ?idx = "foldl (\<lambda>v p. set_offset (fst p) (snd p) v) [] (index_pairs fs' rs')"
    have read: "ReadAllLocked C (?w\<lparr>w_file := concat fs', lsn_offsets := []\<rparr>) =
        Some (rs', ?w\<lparr>w_file := concat fs', lsn_offsets := ?idx\<rparr>)"
      using read_loop_log [OF fs'(2) asc' benign_tail_Nil] mig by (simp add: ReadAllLocked_def)
    define n where "n = (if rs' = [] then 0 else lsn (last rs') + 1)"
    define w2 where "w2 = WriteHwm True (n - 1) tip (?w\<lparr>w_file := concat fs', lsn_offsets := ?idx,
        tip_hash := tip, next_lsn := n\<rparr>)"
    define w' where "w' = w2\<lparr>last_checkpoint_lsn := last_checkpoint kInvalidLsn rs'\<rparr>"
    have "i64_ok (n - 1)"
      using facts(5) by (cases rs' rule: rev_cases) (auto simp: n_def record_ok_def i64_ok_def)
    then have "\<not> hwm_violated (w_hwm w') (n - 1) tip"
      using hwm_violated_mark [OF _ facts(4)] by (simp add: w'_def w2_def WriteHwm_def)
    moreover have "w_file w' = concat fs'" "lsn_offsets w' = ?idx" "tip_hash w' = tip" "next_lsn w' = n"
      "w_subkey w' = ?k" "\<not> migrated_from_v1 w'"
      by (simp_all add: w'_def w2_def mig)
    ultimately have "wal_inv C w' fs' rs'"
      using key fs'(2) asc' facts(1,2) index_ok_pairs [OF asc' list_all2_lengthD [OF fs'(2)]]
      by (simp add: wal_inv_def n_def)
    moreover have "Prune C nonces RwOk True cp w =
        Some (Inr \<lparr>pruned_through = cp, dropped = length (filter (settled cp rs) rs),
          previous_tip_hash = tip_hash w, new_tip_hash = tip\<rparr>, w')"
      using False rc fs'(1) read
      by (simp add: Prune_def ReadAllLocked_inv [OF inv] Let_def drop_eq kept_def [symmetric] RewriteLocked_def
          w'_def w2_def n_def split del: if_split)
    ultimately show ?thesis
      using facts(3) by (fastforce simp: kept_def w'_def w2_def)
  qed
qed

section \<open>A concrete ledger with a transit pair\<close>

lemma ex_ledger:
  "\<exists>w fs rs r0 r1 r2. wal_inv ex_crypto w fs rs \<and> rs = [r0, r1, r2] \<and> w_subkey w = ex_key \<and>
    lsn r0 = 0 \<and> lsn r1 = 1 \<and> lsn r2 = 2 \<and> rtype r0 = kTransitIntent \<and> rtype r1 = kTransitClaimed \<and>
    rtype r2 = kTransitIntent \<and> key_hash r0 = key_hash r1 \<and> key_hash r1 = key_hash r2 \<and>
    w_origin_node_id w = [] \<and> w_signer w = None \<and> length (key_hash r2) = 32"
proof -
  have 0: "next_lsn ex_wal < 1000" "w_origin_node_id ex_wal = []" "w_signer ex_wal = None"
    by (simp_all add: ex_wal_def fresh_wal_def)
  obtain f1 w1 where w1: "wal_inv ex_crypto w1 ([] @ [f1]) ([] @ [req_record ex_crypto ex_wal (ex_treq kTransitIntent 1)])"
    "next_lsn w1 = 1" "w_subkey w1 = ex_key" "w_origin_node_id w1 = []" "w_signer w1 = None"
    using ex_append [OF ex_wal_inv 0(1) _ 0(2,3), of 1 kTransitIntent] by auto
  obtain f2 w2 where w2: "wal_inv ex_crypto w2 (([] @ [f1]) @ [f2])
      (([] @ [req_record ex_crypto ex_wal (ex_treq kTransitIntent 1)]) @ [req_record ex_crypto w1 (ex_treq kTransitClaimed 1)])"
    "next_lsn w2 = 2" "w_subkey w2 = ex_key" "w_origin_node_id w2 = []" "w_signer w2 = None"
    using ex_append [OF w1(1) _ _ w1(4,5), of 1 kTransitClaimed] w1(2,3) by auto
  obtain f3 w3 where w3: "wal_inv ex_crypto w3 ((([] @ [f1]) @ [f2]) @ [f3])
      ((([] @ [req_record ex_crypto ex_wal (ex_treq kTransitIntent 1)]) @ [req_record ex_crypto w1 (ex_treq kTransitClaimed 1)]) @
        [req_record ex_crypto w2 (ex_treq kTransitIntent 1)])"
    "w_subkey w3 = ex_key" "w_origin_node_id w3 = []" "w_signer w3 = None"
    using ex_append [OF w2(1) _ _ w2(4,5), of 1 kTransitIntent] w2(2,3) by auto
  have "rtype (req_record ex_crypto w (ex_treq t n)) = t \<and>
      key_hash (req_record ex_crypto w (ex_treq t n)) = LedgerKeyHash ex_crypto (bytes_of ''c'') (bytes_of ''k'')" for w t n
    by (simp add: req_record_def ex_treq_def)
  moreover have "length (LedgerKeyHash ex_crypto (bytes_of ''c'') (bytes_of ''k'')) = 32"
    using ex_crypto_laws(2) by (simp add: LedgerKeyHash_def digest_laws_def)
  ultimately show ?thesis
    using w3 w1(2) w2(2)
    by (intro exI [of _ w3] exI [of _ "[f1, f2, f3]"]
        exI [of _ "[req_record ex_crypto ex_wal (ex_treq kTransitIntent 1),
          req_record ex_crypto w1 (ex_treq kTransitClaimed 1), req_record ex_crypto w2 (ex_treq kTransitIntent 1)]"]
        exI [of _ "req_record ex_crypto ex_wal (ex_treq kTransitIntent 1)"]
        exI [of _ "req_record ex_crypto w1 (ex_treq kTransitClaimed 1)"]
        exI [of _ "req_record ex_crypto w2 (ex_treq kTransitIntent 1)"]) simp
qed

lemma ex_nonces: "\<forall>i. \<exists>n. (\<lambda>_ :: nat. Some (replicate 12 3 :: bytes)) i = Some n \<and> length n = 12"
  by simp

section \<open>Properties\<close>

text \<open>
  C8: the chain is tamper evident. If two ledger files, whatever bytes they hold, both verify
  and end in the same entry hash, then record by record they agree on everything the hash covers
  (sequence number, type, collection, key, document, key hash, timestamp, origin and link),
  provided the digest does not collide on those records and none of them hashes to the genesis
  value.
\<close>

theorem same_tip_same_history:
  assumes "digest_laws C"
    and "VerifyChain C v w = Some (res, w1)" "v_ok res" "ReadAll C w = Some (rs, w2)"
    and "VerifyChain C v' w' = Some (res', w1')" "v_ok res'" "ReadAll C w' = Some (rs', w2')"
    and "chain_tip GenesisHash rs = chain_tip GenesisHash rs'"
    and "inj_on (Sha256 C) (hashed_content C ` (set rs \<union> set rs'))"
    and "GenesisHash \<notin> Sha256 C ` hashed_content C ` (set rs \<union> set rs')"
  shows "map attested rs = map attested rs'"
  using chain_determined VerifyChain_chained [OF assms(1-4)] VerifyChain_chained [OF assms(1,5-7)] assms(8-10)
  by blast

theorem same_tip_same_history_witness:
  "\<exists>w rs w1 w2 res. rs \<noteq> [] \<and> VerifyChain ex_crypto None w = Some (res, w1) \<and> v_ok res \<and>
    ReadAll ex_crypto w = Some (rs, w2) \<and> map attested rs = map attested rs"
proof -
  obtain f w where w: "wal_inv ex_crypto w ([] @ [f]) ([] @ [req_record ex_crypto ex_wal (ex_treq kPut 1)])"
    using ex_append [OF ex_wal_inv, of 1 kPut] by (auto simp: ex_wal_def fresh_wal_def)
  let ?r = "req_record ex_crypto ex_wal (ex_treq kPut 1)"
  obtain res w1 where v: "VerifyChain ex_crypto None w = Some (res, w1)" "v_ok res"
    using VerifyChain_inv [OF w, of None] by (auto simp: list_all_iff)
  have r: "ReadAll ex_crypto w = Some ([?r], w\<lparr>last_read_corrupt := False\<rparr>)"
    using ReadAllLocked_inv [OF w] by (simp add: ReadAll_def)
  have "GenesisHash \<noteq> Sha256 ex_crypto (hashed_content ex_crypto ?r)"
  proof -
    have "hd (hashed_content ex_crypto ?r) \<noteq> 0 \<and> hashed_content ex_crypto ?r \<noteq> []"
      by (simp add: hashed_content_def BuildContent_alt BuildContentLegacy_def put_u32_def le_bytes_def
          kWalRecordMagicV3_def kWalRecordMagicV2_def upt_rec)
    then have "hd (Sha256 ex_crypto (hashed_content ex_crypto ?r)) \<noteq> 0"
      by (cases "hashed_content ex_crypto ?r") (simp_all add: ex_crypto_def)
    moreover have "hd GenesisHash = 0" by (simp add: GenesisHash_def)
    ultimately show ?thesis by metis
  qed
  then have "map attested [?r] = map attested [?r]"
    by (intro same_tip_same_history [OF ex_crypto_laws(2) v r v r refl]) auto
  then show ?thesis using v r by blast
qed

text \<open>
  The range read that seeks through the offset index returns exactly the records of the
  ledger in the range, in order, for every range.
\<close>

theorem read_range_correct:
  assumes "wal_inv C w fs rs"
  shows "ReadRange C w from to = Some (filter (\<lambda>r. from \<le> lsn r \<and> lsn r \<le> to) rs)"
  by (rule ReadRange_inv [OF assms])

theorem read_range_correct_witness:
  "\<exists>w fs rs. wal_inv ex_crypto w fs rs \<and> length rs = 3 \<and>
    ReadRange ex_crypto w 1 1 = Some (filter (\<lambda>r. 1 \<le> lsn r \<and> lsn r \<le> 1) rs)"
proof -
  obtain w fs rs r0 r1 r2 where w: "wal_inv ex_crypto w fs rs" "rs = [r0, r1, r2]"
    using ex_ledger by blast
  then show ?thesis using read_range_correct [OF w(1), of 1 1] by fastforce
qed



text \<open>
  Claims are matched by key alone, not by order: an intent written after the claim of an
  earlier intent for the same key, and never claimed itself, is pruned with them.
\<close>

theorem prune_drops_later_unclaimed_intent:
  assumes "digest_laws C" "aead_laws C" "wal_inv C w fs rs"
    and "\<forall>i. \<exists>n. nonces i = Some n \<and> length n = 12"
    and "r \<in> set rs" "rtype r = kTransitIntent" "lsn r \<le> cp"
    and "c \<in> set rs" "rtype c = kTransitClaimed" "key_hash c = key_hash r" "lsn c < lsn r"
  shows "\<exists>res w' rs'. Prune C nonces RwOk True cp w = Some (Inr res, w') \<and>
    ReadAll C w' = Some (rs', w'\<lparr>last_read_corrupt := False\<rparr>) \<and> lsn r \<notin> lsn ` set rs'"
proof -
  obtain res w' fs' rs' where p: "Prune C nonces RwOk True cp w = Some (Inr res, w')" "wal_inv C w' fs' rs'"
    "map unlinked rs' = map unlinked (filter (\<lambda>r. \<not> settled cp rs r) rs)"
    using Prune_inv [OF assms(1-4)] by blast
  have "settled cp rs r"
    using assms(6-11) by (auto simp: settled_def IsTransit_def intro!: bexI [of _ c])
  moreover have "distinct (map lsn rs)"
    using assms(3) by (auto simp: wal_inv_def ascending_def strict_sorted_iff)
  ultimately have "lsn r \<notin> lsn ` set (filter (\<lambda>r. \<not> settled cp rs r) rs)"
    using assms(5) by (auto simp: distinct_map inj_on_def)
  moreover have "lsn ` set rs' = lsn ` set (filter (\<lambda>r. \<not> settled cp rs r) rs)"
    using map_unlinked_lsn [OF p(3)] by (metis set_map)
  ultimately show ?thesis
    using p(1) ReadAllLocked_inv [OF p(2)] by (auto simp: ReadAll_def)
qed

theorem prune_drops_later_unclaimed_intent_witness:
  "\<exists>w fs r0 r1 r2 res w' rs'. wal_inv ex_crypto w fs [r0, r1, r2] \<and> rtype r2 = kTransitIntent \<and>
    lsn r1 < lsn r2 \<and>
    Prune ex_crypto (\<lambda>_. Some (replicate 12 3)) RwOk True 2 w = Some (Inr res, w') \<and>
    ReadAll ex_crypto w' = Some (rs', w'\<lparr>last_read_corrupt := False\<rparr>) \<and> lsn r2 \<notin> lsn ` set rs'"
proof -
  obtain w fs rs r0 r1 r2 where w: "wal_inv ex_crypto w fs rs" "rs = [r0, r1, r2]"
    "lsn r1 = 1" "lsn r2 = 2" "rtype r1 = kTransitClaimed" "rtype r2 = kTransitIntent" "key_hash r1 = key_hash r2"
    using ex_ledger by blast
  have "\<exists>res w' rs'. Prune ex_crypto (\<lambda>_. Some (replicate 12 3)) RwOk True 2 w = Some (Inr res, w') \<and>
      ReadAll ex_crypto w' = Some (rs', w'\<lparr>last_read_corrupt := False\<rparr>) \<and> lsn r2 \<notin> lsn ` set rs'"
    using w by (intro prune_drops_later_unclaimed_intent [OF ex_crypto_laws(2,1) w(1) ex_nonces, of r2 2 r1]) auto
  then obtain res w' rs' where "Prune ex_crypto (\<lambda>_. Some (replicate 12 3)) RwOk True 2 w = Some (Inr res, w')"
    "ReadAll ex_crypto w' = Some (rs', w'\<lparr>last_read_corrupt := False\<rparr>)" "lsn r2 \<notin> lsn ` set rs'"
    by blast
  with w show ?thesis
    by (intro exI [of _ w] exI [of _ fs] exI [of _ r0] exI [of _ r1] exI [of _ r2] exI [of _ res]
        exI [of _ w'] exI [of _ rs']) simp
qed

end
