(* ===== verification/RecordLog.thy ===== *)
theory RecordLog
  imports Checksum AtRest "HOL-Library.Monad_Syntax"
begin

text \<open>
  The append log three stores of the node share (\<^verbatim>\<open>transit.log\<close>, \<^verbatim>\<open>outbox.log\<close> and the
  cross-engine index): records framed as \<^verbatim>\<open>[u32 body_len][body][u32 crc32(body)]\<close>, sealed
  one by one when a key is set, and replayed into an in-memory map on open. The source writes the
  loop out in each store; here it is \<open>rl_load\<close> with the store's own step. What the stores rely on
  is the locale \<open>record_log\<close>, proved once and interpreted by each of them.
\<close>

section \<open>Frames\<close>

definition rl_frame :: "bytes \<Rightarrow> bytes" where
  "rl_frame payload = put_u32 (of_nat (length payload)) @ payload @ put_u32 (Crc32 payload)"

text \<open>
  One round of a load loop on the unread bytes: the end of the file or a torn record, bytes that
  are present but bad, an exception, or a body with the bytes after it.
\<close>

datatype rl_step = RlEnd | RlCorrupt | RlThrow | RlBody bytes bytes

definition rl_parse :: "crypto \<Rightarrow> nat \<Rightarrow> bytes \<Rightarrow> bytes \<Rightarrow> bytes \<Rightarrow> rl_step" where
  "rl_parse C cap tag subkey bs =
     (if length bs < 4 then RlEnd
      else
        let body_len = unat (le_word (take 4 bs) :: u32); rest = drop 4 bs
        in if body_len = 0 \<or> body_len > cap then RlCorrupt
           else if length rest < body_len then RlEnd
           else
             let body = take body_len rest; rest = drop body_len rest
             in if length rest < 4 then RlEnd
                else if le_word (take 4 rest) \<noteq> Crc32 body then RlCorrupt
                else if subkey \<noteq> []
                then (if \<not> LooksSealedRecord body then RlCorrupt
                      else case OpenRecord C subkey body tag of
                        None \<Rightarrow> RlThrow
                      | Some (Inl _) \<Rightarrow> RlCorrupt
                      | Some (Inr b) \<Rightarrow> RlBody b (drop 4 rest))
                else if LooksSealedRecord body then RlCorrupt
                else RlBody body (drop 4 rest))"

lemma rl_parse_shorter: "rl_parse C cap tag k bs = RlBody b rest \<Longrightarrow> length rest < length bs"
  unfolding rl_parse_def Let_def by (auto split: if_splits option.splits sum.splits)

text \<open>
  The load loop over a store's state. The step returns \<open>None\<close> where the source breaks out of the
  loop on a bad body. The flag is set when the loop stopped on bytes that are present but bad.
\<close>

function rl_load ::
  "crypto \<Rightarrow> nat \<Rightarrow> bytes \<Rightarrow> bytes \<Rightarrow> ('s \<Rightarrow> bytes \<Rightarrow> 's option) \<Rightarrow> 's \<Rightarrow> bytes \<Rightarrow> ('s \<times> bool) option" where
  "rl_load C cap tag subkey step st bs =
     (case rl_parse C cap tag subkey bs of
        RlEnd \<Rightarrow> Some (st, False)
      | RlCorrupt \<Rightarrow> Some (st, True)
      | RlThrow \<Rightarrow> None
      | RlBody body rest \<Rightarrow>
          (case step st body of
             None \<Rightarrow> Some (st, True)
           | Some st' \<Rightarrow> rl_load C cap tag subkey step st' rest))"
  by pat_completeness auto

termination
  by (relation "measure (\<lambda>(C, cap, tag, k, step, st, bs). length bs)") (auto dest: rl_parse_shorter)

declare rl_load.simps [simp del]

section \<open>Appending and compacting\<close>

text \<open>How the disk answers an append: all written, or an error after some prefix.\<close>

datatype log_io = LogOk | LogFails nat

definition rl_seal :: "crypto \<Rightarrow> bytes \<Rightarrow> bytes \<Rightarrow> bytes option \<Rightarrow> bytes \<Rightarrow> bytes status_or" where
  "rl_seal C tag subkey nonce body = (if subkey \<noteq> [] then SealRecord C nonce subkey body tag else Inr body)"

definition rl_append ::
  "crypto \<Rightarrow> bytes \<Rightarrow> bytes \<Rightarrow> bytes option \<Rightarrow> log_io \<Rightarrow> bytes \<Rightarrow> bytes \<Rightarrow> unit status_or \<times> bytes" where
  "rl_append C tag subkey nonce io body log =
     (case rl_seal C tag subkey nonce body of
        Inl e \<Rightarrow> (Inl e, log)
      | Inr payload \<Rightarrow>
          (case io of
             LogOk \<Rightarrow> (Inr (), log @ rl_frame payload)
           | LogFails n \<Rightarrow> (Inl kIOError, log @ take n (rl_frame payload))))"

text \<open>
  The rewrite of a log with its live bodies, over a sibling file. The original is removed before
  the rename, so a rename that fails leaves no log: the empty file a later open creates.
\<close>

datatype compact_io = CompactOk | CompactWriteFails | CompactRenameFails | CompactReopenFails

fun rl_frames :: "crypto \<Rightarrow> bytes \<Rightarrow> bytes \<Rightarrow> (nat \<Rightarrow> bytes option) \<Rightarrow> nat \<Rightarrow> bytes list \<Rightarrow> bytes status_or" where
  "rl_frames C tag subkey nonces i [] = Inr []"
| "rl_frames C tag subkey nonces i (b # bs) =
     (case rl_seal C tag subkey (nonces i) b of
        Inl e \<Rightarrow> Inl e
      | Inr payload \<Rightarrow>
          (case rl_frames C tag subkey nonces (Suc i) bs of
             Inl e \<Rightarrow> Inl e | Inr fs \<Rightarrow> Inr (rl_frame payload @ fs)))"

definition rl_compact ::
  "crypto \<Rightarrow> bytes \<Rightarrow> bytes \<Rightarrow> (nat \<Rightarrow> bytes option) \<Rightarrow> compact_io \<Rightarrow> bytes list \<Rightarrow> bytes \<Rightarrow> unit status_or \<times> bytes" where
  "rl_compact C tag subkey nonces io bodies log =
     (case rl_frames C tag subkey nonces 0 bodies of
        Inl e \<Rightarrow> (Inl e, log)
      | Inr fs \<Rightarrow>
          (case io of
             CompactOk \<Rightarrow> (Inr (), fs)
           | CompactWriteFails \<Rightarrow> (Inl kIOError, log)
           | CompactRenameFails \<Rightarrow> (Inl kIOError, [])
           | CompactReopenFails \<Rightarrow> (Inl kIOError, fs)))"

section \<open>Frames that parse\<close>

definition rl_key_ok :: "bytes \<Rightarrow> bool" where
  "rl_key_ok k \<longleftrightarrow> k = [] \<or> length k = 32"

text \<open>A frame that reads back as \<open>body\<close> under the key.\<close>

definition rl_frame_ok :: "crypto \<Rightarrow> nat \<Rightarrow> bytes \<Rightarrow> bytes \<Rightarrow> bytes \<Rightarrow> bytes \<Rightarrow> bool" where
  "rl_frame_ok C cap tag k f body \<longleftrightarrow>
     (\<exists>p. f = rl_frame p \<and> p \<noteq> [] \<and> length p \<le> cap \<and>
        (if k = [] then \<not> LooksSealedRecord p \<and> body = p
         else LooksSealedRecord p \<and> OpenRecord C k p tag = Some (Inr body)))"

lemma length_rl_frame [simp]: "length (rl_frame p) = length p + 8"
  by (simp add: rl_frame_def)

lemma rl_frame_header:
  "length p < 2 ^ 32 \<Longrightarrow> unat (le_word (take 4 (rl_frame p @ r)) :: u32) = length p"
  by (simp add: rl_frame_def put_u32_def le_word_le_bytes unat_of_nat_u32)

lemma drop_rl_frame: "drop 4 (rl_frame p @ r) = p @ put_u32 (Crc32 p) @ r"
  by (simp add: rl_frame_def)

lemma rl_parse_ok:
  assumes "rl_frame_ok C cap tag k f body" "cap < 2 ^ 32"
  shows "rl_parse C cap tag k (f @ r) = RlBody body r"
proof -
  obtain p where p: "f = rl_frame p" "p \<noteq> []" "length p \<le> cap"
    "if k = [] then \<not> LooksSealedRecord p \<and> body = p
     else LooksSealedRecord p \<and> OpenRecord C k p tag = Some (Inr body)"
    using assms(1) unfolding rl_frame_ok_def by blast
  then have "length p < 2 ^ 32" using assms(2) by simp
  then show ?thesis
    using p(2-4) unfolding rl_parse_def p(1) rl_frame_header [OF \<open>length p < 2 ^ 32\<close>] drop_rl_frame Let_def
    by (auto simp: put_u32_def le_word_le_bytes split: if_splits)
qed

text \<open>A frame cut short reads as the end of the log.\<close>

lemma rl_parse_torn:
  assumes "rl_frame_ok C cap tag k f body" "cap < 2 ^ 32" "n < length f"
  shows "rl_parse C cap tag k (take n f) = RlEnd"
proof -
  obtain p where p: "f = rl_frame p" "p \<noteq> []" "length p \<le> cap"
    using assms(1) unfolding rl_frame_ok_def by blast
  have len: "length p < 2 ^ 32" using p(3) assms(2) by simp
  show ?thesis
  proof (cases "4 \<le> n")
    case True
    then have "take 4 (take n f) = take 4 (rl_frame p @ [])" using p(1) by (simp add: min_def)
    then have "unat (le_word (take 4 (take n f)) :: u32) = length p" using rl_frame_header [OF len, of "[]"] by simp
    then show ?thesis
      using True p assms(3) unfolding rl_parse_def Let_def by (auto simp: min_def)
  qed (auto simp: rl_parse_def min_def)
qed

text \<open>A frame beyond the cap is taken for corruption: loading stops there.\<close>

lemma rl_parse_oversized:
  "cap < length p \<Longrightarrow> length p < 2 ^ 32 \<Longrightarrow> rl_parse C cap tag k (rl_frame p @ r) = RlCorrupt"
  using rl_frame_header [of p r] by (auto simp: rl_parse_def Let_def)

text \<open>The mode check of a log is decided by its first frame.\<close>

lemma detect_frame:
  assumes "rl_frame_ok C cap tag k f body" "cap < 2 ^ 32"
  shows "DetectLogMode (Some (f @ x)) cap have_key = (if have_key = (k \<noteq> []) then Inr have_key else Inl kCorruption)"
proof -
  obtain p where p: "f = rl_frame p" "p \<noteq> []" "length p \<le> cap" "LooksSealedRecord p \<longleftrightarrow> k \<noteq> []"
    using assms(1) unfolding rl_frame_ok_def by metis
  then have len: "length p < 2 ^ 32" using assms(2) by simp
  let ?m = "if length p < 64 then length p else 64"
  have "take ?m (drop 4 (f @ x)) = take ?m p" using p(1) drop_rl_frame [of p x] by simp
  moreover have "LooksSealedRecord (take ?m p) \<longleftrightarrow> LooksSealedRecord p"
    by (auto simp: LooksSealedRecord_def min_def)
  ultimately show ?thesis
    using p(2-4) rl_frame_header [OF len, of x] p(1)
    by (simp add: DetectLogMode_def Let_def)
qed

text \<open>The subkey a data encryption key gives a log.\<close>

definition key_for :: "crypto \<Rightarrow> bytes \<Rightarrow> bytes \<Rightarrow> bytes \<Rightarrow> bool" where
  "key_for C tag dek k \<longleftrightarrow>
     (if dek = [] then k = []
      else length dek = 32 \<and> FileSubkey C dek tag = Inr k \<and> length k = 32)"

lemma key_for_facts:
  assumes "key_for C tag dek k"
  shows "rl_key_ok k" "(dek \<noteq> []) = (k \<noteq> [])" "\<not> (dek \<noteq> [] \<and> length dek \<noteq> 32)"
    "(if dek = [] then Inr [] else FileSubkey C dek tag) = Inr k"
  using assms by (auto simp: key_for_def rl_key_ok_def split: if_splits)

section \<open>The interface of a log\<close>

text \<open>
  What a store has to show of its records: the body of a storable record is neither empty nor
  beyond the cap once sealed, cannot be taken for a sealed one, and applying it on load does what
  the operation that wrote it did in memory.
\<close>

locale record_log =
  fixes cap :: nat
    and tag :: bytes
    and enc :: "'r \<Rightarrow> bytes"
    and step :: "'s \<Rightarrow> bytes \<Rightarrow> 's option"
    and app :: "'s \<Rightarrow> 'r \<Rightarrow> 's"
    and ok :: "'r \<Rightarrow> bool"
  assumes cap_small: "cap < 2 ^ 32"
    and step_enc: "ok r \<Longrightarrow> step s (enc r) = Some (app s r)"
    and enc_size: "ok r \<Longrightarrow> enc r \<noteq> [] \<and> length (enc r) + 32 \<le> cap"
    and enc_plain: "ok r \<Longrightarrow> \<not> LooksSealedRecord (enc r)"
begin

definition holds :: "crypto \<Rightarrow> bytes \<Rightarrow> bytes \<Rightarrow> 'r list \<Rightarrow> bool" where
  "holds C k log rs \<longleftrightarrow>
     (\<exists>fs. log = concat fs \<and> list_all2 (\<lambda>f r. rl_frame_ok C cap tag k f (enc r)) fs rs \<and> list_all ok rs)"

lemma holds_Nil: "holds C k [] []"
  by (auto simp: holds_def)

lemma seal_ok:
  assumes "aead_laws C" "rl_key_ok k" "length n = 12" "ok r"
  shows "\<exists>p. rl_seal C tag k (Some n) (enc r) = Inr p \<and> rl_frame_ok C cap tag k (rl_frame p) (enc r)"
proof (cases "k = []")
  case True
  then show ?thesis
    using enc_size [OF assms(4)] enc_plain [OF assms(4)] by (auto simp: rl_seal_def rl_frame_ok_def)
next
  case False
  then have "length k = 32" using assms(2) by (simp add: rl_key_ok_def)
  then obtain s where "SealRecord C (Some n) k (enc r) tag = Inr s" "LooksSealedRecord s"
    "length s = length (enc r) + 32" "OpenRecord C k s tag = Some (Inr (enc r))"
    using OpenRecord_SealRecord [OF assms(1) _ assms(3)] by blast
  with False show ?thesis
    using enc_size [OF assms(4)] unfolding rl_seal_def rl_frame_ok_def by fastforce
qed

text \<open>A successful append adds its record to the log, a failed one at most a torn frame.\<close>

lemma append_holds:
  assumes "aead_laws C" "rl_key_ok k" "length n = 12" "ok r" "holds C k log rs"
  shows "\<exists>log'. rl_append C tag k (Some n) LogOk (enc r) log = (Inr (), log') \<and> holds C k log' (rs @ [r])"
proof -
  obtain p where p: "rl_seal C tag k (Some n) (enc r) = Inr p" "rl_frame_ok C cap tag k (rl_frame p) (enc r)"
    using seal_ok [OF assms(1-4)] by blast
  obtain fs where fs: "log = concat fs" "list_all2 (\<lambda>f r. rl_frame_ok C cap tag k f (enc r)) fs rs" "list_all ok rs"
    using assms(5) by (auto simp: holds_def)
  then have "holds C k (log @ rl_frame p) (rs @ [r])"
    unfolding holds_def using p(2) assms(4)
    by (intro exI [of _ "fs @ [rl_frame p]"]) (auto intro: list_all2_appendI)
  then show ?thesis by (simp add: rl_append_def p(1))
qed

lemma load_frames:
  assumes "list_all2 (\<lambda>f r. rl_frame_ok C cap tag k f (enc r)) fs rs" "list_all ok rs"
  shows "rl_load C cap tag k step s (concat fs @ t) = rl_load C cap tag k step (foldl app s rs) t"
  using assms
proof (induction fs rs arbitrary: s rule: list_all2_induct)
  case (Cons f fs r rs)
  then show ?case
    by (subst rl_load.simps) (simp add: rl_parse_ok [OF _ cap_small] step_enc)
qed simp

text \<open>Loading a log replays its records, also when a crash left a torn frame at its end.\<close>

lemma load_holds:
  assumes "holds C k log rs"
  shows "rl_load C cap tag k step s log = Some (foldl app s rs, False)"
proof -
  obtain fs where "log = concat fs" "list_all2 (\<lambda>f r. rl_frame_ok C cap tag k f (enc r)) fs rs" "list_all ok rs"
    using assms by (auto simp: holds_def)
  then show ?thesis
    using load_frames [of C k fs rs s "[]"] by (simp add: rl_load.simps [of _ _ _ _ _ _ "[]"] rl_parse_def)
qed

lemma load_torn:
  assumes "holds C k log rs" "rl_frame_ok C cap tag k f b" "n < length f"
  shows "rl_load C cap tag k step s (log @ take n f) = Some (foldl app s rs, False)"
proof -
  obtain fs where "log = concat fs" "list_all2 (\<lambda>f r. rl_frame_ok C cap tag k f (enc r)) fs rs" "list_all ok rs"
    using assms(1) by (auto simp: holds_def)
  then show ?thesis
    using load_frames [of C k fs rs s "take n f"] rl_parse_torn [OF assms(2) cap_small assms(3)]
    by (simp add: rl_load.simps [of _ _ _ _ _ _ "take n f"])
qed

lemma compact_holds:
  assumes "aead_laws C" "rl_key_ok k" "\<forall>i. \<exists>n. nonces i = Some n \<and> length n = 12" "list_all ok rs"
  shows "\<exists>log'. rl_compact C tag k nonces CompactOk (map enc rs) log = (Inr (), log') \<and> holds C k log' rs"
proof -
  have "\<exists>fs. rl_frames C tag k nonces i (map enc rs) = Inr (concat fs) \<and>
      list_all2 (\<lambda>f r. rl_frame_ok C cap tag k f (enc r)) fs rs" for i
    using assms(4)
  proof (induction rs arbitrary: i)
    case (Cons r rs)
    obtain n where n: "nonces i = Some n" "length n = 12" using assms(3) by blast
    obtain p where "rl_seal C tag k (Some n) (enc r) = Inr p" "rl_frame_ok C cap tag k (rl_frame p) (enc r)"
      using seal_ok [OF assms(1,2) n(2)] Cons.prems by auto
    moreover obtain fs where "rl_frames C tag k nonces (Suc i) (map enc rs) = Inr (concat fs)"
      "list_all2 (\<lambda>f r. rl_frame_ok C cap tag k f (enc r)) fs rs"
      using Cons by auto
    ultimately show ?case
      using n(1) by (intro exI [of _ "rl_frame p # fs"]) simp
  qed (intro exI [of _ "[]"], simp)
  then obtain fs where "rl_frames C tag k nonces 0 (map enc rs) = Inr (concat fs)"
    "list_all2 (\<lambda>f r. rl_frame_ok C cap tag k f (enc r)) fs rs"
    by blast
  then show ?thesis using assms(4) by (auto simp: rl_compact_def holds_def)
qed

text \<open>
  The mode check on open accepts the log under the key it was written with, and refuses a log of
  plain records when there is a key.
\<close>

lemma mode_ok:
  assumes "holds C k log rs" "log \<noteq> [] \<or> x = []"
  shows "\<exists>b. DetectLogMode (Some (log @ x)) cap (k \<noteq> []) = Inr b"
proof (cases rs)
  case Nil
  then show ?thesis using assms by (auto simp: holds_def DetectLogMode_def)
next
  case (Cons r rs')
  then obtain f fs where "log = f @ concat fs" "rl_frame_ok C cap tag k f (enc r)"
    using assms by (auto simp: holds_def list_all2_Cons2)
  then show ?thesis using detect_frame [OF _ cap_small, of C tag k f "enc r" "concat fs @ x"] by auto
qed

lemma mode_mismatch:
  assumes "holds C [] log rs" "rs \<noteq> []"
  shows "DetectLogMode (Some log) cap True = Inl kCorruption"
proof -
  obtain r rs' where "rs = r # rs'" using assms(2) by (cases rs) auto
  then obtain f fs where "log = f @ concat fs" "rl_frame_ok C cap tag [] f (enc r)"
    using assms(1) by (auto simp: holds_def list_all2_Cons2)
  then show ?thesis using detect_frame [OF _ cap_small, of C tag "[]" f "enc r" "concat fs"] by simp
qed

text \<open>What follows a record beyond the cap is not read.\<close>

lemma load_oversized:
  assumes "holds C k log rs" "cap < length p" "length p < 2 ^ 32"
  shows "rl_load C cap tag k step s (log @ rl_frame p @ x) = Some (foldl app s rs, True)"
proof -
  obtain fs where "log = concat fs" "list_all2 (\<lambda>f r. rl_frame_ok C cap tag k f (enc r)) fs rs" "list_all ok rs"
    using assms(1) by (auto simp: holds_def)
  then show ?thesis
    using load_frames [of C k fs rs s "rl_frame p @ x"] rl_parse_oversized [OF assms(2,3)]
    by (simp add: rl_load.simps [of _ _ _ _ _ _ "rl_frame p @ x"])
qed

end

end
