(* ===== verification/TransitStore.thy ===== *)
theory TransitStore
  imports RecordLog Wal
begin

text \<open>
  \<^verbatim>\<open>include/desentry/ledger/transit_store.h\<close> and \<^verbatim>\<open>src/ledger/transit_store.cpp\<close>: the bytes a
  replica holds for an owner that is offline, an in-memory map over an append log. What a
  restart restores is shown by rule induction over the operations that succeeded.
\<close>

section \<open>Envelopes\<close>

definition kTransitMagic :: u32 where "kTransitMagic = 0x44534E54"
definition kTransitVersion :: u32 where "kTransitVersion = 3"
definition kTransitVersionV2 :: u32 where "kTransitVersionV2 = 2"
definition kTransitVersionV1 :: u32 where "kTransitVersionV1 = 1"
definition kTransitRecordCap :: nat where "kTransitRecordCap = 1048576"
definition kRecordHold :: byte where "kRecordHold = 1"
definition kTransitRecordDrop :: byte where "kTransitRecordDrop = 2"

definition TransitChunkCount :: "nat \<Rightarrow> nat \<Rightarrow> u32" where
  "TransitChunkCount doc_bytes chunk_bytes =
     (let unit = (if chunk_bytes > 0 then chunk_bytes else 262144);
          total = (of_nat ((doc_bytes + unit - 1) div unit) :: u32)
      in if total = 0 then 1 else total)"

record TransitEnvelope =
  te_owner_node :: bytes
  te_collection :: bytes
  te_key :: bytes
  te_key_hash :: bytes
  te_encoded_doc :: bytes
  te_holder_node :: bytes
  te_intent_lsn :: int
  te_expires_ms :: int
  te_doc_size_bytes :: u64
  te_chunk_index :: u32
  te_chunk_total :: u32
  te_message_id :: bytes
  te_content_hash :: bytes
  te_holder_sig :: bytes

text \<open>The two indexes are interleaved byte by byte, the most significant first.\<close>

definition TransitAttestMessage :: "bytes \<Rightarrow> bytes \<Rightarrow> u32 \<Rightarrow> u32 \<Rightarrow> bytes" where
  "TransitAttestMessage kh content_hash chunk_index chunk_total =
     bytes_of ''DSN-TRANSIT-v1'' @ [0] @ kh @ content_hash @
     concat (map (\<lambda>shift. [ucast (drop_bit shift chunk_index), ucast (drop_bit shift chunk_total)])
                 [24, 16, 8, 0])"

definition MapKey :: "bytes \<Rightarrow> bytes \<Rightarrow> bytes" where
  "MapKey owner_node kh = owner_node @ [0] @ kh"

definition EncodeEnvelope :: "TransitEnvelope \<Rightarrow> bytes" where
  "EncodeEnvelope e =
     put_u32 kTransitMagic @ put_u32 kTransitVersion @ put_u8 kRecordHold @
     put_bytes (te_owner_node e) @ put_bytes (te_collection e) @ put_bytes (te_key e) @
     put_bytes (te_key_hash e) @ put_bytes (te_encoded_doc e) @ put_bytes (te_holder_node e) @
     put_i64 (te_intent_lsn e) @ put_i64 (te_expires_ms e) @ put_u64 (te_doc_size_bytes e) @
     put_u32 (te_chunk_index e) @ put_u32 (te_chunk_total e) @ put_bytes (te_message_id e) @
     put_bytes (te_content_hash e) @ put_bytes (te_holder_sig e)"

definition EncodeDropBody :: "bytes \<Rightarrow> bytes \<Rightarrow> bytes" where
  "EncodeDropBody owner_node kh =
     put_u32 kTransitMagic @ put_u32 kTransitVersion @ put_u8 kTransitRecordDrop @
     put_bytes owner_node @ put_bytes kh"

text \<open>A log body: an envelope, or the tombstone the source reports through out-parameters.\<close>

datatype transit_record = THold TransitEnvelope | TDrop bytes bytes

definition get_drop :: "bytes \<Rightarrow> transit_record option" where
  "get_drop bs = do {
     (owner, bs) \<leftarrow> get_bytes bs;
     (kh, bs) \<leftarrow> get_bytes bs;
     if bs \<noteq> [] then None
     else if owner = [] \<or> length kh \<noteq> kWalHashLen then None
     else Some (TDrop owner kh) }"

definition get_hold :: "u32 \<Rightarrow> bytes \<Rightarrow> transit_record option" where
  "get_hold version bs = do {
     (owner, bs) \<leftarrow> get_bytes bs;
     (coll, bs) \<leftarrow> get_bytes bs;
     (key, bs) \<leftarrow> get_bytes bs;
     (kh, bs) \<leftarrow> get_bytes bs;
     (doc, bs) \<leftarrow> get_bytes bs;
     (holder, bs) \<leftarrow> get_bytes bs;
     (intent, bs) \<leftarrow> get_i64 bs;
     (expires, bs) \<leftarrow> get_i64 bs;
     (size, idx, total, mid, ch, sig, bs) \<leftarrow>
       (if version = kTransitVersion \<or> version = kTransitVersionV2
        then do {
          (size, bs) \<leftarrow> get_u64 bs;
          (idx, bs) \<leftarrow> get_u32 bs;
          (total, bs) \<leftarrow> get_u32 bs;
          if total = 0 \<or> idx \<ge> total then None
          else do {
            (mid, bs) \<leftarrow> get_opt get_bytes [] bs;
            (ch, bs) \<leftarrow> (if version = kTransitVersion then get_opt get_bytes [] bs else Some ([], bs));
            (sig, bs) \<leftarrow> (if version = kTransitVersion then get_opt get_bytes [] bs else Some ([], bs));
            Some (size, idx, total, mid, ch, sig, bs) } }
        else Some (0, 0, 1, [], [], [], bs));
     if bs \<noteq> [] then None
     else if owner = [] \<or> length kh \<noteq> kWalHashLen then None
     else Some (THold \<lparr>te_owner_node = owner, te_collection = coll, te_key = key, te_key_hash = kh,
            te_encoded_doc = doc, te_holder_node = holder, te_intent_lsn = intent,
            te_expires_ms = expires, te_doc_size_bytes = size, te_chunk_index = idx,
            te_chunk_total = total, te_message_id = mid, te_content_hash = ch, te_holder_sig = sig\<rparr>) }"

definition ts_DecodeBody :: "bytes \<Rightarrow> transit_record status_or" where
  "ts_DecodeBody body =
     (case (do {
        (magic, bs) \<leftarrow> get_u32 body;
        if magic \<noteq> kTransitMagic then None
        else do {
          (version, bs) \<leftarrow> get_u32 bs;
          if version \<noteq> kTransitVersion \<and> version \<noteq> kTransitVersionV2 \<and> version \<noteq> kTransitVersionV1 then None
          else do {
            (kind, bs) \<leftarrow> get_u8 bs;
            if kind = kTransitRecordDrop then get_drop bs
            else if kind \<noteq> kRecordHold then None
            else get_hold version bs } } })
      of None \<Rightarrow> Inl kCorruption | Some r \<Rightarrow> Inr r)"

definition ts_Decode :: "bytes \<Rightarrow> TransitEnvelope status_or" where
  "ts_Decode bs =
     (case ts_DecodeBody bs of
        Inl e \<Rightarrow> Inl e | Inr (TDrop _ _) \<Rightarrow> Inl kNotFound | Inr (THold e) \<Rightarrow> Inr e)"

section \<open>The store\<close>

type_synonym transit_map = "(bytes \<times> TransitEnvelope) list"

record tstore =
  ts_log :: bytes
  ts_ttl_seconds :: nat
  ts_holder :: bytes
  ts_entries :: transit_map
  ts_load_corrupt :: bool
  ts_subkey :: bytes

definition put_envelope :: "TransitEnvelope \<Rightarrow> transit_map \<Rightarrow> transit_map" where
  "put_envelope e = map_put (MapKey (te_owner_node e) (te_key_hash e)) e"

definition ts_load_step :: "transit_map \<Rightarrow> bytes \<Rightarrow> transit_map option" where
  "ts_load_step m body =
     (case ts_DecodeBody body of
        Inl _ \<Rightarrow> Some m
      | Inr (TDrop owner kh) \<Rightarrow> Some (map_erase (MapKey owner kh) m)
      | Inr (THold e) \<Rightarrow> Some (put_envelope e m))"

definition transit_tag :: bytes where
  "transit_tag = bytes_of ''transit''"

definition ts_CompactLocked :: "crypto \<Rightarrow> (nat \<Rightarrow> bytes option) \<Rightarrow> compact_io \<Rightarrow> tstore \<Rightarrow> unit status_or \<times> tstore" where
  "ts_CompactLocked C nonces io st =
     (let (s, log) = rl_compact C transit_tag (ts_subkey st) nonces io
                       (map (EncodeEnvelope \<circ> snd) (ts_entries st)) (ts_log st)
      in (s, st\<lparr>ts_log := log\<rparr>))"

definition ts_Load :: "crypto \<Rightarrow> (nat \<Rightarrow> bytes option) \<Rightarrow> compact_io \<Rightarrow> tstore \<Rightarrow> tstore option" where
  "ts_Load C nonces io st =
     (case rl_load C kTransitRecordCap transit_tag (ts_subkey st) ts_load_step (ts_entries st) (ts_log st) of
        None \<Rightarrow> None
      | Some (m, corrupt) \<Rightarrow>
          let st = st\<lparr>ts_entries := m, ts_load_corrupt := corrupt\<rparr>
          in Some (if corrupt then snd (ts_CompactLocked C nonces io st) else st))"

definition ts_Open ::
  "crypto \<Rightarrow> (nat \<Rightarrow> bytes option) \<Rightarrow> compact_io \<Rightarrow> bytes option \<Rightarrow> nat \<Rightarrow> bytes \<Rightarrow> bytes \<Rightarrow> tstore status_or option" where
  "ts_Open C nonces io file ttl holder dek =
     (if holder = [] then Some (Inl kInvalidArgument)
      else if dek \<noteq> [] \<and> length dek \<noteq> 32 then Some (Inl kInvalidArgument)
      else case DetectLogMode file kTransitRecordCap (dek \<noteq> []) of
        Inl e \<Rightarrow> Some (Inl e)
      | Inr _ \<Rightarrow>
          (case (if dek = [] then Inr [] else FileSubkey C dek transit_tag) of
             Inl e \<Rightarrow> Some (Inl e)
           | Inr subkey \<Rightarrow>
               map_option Inr
                 (ts_Load C nonces io
                    \<lparr>ts_log = (case file of None \<Rightarrow> [] | Some f \<Rightarrow> f), ts_ttl_seconds = ttl, ts_holder = holder,
                     ts_entries = [], ts_load_corrupt = False, ts_subkey = subkey\<rparr>)))"

definition ts_AppendRecord :: "crypto \<Rightarrow> bytes option \<Rightarrow> log_io \<Rightarrow> bytes \<Rightarrow> tstore \<Rightarrow> unit status_or \<times> tstore" where
  "ts_AppendRecord C nonce io body st =
     (let (s, log) = rl_append C transit_tag (ts_subkey st) nonce io body (ts_log st)
      in (s, st\<lparr>ts_log := log\<rparr>))"

definition put_record :: "crypto \<Rightarrow> bytes option \<Rightarrow> log_io \<Rightarrow> TransitEnvelope \<Rightarrow> tstore \<Rightarrow> unit status_or \<times> tstore" where
  "put_record C nonce io e st =
     (case ts_AppendRecord C nonce io (EncodeEnvelope e) st of
        (Inl err, st) \<Rightarrow> (Inl err, st)
      | (Inr _, st) \<Rightarrow> (Inr (), st\<lparr>ts_entries := put_envelope e (ts_entries st)\<rparr>))"

definition stamped :: "int \<Rightarrow> tstore \<Rightarrow> TransitEnvelope \<Rightarrow> TransitEnvelope" where
  "stamped now st e =
     e\<lparr>te_holder_node := ts_holder st,
       te_expires_ms := (if ts_ttl_seconds st = 0 then 0 else now + int (ts_ttl_seconds st) * 1000)\<rparr>"

definition Hold :: "crypto \<Rightarrow> bytes option \<Rightarrow> log_io \<Rightarrow> int \<Rightarrow> TransitEnvelope \<Rightarrow> tstore \<Rightarrow> unit status_or \<times> tstore" where
  "Hold C nonce io now e st =
     (if te_owner_node e = [] then (Inl kInvalidArgument, st)
      else if length (te_key_hash e) \<noteq> kWalHashLen then (Inl kInvalidArgument, st)
      else if te_owner_node e = ts_holder st then (Inl kInvalidArgument, st)
      else put_record C nonce io (stamped now st e) st)"

definition MergeRemoteEnvelope :: "crypto \<Rightarrow> bytes option \<Rightarrow> log_io \<Rightarrow> TransitEnvelope \<Rightarrow> tstore \<Rightarrow> unit status_or \<times> tstore" where
  "MergeRemoteEnvelope C nonce io e st =
     (if te_owner_node e = [] \<or> length (te_key_hash e) \<noteq> kWalHashLen then (Inl kInvalidArgument, st)
      else put_record C nonce io e st)"

definition expired :: "int \<Rightarrow> TransitEnvelope \<Rightarrow> bool" where
  "expired now e = (te_expires_ms e \<noteq> 0 \<and> te_expires_ms e \<le> now)"

definition PendingFor :: "int \<Rightarrow> bytes \<Rightarrow> tstore \<Rightarrow> TransitEnvelope list" where
  "PendingFor now owner st =
     filter (\<lambda>e. te_owner_node e = owner \<and> \<not> expired now e) (map snd (ts_entries st))"

definition ts_Lookup :: "int \<Rightarrow> bytes \<Rightarrow> bytes \<Rightarrow> tstore \<Rightarrow> TransitEnvelope status_or" where
  "ts_Lookup now owner kh st =
     (if length kh \<noteq> kWalHashLen then Inl kInvalidArgument
      else case map_of (ts_entries st) (MapKey owner kh) of
        None \<Rightarrow> Inl kNotFound
      | Some e \<Rightarrow> if expired now e then Inl kNotFound else Inr e)"

definition Owners :: "int \<Rightarrow> tstore \<Rightarrow> bytes set" where
  "Owners now st = set (map te_owner_node (filter (\<lambda>e. \<not> expired now e) (map snd (ts_entries st))))"

definition ts_Size :: "int \<Rightarrow> tstore \<Rightarrow> nat" where
  "ts_Size now st = length (filter (\<lambda>e. \<not> expired now e) (map snd (ts_entries st)))"

definition ts_BytesHeld :: "int \<Rightarrow> tstore \<Rightarrow> u64" where
  "ts_BytesHeld now st =
     sum_list (map (\<lambda>e. of_nat (length (te_encoded_doc e)))
                (filter (\<lambda>e. \<not> expired now e) (map snd (ts_entries st))))"

text \<open>Appending the drop records of the expired envelopes; the first failure ends it.\<close>

fun append_drops ::
  "crypto \<Rightarrow> (nat \<Rightarrow> bytes option) \<Rightarrow> (nat \<Rightarrow> log_io) \<Rightarrow> nat \<Rightarrow> (bytes \<times> bytes) list \<Rightarrow> tstore \<Rightarrow> unit status_or \<times> tstore" where
  "append_drops C nonces ios i [] st = (Inr (), st)"
| "append_drops C nonces ios i ((owner, kh) # ds) st =
     (case ts_AppendRecord C (nonces i) (ios i) (EncodeDropBody owner kh) st of
        (Inl e, st) \<Rightarrow> (Inl e, st)
      | (Inr _, st) \<Rightarrow> append_drops C nonces ios (Suc i) ds st)"

definition ExpireAsOf ::
  "crypto \<Rightarrow> (nat \<Rightarrow> bytes option) \<Rightarrow> (nat \<Rightarrow> log_io) \<Rightarrow> (nat \<Rightarrow> bytes option) \<Rightarrow> compact_io \<Rightarrow> int \<Rightarrow> tstore \<Rightarrow>
   nat status_or \<times> tstore" where
  "ExpireAsOf C nonces ios cnonces cio now st =
     (let gone = filter (\<lambda>p. expired now (snd p)) (ts_entries st);
          to_drop = map (\<lambda>p. (te_owner_node (snd p), te_key_hash (snd p))) gone;
          st = st\<lparr>ts_entries := filter (\<lambda>p. \<not> expired now (snd p)) (ts_entries st)\<rparr>
      in case append_drops C nonces ios 0 to_drop st of
           (Inl e, st) \<Rightarrow> (Inl e, st)
         | (Inr _, st) \<Rightarrow>
             if gone = [] then (Inr 0, st)
             else case ts_CompactLocked C cnonces cio st of
               (Inl e, st) \<Rightarrow> (Inl e, st)
             | (Inr _, st) \<Rightarrow> (Inr (length gone), st))"

text \<open>The loop of \<^verbatim>\<open>Release\<close>: each wanted envelope is tombstoned, then erased.\<close>

fun release_loop ::
  "crypto \<Rightarrow> (nat \<Rightarrow> bytes option) \<Rightarrow> (nat \<Rightarrow> log_io) \<Rightarrow> bytes list \<Rightarrow> transit_map \<Rightarrow> nat \<Rightarrow> tstore \<Rightarrow> nat status_or \<times> tstore" where
  "release_loop C nonces ios wanted [] n st = (Inr n, st)"
| "release_loop C nonces ios wanted ((mk, e) # es) n st =
     (if te_key_hash e \<notin> set wanted then release_loop C nonces ios wanted es n st
      else case ts_AppendRecord C (nonces n) (ios n) (EncodeDropBody (te_owner_node e) (te_key_hash e)) st of
        (Inl err, st) \<Rightarrow> (Inl err, st)
      | (Inr _, st) \<Rightarrow>
          release_loop C nonces ios wanted es (Suc n) (st\<lparr>ts_entries := map_erase mk (ts_entries st)\<rparr>))"

definition Release ::
  "crypto \<Rightarrow> (nat \<Rightarrow> bytes option) \<Rightarrow> (nat \<Rightarrow> log_io) \<Rightarrow> (nat \<Rightarrow> bytes option) \<Rightarrow> compact_io \<Rightarrow> bytes list \<Rightarrow> tstore \<Rightarrow>
   nat status_or \<times> tstore" where
  "Release C nonces ios cnonces cio key_hashes st =
     (if key_hashes = [] then (Inr 0, st)
      else case release_loop C nonces ios key_hashes (ts_entries st) 0 st of
        (Inl e, st) \<Rightarrow> (Inl e, st)
      | (Inr released, st) \<Rightarrow>
          if released = 0 then (Inr 0, st)
          else case ts_CompactLocked C cnonces cio st of
            (Inl e, st) \<Rightarrow> (Inl e, st)
          | (Inr _, st) \<Rightarrow> (Inr released, st))"

section \<open>Records of the log\<close>

definition env_ok :: "TransitEnvelope \<Rightarrow> bool" where
  "env_ok e \<longleftrightarrow>
     te_owner_node e \<noteq> [] \<and> length (te_key_hash e) = 32 \<and> i64_ok (te_intent_lsn e) \<and>
     i64_ok (te_expires_ms e) \<and> te_chunk_index e < te_chunk_total e \<and>
     length (EncodeEnvelope e) + 32 \<le> kTransitRecordCap"

fun enc_record :: "transit_record \<Rightarrow> bytes" where
  "enc_record (THold e) = EncodeEnvelope e"
| "enc_record (TDrop owner kh) = EncodeDropBody owner kh"

fun app_record :: "transit_map \<Rightarrow> transit_record \<Rightarrow> transit_map" where
  "app_record m (THold e) = put_envelope e m"
| "app_record m (TDrop owner kh) = map_erase (MapKey owner kh) m"

fun record_storable :: "transit_record \<Rightarrow> bool" where
  "record_storable (THold e) = env_ok e"
| "record_storable (TDrop owner kh) =
     (owner \<noteq> [] \<and> length kh = 32 \<and> length (EncodeDropBody owner kh) + 32 \<le> kTransitRecordCap)"

lemma env_ok_fits:
  assumes "env_ok e"
  shows "fits (te_owner_node e)" "fits (te_collection e)" "fits (te_key e)" "fits (te_key_hash e)"
    "fits (te_encoded_doc e)" "fits (te_holder_node e)" "fits (te_message_id e)"
    "fits (te_content_hash e)" "fits (te_holder_sig e)"
  using assms by (simp_all add: env_ok_def EncodeEnvelope_def kTransitRecordCap_def fits_def)

lemmas transit_consts = kTransitMagic_def kTransitVersion_def kTransitVersionV1_def kTransitVersionV2_def
  kRecordHold_def kTransitRecordDrop_def kWalHashLen_def

lemma decode_hold: "env_ok e \<Longrightarrow> ts_DecodeBody (EncodeEnvelope e) = Inr (THold e)"
  using env_ok_fits [of e]
  by (auto simp: ts_DecodeBody_def EncodeEnvelope_def get_hold_def codec_simps transit_consts
      get_opt_def env_ok_def not_le)

lemma decode_drop:
  "owner \<noteq> [] \<Longrightarrow> length kh = 32 \<Longrightarrow> length (EncodeDropBody owner kh) + 32 \<le> kTransitRecordCap \<Longrightarrow>
     ts_DecodeBody (EncodeDropBody owner kh) = Inr (TDrop owner kh)"
  by (simp add: ts_DecodeBody_def EncodeDropBody_def get_drop_def codec_simps transit_consts fits_def
      kTransitRecordCap_def)

lemma transit_magic_plain: "\<not> LooksSealedRecord (put_u32 kTransitMagic @ x)"
proof -
  have "put_u32 kTransitMagic \<noteq> kSealedRecordMagic" by code_simp
  then show ?thesis by (simp add: LooksSealedRecord_def)
qed

interpretation tlog: record_log kTransitRecordCap transit_tag enc_record ts_load_step app_record record_storable
proof
  show "kTransitRecordCap < 2 ^ 32" by (simp add: kTransitRecordCap_def)
  fix r :: transit_record and m
  assume ok: "record_storable r"
  then show "ts_load_step m (enc_record r) = Some (app_record m r)"
    by (cases r) (auto simp: ts_load_step_def decode_hold decode_drop)
  show "enc_record r \<noteq> [] \<and> length (enc_record r) + 32 \<le> kTransitRecordCap"
    using ok by (cases r) (auto simp: env_ok_def EncodeEnvelope_def EncodeDropBody_def)
  show "\<not> LooksSealedRecord (enc_record r)"
    using ok by (cases r) (simp_all add: EncodeEnvelope_def EncodeDropBody_def transit_magic_plain)
qed

section \<open>The invariant\<close>

definition entries_ok :: "transit_map \<Rightarrow> bool" where
  "entries_ok m \<longleftrightarrow>
     distinct (map fst m) \<and> (\<forall>(mk, e)\<in>set m. mk = MapKey (te_owner_node e) (te_key_hash e) \<and> env_ok e)"

definition ts_inv :: "crypto \<Rightarrow> bytes \<Rightarrow> tstore \<Rightarrow> bool" where
  "ts_inv C k st \<longleftrightarrow>
     ts_subkey st = k \<and> rl_key_ok k \<and> entries_ok (ts_entries st) \<and>
     (\<exists>rs. tlog.holds C k (ts_log st) rs \<and> map_of (foldl app_record [] rs) = map_of (ts_entries st))"

lemma map_of_app_record: "map_of m = map_of m' \<Longrightarrow> map_of (app_record m r) = map_of (app_record m' r)"
  by (cases r) (simp_all add: put_envelope_def)

lemma entries_ok_put: "entries_ok m \<Longrightarrow> env_ok e \<Longrightarrow> entries_ok (put_envelope e m)"
  by (auto simp: entries_ok_def put_envelope_def) (auto simp: map_put_def)

lemma entries_ok_filter: "entries_ok m \<Longrightarrow> entries_ok (filter P m)"
  by (auto simp: entries_ok_def distinct_map_filter)

lemma foldl_values:
  assumes "distinct (map fst m)" "\<forall>(mk, e)\<in>set m. mk = MapKey (te_owner_node e) (te_key_hash e)"
  shows "map_of (foldl app_record a (map (THold \<circ> snd) m)) = map_of a ++ map_of m"
  using assms
proof (induction m arbitrary: a)
  case (Cons p m)
  obtain mk e where p: "p = (mk, e)" "mk = MapKey (te_owner_node e) (te_key_hash e)" using Cons.prems(2) by (cases p) auto
  have "map_of m mk = None" using Cons.prems(1) p(1) by (auto simp: map_of_eq_None_iff)
  then have "map_of (put_envelope e a) ++ map_of m = map_of a ++ map_of (p # m)"
    using p by (auto simp: put_envelope_def map_add_def fun_eq_iff split: option.splits)
  moreover have "map_of (foldl app_record (put_envelope e a) (map (THold \<circ> snd) m)) =
      map_of (put_envelope e a) ++ map_of m"
    by (rule Cons.IH) (use Cons.prems in auto)
  ultimately show ?case using p(1) by (simp add: comp_def del: map_of.simps)
qed simp

lemma compact_inv:
  assumes "aead_laws C" "\<forall>i. \<exists>n. nonces i = Some n \<and> length n = 12"
    and "ts_subkey st = k" "rl_key_ok k" "entries_ok (ts_entries st)"
  shows "\<exists>log. ts_CompactLocked C nonces CompactOk st = (Inr (), st\<lparr>ts_log := log\<rparr>) \<and> ts_inv C k (st\<lparr>ts_log := log\<rparr>)"
proof -
  let ?rs = "map (THold \<circ> snd) (ts_entries st)"
  have "list_all record_storable ?rs" using assms(5) by (auto simp: entries_ok_def list_all_iff)
  then obtain log where "rl_compact C transit_tag k nonces CompactOk (map enc_record ?rs) (ts_log st) = (Inr (), log)"
    "tlog.holds C k log ?rs"
    using tlog.compact_holds [OF assms(1,4,2)] by blast
  moreover have "map enc_record ?rs = map (EncodeEnvelope \<circ> snd) (ts_entries st)" by simp
  moreover have "map_of (foldl app_record [] ?rs) = map_of (ts_entries st)"
    using foldl_values [of "ts_entries st" "[]"] assms(5) by (fastforce simp: entries_ok_def)
  ultimately show ?thesis
    using assms by (auto simp: ts_CompactLocked_def ts_inv_def simp del: map_map)
qed

lemma put_record_inv:
  assumes "aead_laws C" "length n = 12" "env_ok e" "ts_inv C k st"
  shows "\<exists>log. put_record C (Some n) LogOk e st =
      (Inr (), st\<lparr>ts_log := log, ts_entries := put_envelope e (ts_entries st)\<rparr>) \<and>
    ts_inv C k (st\<lparr>ts_log := log, ts_entries := put_envelope e (ts_entries st)\<rparr>)"
proof -
  obtain rs where st: "ts_subkey st = k" "rl_key_ok k" "entries_ok (ts_entries st)"
    "tlog.holds C k (ts_log st) rs" "map_of (foldl app_record [] rs) = map_of (ts_entries st)"
    using assms(4) by (auto simp: ts_inv_def)
  have "record_storable (THold e)" using assms(3) by simp
  then obtain log where log: "rl_append C transit_tag k (Some n) LogOk (EncodeEnvelope e) (ts_log st) = (Inr (), log)"
    "tlog.holds C k log (rs @ [THold e])"
    using tlog.append_holds [OF assms(1) st(2) assms(2) _ st(4)] by fastforce
  have "map_of (foldl app_record [] (rs @ [THold e])) = map_of (put_envelope e (ts_entries st))"
    using map_of_app_record [OF st(5), of "THold e"] by simp
  then have "ts_inv C k (st\<lparr>ts_log := log, ts_entries := put_envelope e (ts_entries st)\<rparr>)"
    using st(1,2) log(2) entries_ok_put [OF st(3) assms(3)] unfolding ts_inv_def by auto
  then show ?thesis
    using st(1) log(1) by (intro exI [of _ log]) (simp add: put_record_def ts_AppendRecord_def)
qed

lemma release_loop_effect:
  assumes "release_loop C nonces ios wanted es n st = (Inr n', st')"
  shows "ts_entries st' = filter (\<lambda>p. \<forall>q\<in>set es. te_key_hash (snd q) \<in> set wanted \<longrightarrow> fst p \<noteq> fst q) (ts_entries st) \<and>
    ts_subkey st' = ts_subkey st \<and> ts_ttl_seconds st' = ts_ttl_seconds st \<and> ts_holder st' = ts_holder st \<and>
    n' = n + length (filter (\<lambda>q. te_key_hash (snd q) \<in> set wanted) es) \<and> (n' = n \<longrightarrow> st' = st)"
  using assms
proof (induction es arbitrary: n st)
  case (Cons q es)
  obtain mk e where q: "q = (mk, e)" by (cases q)
  show ?case
  proof (cases "te_key_hash e \<in> set wanted")
    case False
    then show ?thesis using Cons.IH [of n st] Cons.prems q by auto
  next
    case True
    obtain st1 where st1: "ts_AppendRecord C (nonces n) (ios n) (EncodeDropBody (te_owner_node e) (te_key_hash e)) st = (Inr (), st1)"
      using Cons.prems q True by (auto split: prod.splits sum.splits)
    then have same: "ts_entries st1 = ts_entries st" "ts_subkey st1 = ts_subkey st"
      "ts_ttl_seconds st1 = ts_ttl_seconds st" "ts_holder st1 = ts_holder st"
      by (auto simp: ts_AppendRecord_def split: prod.splits)
    have "release_loop C nonces ios wanted es (Suc n) (st1\<lparr>ts_entries := map_erase mk (ts_entries st1)\<rparr>) = (Inr n', st')"
      using Cons.prems q True st1 by simp
    from Cons.IH [OF this] show ?thesis
      using q True same by (auto simp: map_erase_def intro!: filter_cong)
  qed
qed (simp add: filter_id_conv)

lemma release_effect:
  assumes "Release C nonces ios cnonces cio khs st = (Inr n, st')" "distinct (map fst (ts_entries st))"
  shows "ts_entries st' = filter (\<lambda>p. te_key_hash (snd p) \<notin> set khs) (ts_entries st)"
    "n = length (filter (\<lambda>p. te_key_hash (snd p) \<in> set khs) (ts_entries st))"
proof -
  have *: "filter (\<lambda>p. \<forall>q\<in>set es. te_key_hash (snd q) \<in> set khs \<longrightarrow> fst p \<noteq> fst q) es =
      filter (\<lambda>p. te_key_hash (snd p) \<notin> set khs) es" if "distinct (map fst es)" for es :: transit_map
    using that by (intro filter_cong refl) (auto simp: distinct_map inj_on_def)
  show "ts_entries st' = filter (\<lambda>p. te_key_hash (snd p) \<notin> set khs) (ts_entries st)"
    "n = length (filter (\<lambda>p. te_key_hash (snd p) \<in> set khs) (ts_entries st))"
    using assms(1) * [OF assms(2)]
    by (auto simp: Release_def ts_CompactLocked_def filter_id_conv
        split: if_splits prod.splits sum.splits dest!: release_loop_effect)
qed

lemma release_inv:
  assumes "aead_laws C" "\<forall>i. \<exists>n. cnonces i = Some n \<and> length n = 12" "ts_inv C k st"
    and "Release C nonces ios cnonces CompactOk khs st = (Inr n, st')"
  shows "ts_inv C k st'"
proof (cases "khs = []")
  case True
  then show ?thesis using assms(3,4) by (simp add: Release_def)
next
  case False
  obtain m st1 where st1: "release_loop C nonces ios khs (ts_entries st) 0 st = (Inr m, st1)"
    using assms(4) False by (auto simp: Release_def split: prod.splits sum.splits)
  note eff = release_loop_effect [OF st1]
  show ?thesis
  proof (cases "m = 0")
    case True
    then show ?thesis using assms(3,4) False st1 eff by (simp add: Release_def)
  next
    case False2: False
    have "ts_subkey st1 = k" "rl_key_ok k" "entries_ok (ts_entries st1)"
      using assms(3) eff entries_ok_filter by (auto simp: ts_inv_def)
    then show ?thesis
      using compact_inv [OF assms(1,2)] assms(4) False False2 st1 by (fastforce simp: Release_def)
  qed
qed

lemma append_drops_effect:
  "append_drops C nonces ios i ds st = (Inr u, st') \<Longrightarrow>
     ts_entries st' = ts_entries st \<and> ts_subkey st' = ts_subkey st \<and> (ds = [] \<longrightarrow> st' = st)"
  by (induction C nonces ios i ds st rule: append_drops.induct)
     (auto simp: ts_AppendRecord_def split: prod.splits sum.splits)

lemma expire_effect:
  assumes "ExpireAsOf C nonces ios cnonces cio now st = (Inr n, st')"
  shows "ts_entries st' = filter (\<lambda>p. \<not> expired now (snd p)) (ts_entries st) \<and>
    n = length (filter (\<lambda>p. expired now (snd p)) (ts_entries st))"
  using assms
  by (auto simp: ExpireAsOf_def Let_def ts_CompactLocked_def split: if_splits prod.splits sum.splits
      dest!: append_drops_effect)

lemma expire_inv:
  assumes "aead_laws C" "\<forall>i. \<exists>n. cnonces i = Some n \<and> length n = 12" "ts_inv C k st"
    and "ExpireAsOf C nonces ios cnonces CompactOk now st = (Inr n, st')"
  shows "ts_inv C k st'"
proof (cases "filter (\<lambda>p. expired now (snd p)) (ts_entries st) = []")
  case True
  then have "filter (\<lambda>p. \<not> expired now (snd p)) (ts_entries st) = ts_entries st"
    by (auto simp: filter_empty_conv filter_id_conv)
  then show ?thesis using assms(3,4) True by (simp add: ExpireAsOf_def)
next
  case False
  let ?st = "st\<lparr>ts_entries := filter (\<lambda>p. \<not> expired now (snd p)) (ts_entries st)\<rparr>"
  let ?ds = "map (\<lambda>p. (te_owner_node (snd p), te_key_hash (snd p))) (filter (\<lambda>p. expired now (snd p)) (ts_entries st))"
  obtain st1 where st1: "append_drops C nonces ios 0 ?ds ?st = (Inr (), st1)"
    using assms(4) by (auto simp: ExpireAsOf_def Let_def split: prod.splits sum.splits)
  then have "ts_subkey st1 = k" "rl_key_ok k" "entries_ok (ts_entries st1)"
    using append_drops_effect [OF st1] assms(3) entries_ok_filter by (auto simp: ts_inv_def)
  then show ?thesis
    using compact_inv [OF assms(1,2)] assms(4) False st1 by (fastforce simp: ExpireAsOf_def Let_def)
qed

section \<open>Reachable stores\<close>

text \<open>The stores an empty directory leads to by operations that succeed.\<close>

inductive ts_reach :: "crypto \<Rightarrow> bytes \<Rightarrow> tstore \<Rightarrow> bool" for C dek where
  opened: "ts_reach C dek st"
    if "ts_Open C nonces io None ttl holder dek = Some (Inr st)"
| held: "ts_reach C dek st'"
    if "ts_reach C dek st" "Hold C (Some n) LogOk now e st = (Inr (), st')" "length n = 12" "env_ok (stamped now st e)"
| merged: "ts_reach C dek st'"
    if "ts_reach C dek st" "MergeRemoteEnvelope C (Some n) LogOk e st = (Inr (), st')" "length n = 12" "env_ok e"
| expired: "ts_reach C dek st'"
    if "ts_reach C dek st" "ExpireAsOf C nonces ios cnonces CompactOk now st = (Inr c, st')"
      "\<forall>i. \<exists>n. cnonces i = Some n \<and> length n = 12"
| released: "ts_reach C dek st'"
    if "ts_reach C dek st" "Release C nonces ios cnonces CompactOk khs st = (Inr c, st')"
      "\<forall>i. \<exists>n. cnonces i = Some n \<and> length n = 12"

lemma ts_Open_holds:
  assumes "key_for C transit_tag dek k" "holder \<noteq> []" "tlog.holds C k log rs"
  shows "ts_Open C nonces io (Some log) ttl holder dek =
    Some (Inr \<lparr>ts_log = log, ts_ttl_seconds = ttl, ts_holder = holder, ts_entries = foldl app_record [] rs,
      ts_load_corrupt = False, ts_subkey = k\<rparr>)"
proof -
  obtain b where "DetectLogMode (Some log) kTransitRecordCap (k \<noteq> []) = Inr b"
    using tlog.mode_ok [OF assms(3), of "[]"] by auto
  then show ?thesis
    using assms(2) key_for_facts [OF assms(1)]
    by (simp add: ts_Open_def ts_Load_def tlog.load_holds [OF assms(3)])
qed

lemma ts_Open_None: "ts_Open C nonces io None ttl holder dek = ts_Open C nonces io (Some []) ttl holder dek"
  by (simp add: ts_Open_def DetectLogMode_def split: sum.split)

lemma ts_Open_new:
  assumes "key_for C transit_tag dek k" "ts_Open C nonces io None ttl holder dek = Some (Inr st)"
  shows "ts_inv C k st"
proof -
  have "holder \<noteq> []" using assms(2) by (auto simp: ts_Open_def)
  then show ?thesis
    using ts_Open_holds [OF assms(1) _ tlog.holds_Nil] assms(2) [unfolded ts_Open_None] key_for_facts(1) [OF assms(1)] tlog.holds_Nil
    by (auto simp: ts_inv_def entries_ok_def intro!: exI [of _ "[]"])
qed

lemma ts_reach_inv:
  assumes "aead_laws C" "key_for C transit_tag dek k" "ts_reach C dek st"
  shows "ts_inv C k st"
  using assms(3)
proof induction
  case (opened nonces io ttl holder st)
  then show ?case using ts_Open_new [OF assms(2)] by blast
next
  case (held st n now e st')
  then show ?case
    using put_record_inv [OF assms(1) held(3,4) held.IH] by (auto simp: Hold_def split: if_splits)
next
  case (merged st n e st')
  then show ?case
    using put_record_inv [OF assms(1) merged(3,4) merged.IH] by (auto simp: MergeRemoteEnvelope_def split: if_splits)
next
  case (expired st nonces ios cnonces now c st')
  then show ?case using expire_inv [OF assms(1)] by blast
next
  case (released st nonces ios cnonces khs c st')
  then show ?case using release_inv [OF assms(1)] by blast
qed

lemma ts_reopen:
  assumes "key_for C transit_tag dek k" "holder \<noteq> []" "ts_inv C k st"
  shows "\<exists>st'. ts_Open C nonces io (Some (ts_log st)) ttl holder dek = Some (Inr st') \<and>
      map_of (ts_entries st') = map_of (ts_entries st) \<and> \<not> ts_load_corrupt st'"
  using assms(3) ts_Open_holds [OF assms(1,2)] by (fastforce simp: ts_inv_def)

lemma ts_reload_torn:
  assumes "aead_laws C" "ts_inv C k st" "length n = 12" "env_ok e"
    and "m < length (ts_log (snd (put_record C (Some n) LogOk e st))) - length (ts_log st)"
  shows "\<exists>st'. ts_Load C nonces io ((snd (put_record C (Some n) (LogFails m) e st))\<lparr>ts_entries := []\<rparr>) = Some st' \<and>
        map_of (ts_entries st') = map_of (ts_entries st) \<and> \<not> ts_load_corrupt st'"
proof -
  obtain rs where rs: "ts_subkey st = k" "rl_key_ok k" "tlog.holds C k (ts_log st) rs"
    "map_of (foldl app_record [] rs) = map_of (ts_entries st)"
    using assms(2) by (auto simp: ts_inv_def)
  obtain p where p: "rl_seal C transit_tag k (Some n) (EncodeEnvelope e) = Inr p"
    "rl_frame_ok C kTransitRecordCap transit_tag k (rl_frame p) (EncodeEnvelope e)"
    using tlog.seal_ok [OF assms(1) rs(2) assms(3), of "THold e"] assms(4) by auto
  then have "m < length (rl_frame p)"
    using assms(5) rs(1) by (simp add: put_record_def ts_AppendRecord_def rl_append_def)
  from tlog.load_torn [OF rs(3) p(2) this, of "[]"] show ?thesis
    using p(1) rs(1,4) by (simp add: put_record_def ts_AppendRecord_def rl_append_def ts_Load_def)
qed

section \<open>Properties\<close>


definition ex_envelope :: TransitEnvelope where
  "ex_envelope = \<lparr>te_owner_node = bytes_of ''b'', te_collection = bytes_of ''c'', te_key = bytes_of ''k'',
     te_key_hash = replicate 32 1, te_encoded_doc = bytes_of ''doc'', te_holder_node = bytes_of ''a'',
     te_intent_lsn = 4, te_expires_ms = 0, te_doc_size_bytes = 3, te_chunk_index = 0, te_chunk_total = 1,
     te_message_id = [], te_content_hash = [], te_holder_sig = []\<rparr>"

lemma ex_envelope_ok: "env_ok ex_envelope"
  by (simp add: env_ok_def ex_envelope_def EncodeEnvelope_def kTransitRecordCap_def bytes_of_def i64_ok_def)

lemma ex_transit_key: "key_for ex_crypto transit_tag (replicate 32 7) (replicate 32 7)"
  by (simp add: key_for_def FileSubkey_def kDekLen_def ex_crypto_def)

lemma ex_transit_reach:
  "\<exists>st. ts_reach ex_crypto (replicate 32 7) st \<and> ts_entries st = put_envelope ex_envelope []"
proof -
  let ?st0 = "\<lparr>ts_log = [], ts_ttl_seconds = 0, ts_holder = bytes_of ''a'', ts_entries = [],
    ts_load_corrupt = False, ts_subkey = replicate 32 7\<rparr>"
  have "ts_Open ex_crypto (\<lambda>_. None) CompactOk None 0 (bytes_of ''a'') (replicate 32 7) = Some (Inr ?st0)"
    unfolding ts_Open_None
    by (subst ts_Open_holds [OF ex_transit_key _ tlog.holds_Nil]) (simp_all add: bytes_of_def)
  then have reach: "ts_reach ex_crypto (replicate 32 7) ?st0" by (rule ts_reach.opened)
  then have "ts_inv ex_crypto (replicate 32 7) ?st0"
    using ts_reach_inv [OF ex_crypto_laws(1) ex_transit_key] by blast
  from put_record_inv [OF ex_crypto_laws(1) _ ex_envelope_ok this, of "replicate 12 2"]
  obtain log where log: "put_record ex_crypto (Some (replicate 12 2)) LogOk ex_envelope ?st0 =
      (Inr (), ?st0\<lparr>ts_log := log, ts_entries := put_envelope ex_envelope []\<rparr>)"
    by auto
  have "MergeRemoteEnvelope ex_crypto (Some (replicate 12 2)) LogOk ex_envelope ?st0 =
      (Inr (), ?st0\<lparr>ts_log := log, ts_entries := put_envelope ex_envelope []\<rparr>)"
    unfolding MergeRemoteEnvelope_def log by (simp add: ex_envelope_def bytes_of_def kWalHashLen_def)
  from ts_reach.merged [OF reach this _ ex_envelope_ok] show ?thesis by fastforce
qed


text \<open>
  C34: \<^verbatim>\<open>AppendRecord\<close> writes a record of any size but loading stops at one beyond 1 MiB. A hold
  whose record is beyond it (a chunk of the largest configurable size is, with its envelope
  fields) is acknowledged, and at the next start it and every envelope held after it are gone.
\<close>

theorem oversized_hold_loses_later_envelopes:
  assumes "ts_inv C [] st" "ts_log st \<noteq> []" "holder \<noteq> []"
    and "Hold C n LogOk now e st = (Inr (), st1)"
    and "kTransitRecordCap < length (EncodeEnvelope (stamped now st e))"
    and "length (EncodeEnvelope (stamped now st e)) < 2 ^ 32"
    and "Hold C n' LogOk now' e' st1 = (Inr (), st2)"
  shows "map_of (ts_entries st2) (MapKey (te_owner_node e') (te_key_hash e')) = Some (stamped now' st1 e') \<and>
    (\<exists>st'. ts_Open C nonces CompactOk (Some (ts_log st2)) ttl holder [] = Some (Inr st') \<and>
       map_of (ts_entries st') = map_of (ts_entries st) \<and> ts_load_corrupt st')"
proof -
  obtain rs where rs: "ts_subkey st = []" "tlog.holds C [] (ts_log st) rs"
    "map_of (foldl app_record [] rs) = map_of (ts_entries st)"
    using assms(1) by (auto simp: ts_inv_def)
  have st1: "ts_log st1 = ts_log st @ rl_frame (EncodeEnvelope (stamped now st e))" "ts_subkey st1 = []"
    using assms(4) rs(1)
    by (auto simp: Hold_def put_record_def ts_AppendRecord_def rl_append_def rl_seal_def split: if_splits)
  then have st2: "ts_log st2 = ts_log st @ rl_frame (EncodeEnvelope (stamped now st e)) @
      rl_frame (EncodeEnvelope (stamped now' st1 e'))"
    "map_of (ts_entries st2) (MapKey (te_owner_node e') (te_key_hash e')) = Some (stamped now' st1 e')"
    using assms(7)
    by (auto simp: Hold_def put_record_def ts_AppendRecord_def rl_append_def rl_seal_def put_envelope_def
        stamped_def split: if_splits)
  let ?st = "\<lparr>ts_log = ts_log st2, ts_ttl_seconds = ttl, ts_holder = holder, ts_entries = foldl app_record [] rs,
      ts_load_corrupt = True, ts_subkey = []\<rparr>"
  obtain b where "DetectLogMode (Some (ts_log st2)) kTransitRecordCap ([] \<noteq> ([] :: bytes)) = Inr b"
    unfolding st2(1) using tlog.mode_ok [OF rs(2)] assms(2) by blast
  moreover have "rl_load C kTransitRecordCap transit_tag [] ts_load_step [] (ts_log st2) = Some (foldl app_record [] rs, True)"
    unfolding st2(1) using tlog.load_oversized [OF rs(2) assms(5,6)] by blast
  ultimately have "ts_Open C nonces CompactOk (Some (ts_log st2)) ttl holder [] =
      Some (Inr (snd (ts_CompactLocked C nonces CompactOk ?st)))"
    using assms(3) by (simp add: ts_Open_def ts_Load_def)
  moreover have "ts_entries (snd (ts_CompactLocked C nonces CompactOk ?st)) = foldl app_record [] rs"
    "ts_load_corrupt (snd (ts_CompactLocked C nonces CompactOk ?st))"
    by (simp_all add: ts_CompactLocked_def case_prod_beta)
  ultimately show ?thesis using rs(3) st2(2) by simp
qed

theorem oversized_hold_loses_later_envelopes_witness:
  "\<exists>st st1 st2 st'. ts_entries st = put_envelope ex_envelope [] \<and>
     Hold ex_crypto None LogOk 0 (ex_envelope\<lparr>te_encoded_doc := replicate 1048576 0, te_key_hash := replicate 32 2\<rparr>) st =
       (Inr (), st1) \<and>
     Hold ex_crypto None LogOk 0 (ex_envelope\<lparr>te_key_hash := replicate 32 3\<rparr>) st1 = (Inr (), st2) \<and>
     ts_Open ex_crypto (\<lambda>_. None) CompactOk (Some (ts_log st2)) 0 (bytes_of ''a'') [] = Some (Inr st') \<and>
     map_of (ts_entries st') = map_of (ts_entries st)"
proof -
  let ?st0 = "\<lparr>ts_log = [], ts_ttl_seconds = 0, ts_holder = bytes_of ''a'', ts_entries = [],
    ts_load_corrupt = False, ts_subkey = []\<rparr>"
  let ?e = "ex_envelope\<lparr>te_encoded_doc := replicate 1048576 0, te_key_hash := replicate 32 2\<rparr>"
  let ?e' = "ex_envelope\<lparr>te_key_hash := replicate 32 3\<rparr>"
  have "ts_inv ex_crypto [] ?st0"
    using tlog.holds_Nil by (auto simp: ts_inv_def rl_key_ok_def entries_ok_def intro!: exI [of _ "[]"])
  from put_record_inv [OF ex_crypto_laws(1) _ ex_envelope_ok this, of "replicate 12 2"]
  obtain log where log: "put_record ex_crypto (Some (replicate 12 2)) LogOk ex_envelope ?st0 =
      (Inr (), ?st0\<lparr>ts_log := log, ts_entries := put_envelope ex_envelope []\<rparr>)"
    "ts_inv ex_crypto [] (?st0\<lparr>ts_log := log, ts_entries := put_envelope ex_envelope []\<rparr>)"
    by auto
  let ?st = "?st0\<lparr>ts_log := log, ts_entries := put_envelope ex_envelope []\<rparr>"
  have "log \<noteq> []"
    using log(1) by (auto simp: put_record_def ts_AppendRecord_def rl_append_def rl_seal_def rl_frame_def)
  have hold: "Hold ex_crypto None LogOk 0 e st = (Inr (), snd (Hold ex_crypto None LogOk 0 e st))"
    if "ts_subkey st = []" "te_owner_node e = bytes_of ''b''" "length (te_key_hash e) = 32" "ts_holder st = bytes_of ''a''" for e st
    using that by (simp add: Hold_def put_record_def ts_AppendRecord_def rl_append_def rl_seal_def bytes_of_def kWalHashLen_def)
  define st1 where "st1 = snd (Hold ex_crypto None LogOk 0 ?e ?st)"
  have h1: "Hold ex_crypto None LogOk 0 ?e ?st = (Inr (), st1)"
    unfolding st1_def by (rule hold) (simp_all add: ex_envelope_def)
  then have "ts_subkey st1 = []" "ts_holder st1 = bytes_of ''a''"
    by (auto simp: Hold_def put_record_def ts_AppendRecord_def rl_append_def rl_seal_def split: if_splits)
  then have h2: "Hold ex_crypto None LogOk 0 ?e' st1 = (Inr (), snd (Hold ex_crypto None LogOk 0 ?e' st1))"
    by (intro hold) (simp_all add: ex_envelope_def)
  have size: "kTransitRecordCap < length (EncodeEnvelope (stamped 0 ?st ?e))"
    "length (EncodeEnvelope (stamped 0 ?st ?e)) < 2 ^ 32"
    by (simp_all add: EncodeEnvelope_def stamped_def ex_envelope_def kTransitRecordCap_def bytes_of_def)
  have "ts_log ?st \<noteq> []" "bytes_of ''a'' \<noteq> []" using \<open>log \<noteq> []\<close> by (simp_all add: bytes_of_def)
  from oversized_hold_loses_later_envelopes [OF log(2) this h1 size h2, of "\<lambda>_. None" 0]
  obtain st' where "ts_Open ex_crypto (\<lambda>_. None) CompactOk (Some (ts_log (snd (Hold ex_crypto None LogOk 0 ?e' st1)))) 0
      (bytes_of ''a'') [] = Some (Inr st')" "map_of (ts_entries st') = map_of (ts_entries ?st)"
    by blast
  with h1 h2 show ?thesis
    by (intro exI [of _ ?st] exI [of _ st1] exI [of _ "snd (Hold ex_crypto None LogOk 0 ?e' st1)"] exI [of _ st']) simp
qed

end
