(* ===== verification/OutboxStore.thy ===== *)
theory OutboxStore
  imports RecordLog Wal
begin

text \<open>
  \<^verbatim>\<open>include/desentry/ledger/outbox_store.h\<close> and \<^verbatim>\<open>src/ledger/outbox_store.cpp\<close>: writes staged
  while the node is cut off from the mesh, an in-memory map over an append log, drained on
  reconnection.
\<close>

section \<open>Entries\<close>

definition kOutboxMagic :: u32 where "kOutboxMagic = 0x44534E4F"
definition kOutboxVersion :: u32 where "kOutboxVersion = 1"
definition kOutboxRecordCap :: nat where "kOutboxRecordCap = 1048576"
definition kRecordPut :: byte where "kRecordPut = 1"
definition kOutboxRecordDrop :: byte where "kOutboxRecordDrop = 2"
definition kOutboxCollection :: bytes where "kOutboxCollection = bytes_of ''_outbox''"

record OutboxEntry =
  oe_collection :: bytes
  oe_key :: bytes
  oe_key_hash :: bytes
  oe_encoded_doc :: bytes
  oe_hlc :: hlc
  oe_created_ms :: int

definition ob_MapKey :: "bytes \<Rightarrow> bytes \<Rightarrow> bytes" where
  "ob_MapKey coll kh = coll @ [0] @ kh"

definition EncodeEntry :: "OutboxEntry \<Rightarrow> bytes" where
  "EncodeEntry e =
     put_u32 kOutboxMagic @ put_u32 kOutboxVersion @ put_u8 kRecordPut @
     put_bytes (oe_collection e) @ put_bytes (oe_key e) @ put_bytes (oe_key_hash e) @
     put_bytes (oe_encoded_doc e) @ put_u64 (physical_ms (oe_hlc e)) @ put_u32 (logical (oe_hlc e)) @
     put_bytes (node_id (oe_hlc e)) @ put_i64 (oe_created_ms e)"

definition ob_EncodeDropBody :: "bytes \<Rightarrow> bytes \<Rightarrow> bytes" where
  "ob_EncodeDropBody coll kh =
     put_u32 kOutboxMagic @ put_u32 kOutboxVersion @ put_u8 kOutboxRecordDrop @ put_bytes coll @ put_bytes kh"

definition get_entry :: "bytes \<Rightarrow> OutboxEntry option" where
  "get_entry bs = do {
     (coll, bs) \<leftarrow> get_bytes bs;
     (key, bs) \<leftarrow> get_bytes bs;
     (kh, bs) \<leftarrow> get_bytes bs;
     (doc, bs) \<leftarrow> get_bytes bs;
     (p, bs) \<leftarrow> get_u64 bs;
     (l, bs) \<leftarrow> get_u32 bs;
     (nid, bs) \<leftarrow> get_bytes bs;
     (created, bs) \<leftarrow> get_i64 bs;
     if bs \<noteq> [] then None
     else if coll = [] \<or> length kh \<noteq> kWalHashLen then None
     else Some \<lparr>oe_collection = coll, oe_key = key, oe_key_hash = kh, oe_encoded_doc = doc,
                oe_hlc = HLC p l nid, oe_created_ms = created\<rparr> }"

text \<open>A drop record decodes to \<^verbatim>\<open>NotFound\<close>.\<close>

definition ob_Decode :: "bytes \<Rightarrow> OutboxEntry status_or" where
  "ob_Decode body =
     (case (do {
        (magic, bs) \<leftarrow> get_u32 body;
        if magic \<noteq> kOutboxMagic then Some (Inl kCorruption)
        else do {
          (version, bs) \<leftarrow> get_u32 bs;
          if version \<noteq> kOutboxVersion then Some (Inl kCorruption)
          else do {
            (kind, bs) \<leftarrow> get_u8 bs;
            if kind = kOutboxRecordDrop then Some (Inl kNotFound)
            else if kind \<noteq> kRecordPut then Some (Inl kCorruption)
            else map_option Inr (get_entry bs) } } })
      of None \<Rightarrow> Inl kCorruption | Some r \<Rightarrow> r)"

section \<open>The store\<close>

type_synonym outbox_map = "(bytes \<times> OutboxEntry) list"

record obstore =
  ob_log :: bytes
  ob_local_node_id :: bytes
  ob_entries :: outbox_map
  ob_subkey :: bytes

definition put_entry :: "OutboxEntry \<Rightarrow> outbox_map \<Rightarrow> outbox_map" where
  "put_entry e = map_put (ob_MapKey (oe_collection e) (oe_key_hash e)) e"

definition ob_load_step :: "outbox_map \<Rightarrow> bytes \<Rightarrow> outbox_map option" where
  "ob_load_step m body = (case ob_Decode body of Inl _ \<Rightarrow> Some m | Inr e \<Rightarrow> Some (put_entry e m))"

definition outbox_tag :: bytes where
  "outbox_tag = bytes_of ''outbox''"

definition ob_Load :: "crypto \<Rightarrow> obstore \<Rightarrow> obstore option" where
  "ob_Load C st =
     map_option (\<lambda>(m, _). st\<lparr>ob_entries := m\<rparr>)
       (rl_load C kOutboxRecordCap outbox_tag (ob_subkey st) ob_load_step (ob_entries st) (ob_log st))"

definition ob_Open :: "crypto \<Rightarrow> bytes option \<Rightarrow> bytes \<Rightarrow> bytes \<Rightarrow> obstore status_or option" where
  "ob_Open C file local_node_id dek =
     (if local_node_id = [] then Some (Inl kInvalidArgument)
      else if dek \<noteq> [] \<and> length dek \<noteq> 32 then Some (Inl kInvalidArgument)
      else case DetectLogMode file kOutboxRecordCap (dek \<noteq> []) of
        Inl e \<Rightarrow> Some (Inl e)
      | Inr _ \<Rightarrow>
          (case (if dek = [] then Inr [] else FileSubkey C dek outbox_tag) of
             Inl e \<Rightarrow> Some (Inl e)
           | Inr subkey \<Rightarrow>
               map_option Inr
                 (ob_Load C \<lparr>ob_log = (case file of None \<Rightarrow> [] | Some f \<Rightarrow> f),
                               ob_local_node_id = local_node_id, ob_entries = [], ob_subkey = subkey\<rparr>)))"

definition ob_AppendRecord :: "crypto \<Rightarrow> bytes option \<Rightarrow> log_io \<Rightarrow> bytes \<Rightarrow> obstore \<Rightarrow> unit status_or \<times> obstore" where
  "ob_AppendRecord C nonce io body st =
     (let (s, log) = rl_append C outbox_tag (ob_subkey st) nonce io body (ob_log st)
      in (s, st\<lparr>ob_log := log\<rparr>))"

definition ob_Put :: "crypto \<Rightarrow> bytes option \<Rightarrow> log_io \<Rightarrow> int \<Rightarrow> OutboxEntry \<Rightarrow> obstore \<Rightarrow> unit status_or \<times> obstore" where
  "ob_Put C nonce io now e st =
     (if oe_collection e = [] then (Inl kInvalidArgument, st)
      else if length (oe_key_hash e) \<noteq> kWalHashLen then (Inl kInvalidArgument, st)
      else if oe_collection e = kOutboxCollection then (Inl kInvalidArgument, st)
      else
        let stored = e\<lparr>oe_created_ms := now\<rparr>
        in case ob_AppendRecord C nonce io (EncodeEntry stored) st of
             (Inl err, st) \<Rightarrow> (Inl err, st)
           | (Inr _, st) \<Rightarrow> (Inr (), st\<lparr>ob_entries := put_entry stored (ob_entries st)\<rparr>))"

definition ob_CompactLocked :: "crypto \<Rightarrow> (nat \<Rightarrow> bytes option) \<Rightarrow> compact_io \<Rightarrow> obstore \<Rightarrow> unit status_or \<times> obstore" where
  "ob_CompactLocked C nonces io st =
     (let (s, log) = rl_compact C outbox_tag (ob_subkey st) nonces io
                       (map (EncodeEntry \<circ> snd) (ob_entries st)) (ob_log st)
      in (s, st\<lparr>ob_log := log\<rparr>))"

text \<open>A drop record that cannot be written is logged and skipped.\<close>

fun drain_drops ::
  "crypto \<Rightarrow> (nat \<Rightarrow> bytes option) \<Rightarrow> (nat \<Rightarrow> log_io) \<Rightarrow> nat \<Rightarrow> OutboxEntry list \<Rightarrow> obstore \<Rightarrow> obstore" where
  "drain_drops C nonces ios i [] st = st"
| "drain_drops C nonces ios i (e # es) st =
     drain_drops C nonces ios (Suc i) es
       (snd (ob_AppendRecord C (nonces i) (ios i) (ob_EncodeDropBody (oe_collection e) (oe_key_hash e)) st))"

text \<open>
  \<^verbatim>\<open>std::sort\<close> leaves the order of entries staged in the same millisecond unspecified; the model
  keeps the order of iteration for them.
\<close>

definition DrainAll ::
  "crypto \<Rightarrow> (nat \<Rightarrow> bytes option) \<Rightarrow> (nat \<Rightarrow> log_io) \<Rightarrow> (nat \<Rightarrow> bytes option) \<Rightarrow> compact_io \<Rightarrow> obstore \<Rightarrow>
   OutboxEntry list \<times> obstore" where
  "DrainAll C nonces ios cnonces cio st =
     (let out = sort_key oe_created_ms (map snd (ob_entries st))
      in if out = [] then (out, st)
         else
           let st = drain_drops C nonces ios 0 out st; st = st\<lparr>ob_entries := []\<rparr>
           in (out, snd (ob_CompactLocked C cnonces cio st)))"

definition ob_Size :: "obstore \<Rightarrow> nat" where
  "ob_Size st = length (ob_entries st)"

definition ob_BytesHeld :: "obstore \<Rightarrow> u64" where
  "ob_BytesHeld st = sum_list (map (\<lambda>p. of_nat (length (oe_encoded_doc (snd p)))) (ob_entries st))"

section \<open>Records of the log\<close>

definition oe_ok :: "OutboxEntry \<Rightarrow> bool" where
  "oe_ok e \<longleftrightarrow>
     oe_collection e \<noteq> [] \<and> length (oe_key_hash e) = 32 \<and> i64_ok (oe_created_ms e) \<and>
     length (EncodeEntry e) + 32 \<le> kOutboxRecordCap"

datatype outbox_record = OPut OutboxEntry | ODrop bytes bytes

fun ob_enc :: "outbox_record \<Rightarrow> bytes" where
  "ob_enc (OPut e) = EncodeEntry e"
| "ob_enc (ODrop coll kh) = ob_EncodeDropBody coll kh"

text \<open>What loading makes of a record: a drop record changes nothing.\<close>

fun ob_app :: "outbox_map \<Rightarrow> outbox_record \<Rightarrow> outbox_map" where
  "ob_app m (OPut e) = put_entry e m"
| "ob_app m (ODrop coll kh) = m"

fun ob_ok :: "outbox_record \<Rightarrow> bool" where
  "ob_ok (OPut e) = oe_ok e"
| "ob_ok (ODrop coll kh) = (length (ob_EncodeDropBody coll kh) + 32 \<le> kOutboxRecordCap)"

lemmas outbox_consts = kOutboxMagic_def kOutboxVersion_def kRecordPut_def kOutboxRecordDrop_def kWalHashLen_def

lemma decode_entry:
  assumes "oe_ok e"
  shows "ob_Decode (EncodeEntry e) = Inr e"
proof -
  have "fits (oe_collection e)" "fits (oe_key e)" "fits (oe_key_hash e)" "fits (oe_encoded_doc e)" "fits (node_id (oe_hlc e))"
    using assms by (simp_all add: oe_ok_def EncodeEntry_def kOutboxRecordCap_def fits_def)
  then show ?thesis
    using assms
    by (simp add: ob_Decode_def EncodeEntry_def get_entry_def codec_simps outbox_consts oe_ok_def)
qed

lemma decode_ob_drop: "ob_Decode (ob_EncodeDropBody coll kh) = Inl kNotFound"
  by (simp add: ob_Decode_def ob_EncodeDropBody_def codec_simps outbox_consts)

lemma outbox_magic_plain: "\<not> LooksSealedRecord (put_u32 kOutboxMagic @ x)"
proof -
  have "put_u32 kOutboxMagic \<noteq> kSealedRecordMagic" by code_simp
  then show ?thesis by (simp add: LooksSealedRecord_def)
qed

interpretation olog: record_log kOutboxRecordCap outbox_tag ob_enc ob_load_step ob_app ob_ok
proof
  show "kOutboxRecordCap < 2 ^ 32" by (simp add: kOutboxRecordCap_def)
  fix r :: outbox_record and m
  assume ok: "ob_ok r"
  then show "ob_load_step m (ob_enc r) = Some (ob_app m r)"
    by (cases r) (auto simp: ob_load_step_def decode_entry decode_ob_drop)
  show "ob_enc r \<noteq> [] \<and> length (ob_enc r) + 32 \<le> kOutboxRecordCap"
    using ok by (cases r) (auto simp: oe_ok_def EncodeEntry_def ob_EncodeDropBody_def)
  show "\<not> LooksSealedRecord (ob_enc r)"
    using ok by (cases r) (simp_all add: EncodeEntry_def ob_EncodeDropBody_def outbox_magic_plain)
qed

section \<open>The invariant\<close>

definition ob_inv :: "crypto \<Rightarrow> bytes \<Rightarrow> obstore \<Rightarrow> bool" where
  "ob_inv C k st \<longleftrightarrow>
     ob_subkey st = k \<and> rl_key_ok k \<and> (\<forall>p\<in>set (ob_entries st). oe_ok (snd p)) \<and>
     (\<exists>rs. olog.holds C k (ob_log st) rs \<and> map_of (foldl ob_app [] rs) = map_of (ob_entries st))"

lemma map_of_ob_app: "map_of m = map_of m' \<Longrightarrow> map_of (ob_app m r) = map_of (ob_app m' r)"
  by (cases r) (simp_all add: put_entry_def)

lemma ob_Put_inv:
  assumes "aead_laws C" "length n = 12" "oe_ok (e\<lparr>oe_created_ms := now\<rparr>)" "oe_collection e \<noteq> kOutboxCollection" "ob_inv C k st"
  shows "\<exists>log. ob_Put C (Some n) LogOk now e st =
      (Inr (), st\<lparr>ob_log := log, ob_entries := put_entry (e\<lparr>oe_created_ms := now\<rparr>) (ob_entries st)\<rparr>) \<and>
    ob_inv C k (st\<lparr>ob_log := log, ob_entries := put_entry (e\<lparr>oe_created_ms := now\<rparr>) (ob_entries st)\<rparr>)"
proof -
  let ?e = "e\<lparr>oe_created_ms := now\<rparr>"
  obtain rs where st: "ob_subkey st = k" "rl_key_ok k" "\<forall>p\<in>set (ob_entries st). oe_ok (snd p)"
    "olog.holds C k (ob_log st) rs" "map_of (foldl ob_app [] rs) = map_of (ob_entries st)"
    using assms(5) by (auto simp: ob_inv_def)
  obtain log where log: "rl_append C outbox_tag k (Some n) LogOk (EncodeEntry ?e) (ob_log st) = (Inr (), log)"
    "olog.holds C k log (rs @ [OPut ?e])"
    using olog.append_holds [OF assms(1) st(2) assms(2) _ st(4), of "OPut ?e"] assms(3) by auto
  have "map_of (foldl ob_app [] (rs @ [OPut ?e])) = map_of (put_entry ?e (ob_entries st))"
    using map_of_ob_app [OF st(5), of "OPut ?e"] by simp
  moreover have "\<forall>p\<in>set (put_entry ?e (ob_entries st)). oe_ok (snd p)"
    using st(3) assms(3) by (auto simp: put_entry_def map_put_def)
  ultimately have "ob_inv C k (st\<lparr>ob_log := log, ob_entries := put_entry ?e (ob_entries st)\<rparr>)"
    using st(1,2) log(2) unfolding ob_inv_def by auto
  then show ?thesis
    using st(1) log(1) assms(3,4)
    by (intro exI [of _ log]) (simp add: ob_Put_def Let_def ob_AppendRecord_def oe_ok_def kWalHashLen_def)
qed

lemma ob_Open_holds:
  assumes "key_for C outbox_tag dek k" "nid \<noteq> []" "olog.holds C k log rs"
  shows "ob_Open C (Some log) nid dek =
    Some (Inr \<lparr>ob_log = log, ob_local_node_id = nid, ob_entries = foldl ob_app [] rs, ob_subkey = k\<rparr>)"
proof -
  obtain b where "DetectLogMode (Some log) kOutboxRecordCap (k \<noteq> []) = Inr b"
    using olog.mode_ok [OF assms(3), of "[]"] by auto
  then show ?thesis
    using assms(2) key_for_facts [OF assms(1)]
    by (simp add: ob_Open_def ob_Load_def olog.load_holds [OF assms(3)])
qed

lemma drain_drops_holds:
  assumes "aead_laws C" "rl_key_ok k" "\<forall>i. \<exists>n. nonces i = Some n \<and> length n = 12"
    and "ob_subkey st = k" "olog.holds C k (ob_log st) rs" "list_all oe_ok es"
  shows "\<exists>ds. olog.holds C k (ob_log (drain_drops C nonces (\<lambda>_. LogOk) i es st)) (rs @ ds) \<and>
    (\<forall>d\<in>set ds. \<exists>c h. d = ODrop c h) \<and> ob_subkey (drain_drops C nonces (\<lambda>_. LogOk) i es st) = k"
  using assms(4-)
proof (induction es arbitrary: i st rs)
  case Nil
  then show ?case by (intro exI [of _ "[]"]) simp
next
  case (Cons e es)
  obtain n where n: "nonces i = Some n" "length n = 12" using assms(3) by blast
  let ?d = "ODrop (oe_collection e) (oe_key_hash e)"
  have "ob_ok ?d" using Cons.prems(3)
    by (simp add: oe_ok_def EncodeEntry_def ob_EncodeDropBody_def)
  then obtain log where log: "rl_append C outbox_tag k (Some n) LogOk (ob_enc ?d) (ob_log st) = (Inr (), log)"
    "olog.holds C k log (rs @ [?d])"
    using olog.append_holds [OF assms(1,2) n(2) _ Cons.prems(2)] by blast
  let ?st = "st\<lparr>ob_log := log\<rparr>"
  have app: "snd (ob_AppendRecord C (nonces i) LogOk (ob_EncodeDropBody (oe_collection e) (oe_key_hash e)) st) = ?st"
    using log(1) n(1) Cons.prems(1) by (simp add: ob_AppendRecord_def)
  obtain ds where ds: "olog.holds C k (ob_log (drain_drops C nonces (\<lambda>_. LogOk) (Suc i) es ?st)) ((rs @ [?d]) @ ds)"
    "\<forall>d\<in>set ds. \<exists>c h. d = ODrop c h" "ob_subkey (drain_drops C nonces (\<lambda>_. LogOk) (Suc i) es ?st) = k"
    using Cons.IH [of ?st "rs @ [?d]" "Suc i"] Cons.prems log(2) by auto
  then show ?case unfolding drain_drops.simps app by (intro exI [of _ "?d # ds"]) auto
qed

lemma foldl_drops: "\<forall>d\<in>set ds. \<exists>c h. d = ODrop c h \<Longrightarrow> foldl ob_app m ds = m"
  by (induction ds) auto

section \<open>Properties\<close>


definition ex_outbox_entry :: OutboxEntry where
  "ex_outbox_entry = \<lparr>oe_collection = bytes_of ''c'', oe_key = bytes_of ''k'', oe_key_hash = replicate 32 1,
     oe_encoded_doc = bytes_of ''doc'', oe_hlc = HLC 7 0 (bytes_of ''a''), oe_created_ms = 5\<rparr>"

lemma ex_outbox_entry_ok: "oe_ok ex_outbox_entry"
  by (simp add: oe_ok_def ex_outbox_entry_def EncodeEntry_def kOutboxRecordCap_def bytes_of_def i64_ok_def)

lemma ex_outbox_key: "key_for ex_crypto outbox_tag (replicate 32 7) (replicate 32 7)"
  by (simp add: key_for_def FileSubkey_def kDekLen_def ex_crypto_def)

lemma ex_outbox_inv:
  "\<exists>st. ob_inv ex_crypto (replicate 32 7) st \<and> ob_entries st = put_entry ex_outbox_entry []"
proof -
  let ?st0 = "\<lparr>ob_log = [], ob_local_node_id = bytes_of ''a'', ob_entries = [], ob_subkey = replicate 32 7\<rparr>"
  have inv: "ob_inv ex_crypto (replicate 32 7) ?st0"
    using olog.holds_Nil by (auto simp: ob_inv_def rl_key_ok_def intro!: exI [of _ "[]"])
  have e: "ex_outbox_entry\<lparr>oe_created_ms := 5\<rparr> = ex_outbox_entry" by (simp add: ex_outbox_entry_def)
  have "oe_collection ex_outbox_entry \<noteq> kOutboxCollection"
    by (simp add: ex_outbox_entry_def kOutboxCollection_def bytes_of_def)
  from ob_Put_inv [OF ex_crypto_laws(1) _ _ this inv, of "replicate 12 2" 5] e ex_outbox_entry_ok
  obtain log where "ob_inv ex_crypto (replicate 32 7) (?st0\<lparr>ob_log := log, ob_entries := put_entry ex_outbox_entry []\<rparr>)"
    by auto
  then show ?thesis by (intro exI [of _ "?st0\<lparr>ob_log := log, ob_entries := put_entry ex_outbox_entry []\<rparr>"]) simp
qed


end
