(* ===== verification/StorageRouter.thy ===== *)
theory StorageRouter
  imports RecordLog
begin

text \<open>
  \<^verbatim>\<open>src/storage/router.cpp\<close>: the cross-engine index (which engine on which node holds a key), a map
  over an append log, and the division of the data-plane budget among the engines when the router
  opens.
\<close>

section \<open>Entries of the index\<close>

definition kIndexRecordCap :: nat where "kIndexRecordCap = 1048576"

record IndexEntry =
  ie_key :: bytes
  ie_collection :: bytes
  ie_engine :: bytes
  ie_node_id :: bytes
  ie_updated_ms :: int

definition EncodeIndexEntry :: "IndexEntry \<Rightarrow> bytes" where
  "EncodeIndexEntry e =
     put_bytes (ie_key e) @ put_bytes (ie_collection e) @ put_bytes (ie_engine e) @
     put_bytes (ie_node_id e) @ put_i64 (ie_updated_ms e)"

text \<open>The reader inside the load loop; bytes after the last field are ignored.\<close>

definition get_index_entry :: "bytes \<Rightarrow> IndexEntry option" where
  "get_index_entry bs = do {
     (key, bs) \<leftarrow> get_bytes bs;
     (coll, bs) \<leftarrow> get_bytes bs;
     (engine, bs) \<leftarrow> get_bytes bs;
     (nid, bs) \<leftarrow> get_bytes bs;
     (updated, bs) \<leftarrow> get_i64 bs;
     Some \<lparr>ie_key = key, ie_collection = coll, ie_engine = engine, ie_node_id = nid, ie_updated_ms = updated\<rparr> }"

section \<open>The index\<close>

type_synonym index_map = "(bytes \<times> IndexEntry) list"

record xindex =
  ix_log :: bytes
  ix_entries :: index_map
  ix_subkey :: bytes

definition index_tag :: bytes where
  "index_tag = bytes_of ''index''"

definition put_index :: "IndexEntry \<Rightarrow> index_map \<Rightarrow> index_map" where
  "put_index e = map_put (ie_key e) e"

definition ix_load_step :: "index_map \<Rightarrow> bytes \<Rightarrow> index_map option" where
  "ix_load_step m body = map_option (\<lambda>e. put_index e m) (get_index_entry body)"

definition ix_Load :: "crypto \<Rightarrow> xindex \<Rightarrow> xindex option" where
  "ix_Load C ix =
     map_option (\<lambda>(m, _). ix\<lparr>ix_entries := m\<rparr>)
       (rl_load C kIndexRecordCap index_tag (ix_subkey ix) ix_load_step (ix_entries ix) (ix_log ix))"

definition ix_Open :: "crypto \<Rightarrow> bytes option \<Rightarrow> bytes \<Rightarrow> xindex status_or option" where
  "ix_Open C file dek =
     (if dek \<noteq> [] \<and> length dek \<noteq> 32 then Some (Inl kInvalidArgument)
      else case DetectLogMode file kIndexRecordCap (dek \<noteq> []) of
        Inl e \<Rightarrow> Some (Inl e)
      | Inr _ \<Rightarrow>
          (case (if dek = [] then Inr [] else FileSubkey C dek index_tag) of
             Inl e \<Rightarrow> Some (Inl e)
           | Inr subkey \<Rightarrow>
               map_option Inr
                 (ix_Load C \<lparr>ix_log = (case file of None \<Rightarrow> [] | Some f \<Rightarrow> f), ix_entries = [], ix_subkey = subkey\<rparr>)))"

definition ix_AppendRecord :: "crypto \<Rightarrow> bytes option \<Rightarrow> log_io \<Rightarrow> IndexEntry \<Rightarrow> xindex \<Rightarrow> unit status_or \<times> xindex" where
  "ix_AppendRecord C nonce io e ix =
     (let (s, log) = rl_append C index_tag (ix_subkey ix) nonce io (EncodeIndexEntry e) (ix_log ix)
      in (s, ix\<lparr>ix_log := log\<rparr>))"

definition ix_stamped :: "int \<Rightarrow> IndexEntry \<Rightarrow> IndexEntry" where
  "ix_stamped now e = (if ie_updated_ms e = 0 then e\<lparr>ie_updated_ms := now\<rparr> else e)"

definition Upsert :: "crypto \<Rightarrow> bytes option \<Rightarrow> log_io \<Rightarrow> int \<Rightarrow> IndexEntry \<Rightarrow> xindex \<Rightarrow> unit status_or \<times> xindex" where
  "Upsert C nonce io now e ix =
     (let stored = ix_stamped now e
      in case ix_AppendRecord C nonce io stored ix of
           (Inl err, ix) \<Rightarrow> (Inl err, ix)
         | (Inr _, ix) \<Rightarrow> (Inr (), ix\<lparr>ix_entries := put_index stored (ix_entries ix)\<rparr>))"

definition ix_Lookup :: "bytes \<Rightarrow> xindex \<Rightarrow> IndexEntry status_or" where
  "ix_Lookup key ix = (case map_of (ix_entries ix) key of None \<Rightarrow> Inl kNotFound | Some e \<Rightarrow> Inr e)"

definition ByEngine :: "bytes \<Rightarrow> xindex \<Rightarrow> IndexEntry list" where
  "ByEngine engine ix = filter (\<lambda>e. ie_engine e = engine) (map snd (ix_entries ix))"

definition ByCollection :: "bytes \<Rightarrow> xindex \<Rightarrow> IndexEntry list" where
  "ByCollection coll ix = filter (\<lambda>e. ie_collection e = coll) (map snd (ix_entries ix))"

definition ix_Size :: "xindex \<Rightarrow> nat" where
  "ix_Size ix = length (ix_entries ix)"

text \<open>The rewrite of the index never seals: it frames the plain encodings whatever the subkey is.\<close>

definition ix_Compact :: "crypto \<Rightarrow> compact_io \<Rightarrow> xindex \<Rightarrow> unit status_or \<times> xindex" where
  "ix_Compact C io ix =
     (let (s, log) = rl_compact C index_tag [] (\<lambda>_. None) io (map (EncodeIndexEntry \<circ> snd) (ix_entries ix)) (ix_log ix)
      in (s, ix\<lparr>ix_log := log\<rparr>))"

section \<open>The data-plane budget\<close>

text \<open>
  The products of \<^verbatim>\<open>StorageRouter::Open\<close> are on \<^verbatim>\<open>uint64_t\<close> and wrap. Zero stands for an
  unlimited budget, in the node's quota as in each engine's.
\<close>

definition kMiB :: u64 where "kMiB = 1048576"

definition db_bytes :: "u64 \<Rightarrow> u64 \<Rightarrow> u64" where
  "db_bytes quota_mb db_share_pct = (if quota_mb = 0 then 0 else quota_mb * 1024 * 1024 * db_share_pct div 100)"

definition total_mb :: "u64 \<Rightarrow> u64" where
  "total_mb db = (if db = 0 then 0 else (db + kMiB - 1) div kMiB)"

definition engine_mb :: "u64 \<Rightarrow> nat \<Rightarrow> nat \<Rightarrow> u64" where
  "engine_mb mb engines i =
     mb div of_nat engines + (if of_nat i < mb mod of_nat engines then 1 else 0)"

definition engine_budgets :: "u64 \<Rightarrow> nat \<Rightarrow> u64 list" where
  "engine_budgets mb engines = map (engine_mb mb engines) [0..<engines]"

section \<open>The log of the index\<close>

definition ie_ok :: "IndexEntry \<Rightarrow> bool" where
  "ie_ok e \<longleftrightarrow> i64_ok (ie_updated_ms e) \<and> length (EncodeIndexEntry e) + 32 \<le> kIndexRecordCap"

definition ix_app :: "index_map \<Rightarrow> IndexEntry \<Rightarrow> index_map" where
  "ix_app m e = put_index e m"

lemma get_index_entry_encode:
  assumes "ie_ok e"
  shows "get_index_entry (EncodeIndexEntry e) = Some e"
proof -
  have "fits (ie_key e)" "fits (ie_collection e)" "fits (ie_engine e)" "fits (ie_node_id e)"
    using assms by (simp_all add: ie_ok_def EncodeIndexEntry_def kIndexRecordCap_def fits_def)
  then show ?thesis
    using assms by (simp add: get_index_entry_def EncodeIndexEntry_def codec_simps ie_ok_def)
qed

text \<open>An index body starts with the length of its key, too small to be read as the seal's magic.\<close>

lemma index_plain:
  assumes "ie_ok e"
  shows "\<not> LooksSealedRecord (EncodeIndexEntry e)"
proof
  assume "LooksSealedRecord (EncodeIndexEntry e)"
  then have "put_u32 (of_nat (length (ie_key e))) = kSealedRecordMagic"
    by (simp add: LooksSealedRecord_def EncodeIndexEntry_def put_bytes_def)
  then have "(le_word (put_u32 (of_nat (length (ie_key e)))) :: u32) = le_word kSealedRecordMagic" by simp
  moreover have "(le_word kSealedRecordMagic :: u32) = 0x45575344"
    by (simp add: kSealedRecordMagic_def bytes_of_def of_char_def)
  moreover have "length (ie_key e) < kIndexRecordCap"
    using assms by (simp add: ie_ok_def EncodeIndexEntry_def)
  ultimately have "of_nat (length (ie_key e)) = (0x45575344 :: u32)" "length (ie_key e) < 2 ^ 32"
    "length (ie_key e) < 1048576"
    by (simp_all add: put_u32_def le_word_le_bytes kIndexRecordCap_def)
  then have "length (ie_key e) = unat (0x45575344 :: u32)" by (metis unat_of_nat_u32)
  then show False using \<open>length (ie_key e) < 1048576\<close> by simp
qed

interpretation xlog: record_log kIndexRecordCap index_tag EncodeIndexEntry ix_load_step ix_app ie_ok
proof
  show "kIndexRecordCap < 2 ^ 32" by (simp add: kIndexRecordCap_def)
  fix e :: IndexEntry and m
  assume ok: "ie_ok e"
  then show "ix_load_step m (EncodeIndexEntry e) = Some (ix_app m e)"
    by (simp add: ix_load_step_def get_index_entry_encode ix_app_def)
  show "EncodeIndexEntry e \<noteq> [] \<and> length (EncodeIndexEntry e) + 32 \<le> kIndexRecordCap"
    using ok by (auto simp: ie_ok_def EncodeIndexEntry_def put_i64_def)
  show "\<not> LooksSealedRecord (EncodeIndexEntry e)" by (rule index_plain [OF ok])
qed

section \<open>The invariant of the index\<close>

definition ix_inv :: "crypto \<Rightarrow> bytes \<Rightarrow> xindex \<Rightarrow> bool" where
  "ix_inv C k ix \<longleftrightarrow>
     ix_subkey ix = k \<and> rl_key_ok k \<and> distinct (map fst (ix_entries ix)) \<and>
     (\<forall>p\<in>set (ix_entries ix). ie_ok (snd p) \<and> fst p = ie_key (snd p)) \<and>
     (\<exists>rs. xlog.holds C k (ix_log ix) rs \<and> map_of (foldl ix_app [] rs) = map_of (ix_entries ix))"

lemma ix_inv_fresh: "rl_key_ok k \<Longrightarrow> ix_inv C k \<lparr>ix_log = [], ix_entries = [], ix_subkey = k\<rparr>"
  using xlog.holds_Nil by (auto simp: ix_inv_def intro!: exI [of _ "[]"])

lemma Upsert_inv:
  assumes "aead_laws C" "length n = 12" "ie_ok (ix_stamped now e)" "ix_inv C k ix"
  shows "\<exists>log. Upsert C (Some n) LogOk now e ix =
      (Inr (), ix\<lparr>ix_log := log, ix_entries := put_index (ix_stamped now e) (ix_entries ix)\<rparr>) \<and>
    ix_inv C k (ix\<lparr>ix_log := log, ix_entries := put_index (ix_stamped now e) (ix_entries ix)\<rparr>)"
proof -
  let ?e = "ix_stamped now e"
  obtain rs where ix: "ix_subkey ix = k" "rl_key_ok k" "distinct (map fst (ix_entries ix))"
    "\<forall>p\<in>set (ix_entries ix). ie_ok (snd p) \<and> fst p = ie_key (snd p)"
    "xlog.holds C k (ix_log ix) rs" "map_of (foldl ix_app [] rs) = map_of (ix_entries ix)"
    using assms(4) by (auto simp: ix_inv_def)
  obtain log where log: "rl_append C index_tag k (Some n) LogOk (EncodeIndexEntry ?e) (ix_log ix) = (Inr (), log)"
    "xlog.holds C k log (rs @ [?e])"
    using xlog.append_holds [OF assms(1) ix(2) assms(2,3) ix(5)] by blast
  have "map_of (foldl ix_app [] (rs @ [?e])) = map_of (put_index ?e (ix_entries ix))"
    using ix(6) by (simp add: ix_app_def put_index_def)
  moreover have "\<forall>p\<in>set (put_index ?e (ix_entries ix)). ie_ok (snd p) \<and> fst p = ie_key (snd p)"
    using ix(4) assms(3) by (auto simp: put_index_def map_put_def)
  moreover have "distinct (map fst (put_index ?e (ix_entries ix)))"
    using ix(3) by (simp add: put_index_def)
  ultimately have "ix_inv C k (ix\<lparr>ix_log := log, ix_entries := put_index ?e (ix_entries ix)\<rparr>)"
    using ix(1,2) log(2) unfolding ix_inv_def by auto
  then show ?thesis
    using ix(1) log(1) by (intro exI [of _ log]) (simp add: Upsert_def ix_AppendRecord_def)
qed

lemma ix_Open_holds:
  assumes "key_for C index_tag dek k" "xlog.holds C k log rs"
  shows "ix_Open C (Some log) dek = Some (Inr \<lparr>ix_log = log, ix_entries = foldl ix_app [] rs, ix_subkey = k\<rparr>)"
proof -
  obtain b where "DetectLogMode (Some log) kIndexRecordCap (k \<noteq> []) = Inr b"
    using xlog.mode_ok [OF assms(2), of "[]"] by auto
  then show ?thesis
    using key_for_facts [OF assms(1)] by (simp add: ix_Open_def ix_Load_def xlog.load_holds [OF assms(2)])
qed

lemma map_of_ix_app: "map_of (ix_app m e) = (map_of m)(ie_key e \<mapsto> e)"
  by (simp add: ix_app_def put_index_def)

lemma map_of_foldl_ix_app:
  assumes "distinct (map fst es)" "\<forall>p\<in>set es. fst p = ie_key (snd p)"
  shows "map_of (foldl ix_app m (map snd es)) = map_of m ++ map_of es"
  using assms
proof (induction es arbitrary: m)
  case (Cons p es)
  then have "ie_key (snd p) \<notin> dom (map_of es)" by (simp add: dom_map_of_conv_image_fst)
  then have "(map_of m)(ie_key (snd p) \<mapsto> snd p) ++ map_of es = (map_of m ++ map_of es)(ie_key (snd p) \<mapsto> snd p)"
    by (rule map_add_upd_left)
  moreover have "p = (ie_key (snd p), snd p)" using Cons.prems(2) by (cases p) simp
  then have "map_of (p # es) = (map_of es)(ie_key (snd p) \<mapsto> snd p)" by (metis map_of.simps(2) prod.sel)
  moreover have "map_of (foldl ix_app (ix_app m (snd p)) (map snd es)) = map_of (ix_app m (snd p)) ++ map_of es"
    using Cons.prems by (intro Cons.IH) auto
  ultimately show ?case
    by (simp only: list.map foldl_Cons map_of_ix_app map_add_upd)
qed simp

lemma rl_frames_plain: "rl_frames C tag [] nonces i bs = rl_frames C tag [] nonces' i bs"
  by (induction bs arbitrary: i) (simp_all add: rl_seal_def)

text \<open>What a compaction leaves on disk: the live entries, in the plain.\<close>

lemma ix_Compact_holds:
  assumes "aead_laws C" "ix_inv C k ix"
  shows "\<exists>log. ix_Compact C CompactOk ix = (Inr (), ix\<lparr>ix_log := log\<rparr>) \<and>
    xlog.holds C [] log (map snd (ix_entries ix))"
proof -
  have "list_all ie_ok (map snd (ix_entries ix))" using assms(2) by (auto simp: ix_inv_def list_all_iff)
  then obtain log where "rl_compact C index_tag [] (\<lambda>_. Some (replicate 12 0)) CompactOk
      (map EncodeIndexEntry (map snd (ix_entries ix))) (ix_log ix) = (Inr (), log)"
    "xlog.holds C [] log (map snd (ix_entries ix))"
    using xlog.compact_holds [OF assms(1), of "[]" "\<lambda>_. Some (replicate 12 0)" "map snd (ix_entries ix)" "ix_log ix"]
    by (auto simp: rl_key_ok_def)
  then show ?thesis
    unfolding ix_Compact_def rl_compact_def rl_frames_plain [of _ _ "\<lambda>_. None" _ _ "\<lambda>_. Some (replicate 12 0)"]
    by (intro exI [of _ log]) (simp add: comp_def)
qed

section \<open>Properties\<close>

text \<open>
  An index entry that was acknowledged is found after a restart with its stamp, and every other
  key is found as it was before.
\<close>

theorem index_upsert_survives_restart:
  assumes "aead_laws C" "key_for C index_tag dek k" "ix_inv C k ix" "length n = 12" "ie_ok (ix_stamped now e)"
  shows "\<exists>ix1 ix2. Upsert C (Some n) LogOk now e ix = (Inr (), ix1) \<and> ix_inv C k ix1 \<and>
    ix_Open C (Some (ix_log ix1)) dek = Some (Inr ix2) \<and>
    (\<forall>key. ix_Lookup key ix2 = (if key = ie_key e then Inr (ix_stamped now e) else ix_Lookup key ix))"
proof -
  obtain log where log: "Upsert C (Some n) LogOk now e ix =
      (Inr (), ix\<lparr>ix_log := log, ix_entries := put_index (ix_stamped now e) (ix_entries ix)\<rparr>)"
    "ix_inv C k (ix\<lparr>ix_log := log, ix_entries := put_index (ix_stamped now e) (ix_entries ix)\<rparr>)"
    using Upsert_inv [OF assms(1,4,5,3)] by blast
  then obtain rs where "xlog.holds C k log rs"
    "map_of (foldl ix_app [] rs) = map_of (put_index (ix_stamped now e) (ix_entries ix))"
    by (auto simp: ix_inv_def)
  moreover have "ie_key (ix_stamped now e) = ie_key e" by (simp add: ix_stamped_def)
  ultimately show ?thesis
    using log ix_Open_holds [OF assms(2)] by (auto simp: ix_Lookup_def put_index_def)
qed

text \<open>
  C37: compacting the index writes its entries unsealed. Without a key every lookup survives the
  compaction and a restart; with one, the compaction reports success, puts the entries in the plain
  on disk, and the next start refuses the index, and with it the whole storage router.
\<close>

theorem compacting_sealed_index_locks_it:
  assumes "aead_laws C" "key_for C index_tag dek k" "ix_inv C k ix" "ix_entries ix \<noteq> []"
  shows "\<exists>ix1. ix_Compact C CompactOk ix = (Inr (), ix1) \<and>
    (if dek = [] then \<exists>ix2. ix_Open C (Some (ix_log ix1)) dek = Some (Inr ix2) \<and> (\<forall>key. ix_Lookup key ix2 = ix_Lookup key ix)
     else ix_Open C (Some (ix_log ix1)) dek = Some (Inl kCorruption))"
proof -
  obtain log where log: "ix_Compact C CompactOk ix = (Inr (), ix\<lparr>ix_log := log\<rparr>)"
    "xlog.holds C [] log (map snd (ix_entries ix))"
    using ix_Compact_holds [OF assms(1,3)] by blast
  show ?thesis
  proof (cases "dek = []")
    case True
    then have "k = []" using key_for_facts(2) [OF assms(2)] by simp
    then show ?thesis
      using True log ix_Open_holds [OF assms(2)] assms(3) map_of_foldl_ix_app [of "ix_entries ix" "[]"]
      by (auto simp: ix_Lookup_def ix_inv_def)
  next
    case False
    have "DetectLogMode (Some log) kIndexRecordCap True = Inl kCorruption"
      using xlog.mode_mismatch [OF log(2)] assms(4) by simp
    then show ?thesis
      using False log(1) key_for_facts(3) [OF assms(2)] by (simp add: ix_Open_def)
  qed
qed

definition ex_index_entry :: IndexEntry where
  "ex_index_entry = \<lparr>ie_key = bytes_of ''k'', ie_collection = bytes_of ''c'', ie_engine = bytes_of ''kv'',
     ie_node_id = bytes_of ''a'', ie_updated_ms = 0\<rparr>"

lemma ex_index_entry_ok: "ie_ok (ix_stamped 5 ex_index_entry)"
  by (simp add: ie_ok_def ix_stamped_def ex_index_entry_def EncodeIndexEntry_def kIndexRecordCap_def bytes_of_def i64_ok_def)

lemma ex_index_key: "key_for ex_crypto index_tag (replicate 32 7) (replicate 32 7)"
  by (simp add: key_for_def FileSubkey_def kDekLen_def ex_crypto_def)

lemma ex_index_inv: "ix_inv ex_crypto (replicate 32 7) \<lparr>ix_log = [], ix_entries = [], ix_subkey = replicate 32 7\<rparr>"
  by (rule ix_inv_fresh) (simp add: rl_key_ok_def)

theorem index_upsert_survives_restart_witness:
  "\<exists>ix1 ix2. Upsert ex_crypto (Some (replicate 12 2)) LogOk 5 ex_index_entry
       \<lparr>ix_log = [], ix_entries = [], ix_subkey = replicate 32 7\<rparr> = (Inr (), ix1) \<and>
     ix_Open ex_crypto (Some (ix_log ix1)) (replicate 32 7) = Some (Inr ix2) \<and>
     ix_Lookup (bytes_of ''k'') ix2 = Inr (ex_index_entry\<lparr>ie_updated_ms := 5\<rparr>)"
proof -
  have "length (replicate 12 (2 :: byte)) = 12" by simp
  from index_upsert_survives_restart [OF ex_crypto_laws(1) ex_index_key ex_index_inv this ex_index_entry_ok]
  obtain ix1 ix2 where "Upsert ex_crypto (Some (replicate 12 2)) LogOk 5 ex_index_entry
       \<lparr>ix_log = [], ix_entries = [], ix_subkey = replicate 32 7\<rparr> = (Inr (), ix1)"
    "ix_Open ex_crypto (Some (ix_log ix1)) (replicate 32 7) = Some (Inr ix2)"
    "ix_Lookup (ie_key ex_index_entry) ix2 = Inr (ix_stamped 5 ex_index_entry)"
    by auto
  then show ?thesis by (auto simp: ex_index_entry_def ix_stamped_def)
qed

theorem compacting_sealed_index_locks_it_witness:
  "\<exists>ix ix1. ix_entries ix = put_index (ix_stamped 5 ex_index_entry) [] \<and>
     ix_Compact ex_crypto CompactOk ix = (Inr (), ix1) \<and>
     ix_Open ex_crypto (Some (ix_log ix1)) (replicate 32 7) = Some (Inl kCorruption)"
proof -
  let ?k = "replicate 32 7" and ?es = "put_index (ix_stamped 5 ex_index_entry) []"
  obtain log where inv: "ix_inv ex_crypto ?k \<lparr>ix_log = log, ix_entries = ?es, ix_subkey = ?k\<rparr>"
    using Upsert_inv [OF ex_crypto_laws(1) _ ex_index_entry_ok ex_index_inv, of "replicate 12 2"] by auto
  have "ix_entries \<lparr>ix_log = log, ix_entries = ?es, ix_subkey = ?k\<rparr> \<noteq> []" by (simp add: put_index_def map_put_def)
  from compacting_sealed_index_locks_it [OF ex_crypto_laws(1) ex_index_key inv this]
  obtain ix1 where "ix_Compact ex_crypto CompactOk \<lparr>ix_log = log, ix_entries = ?es, ix_subkey = ?k\<rparr> = (Inr (), ix1)"
    "ix_Open ex_crypto (Some (ix_log ix1)) ?k = Some (Inl kCorruption)"
    by auto
  then show ?thesis by (metis xindex.select_convs(2))
qed

section \<open>The budgets of the engines\<close>

lemma unat_engine_mb:
  assumes "0 < n" "n < 2 ^ 32" "i < n"
  shows "unat (engine_mb mb n i) = unat mb div n + (if i < unat mb mod n then 1 else 0)"
proof -
  have n: "unat (of_nat n :: u64) = n" "unat (of_nat i :: u64) = i"
    using assms by (simp_all add: unat_of_nat take_bit_nat_eq_self)
  have q: "unat (mb div of_nat n) = unat mb div n" by (simp add: unat_div n)
  have r: "unat (mb mod of_nat n) = unat mb mod n" by (simp add: unat_mod n)
  have lt: "of_nat i < mb mod of_nat n \<longleftrightarrow> i < unat mb mod n" by (simp add: word_less_nat_alt n r)
  show ?thesis
  proof (cases "i < unat mb mod n")
    case True
    then have "n \<noteq> 1" by auto
    then have "2 * (unat mb div n) \<le> unat mb"
      using assms(1) by (metis One_nat_def Suc_leI div_times_less_eq_dividend dual_order.trans le_neq_implies_less mult.commute mult_le_mono1 numeral_2_eq_2)
    moreover have "unat mb < 2 ^ 64" using unsigned_less [where 'a = nat, of mb] by simp
    ultimately have "unat mb div n + 1 < 2 ^ 64" by simp
    then have "unat (mb div of_nat n + 1) = unat mb div n + 1"
      using q by (subst unat_plus_if_size) (simp add: word_size)
    then show ?thesis using True lt by (simp add: engine_mb_def)
  qed (use lt q in \<open>simp add: engine_mb_def\<close>)
qed

lemma sum_dealt: "r \<le> n \<Longrightarrow> sum_list (map (\<lambda>i. q + (if i < r then 1 else 0)) [0..<n]) = n * q + (r :: nat)"
proof -
  assume "r \<le> n"
  have "sum_list (map (\<lambda>i. q + (if i < r then 1 else 0)) [0..<n]) = n * q + min n r" for n
    by (induction n) (auto simp: min_def)
  then show ?thesis using \<open>r \<le> n\<close> by simp
qed

text \<open>
  The budgets dealt to the engines sum to the data-plane share, no two differ by more than one
  MiB, and, when the share has fewer MiB than there are engines, the engines left over get the
  budget 0, which every backend reads as unlimited.
\<close>

theorem engine_budgets_dealt:
  assumes "0 < n" "n < 2 ^ 32"
  shows "sum_list (map unat (engine_budgets mb n)) = unat mb \<and>
    (\<forall>a\<in>set (engine_budgets mb n). \<forall>b\<in>set (engine_budgets mb n). unat a \<le> unat b + 1) \<and>
    (unat mb < n \<longrightarrow> 0 \<in> set (engine_budgets mb n))"
proof (intro conjI)
  have "map unat (engine_budgets mb n) = map (\<lambda>i. unat mb div n + (if i < unat mb mod n then 1 else 0)) [0..<n]"
    using assms by (auto simp: engine_budgets_def unat_engine_mb)
  then show "sum_list (map unat (engine_budgets mb n)) = unat mb"
    using assms(1) by (simp only: sum_dealt mod_le_divisor) simp
  show "\<forall>a\<in>set (engine_budgets mb n). \<forall>b\<in>set (engine_budgets mb n). unat a \<le> unat b + 1"
    using assms by (auto simp: engine_budgets_def unat_engine_mb)
  show "unat mb < n \<longrightarrow> 0 \<in> set (engine_budgets mb n)"
  proof
    assume "unat mb < n"
    then have "unat (engine_mb mb n (n - 1)) = 0" using assms by (auto simp: unat_engine_mb)
    then have "engine_mb mb n (n - 1) = 0" by (simp add: unat_eq_0)
    then show "0 \<in> set (engine_budgets mb n)"
      using assms(1) unfolding engine_budgets_def by (auto intro!: image_eqI [of _ _ "n - 1"])
  qed
qed

theorem engine_budgets_dealt_witness:
  "sum_list (map unat (engine_budgets (total_mb (db_bytes 2 60)) 5)) = 2 \<and> 0 \<in> set (engine_budgets (total_mb (db_bytes 2 60)) 5)"
proof -
  have "unat (total_mb (db_bytes 2 60)) = 2" by (simp add: total_mb_def db_bytes_def kMiB_def)
  then show ?thesis using engine_budgets_dealt [of 5 "total_mb (db_bytes 2 60)"] by simp
qed

end
