(* ===== verification/ChangeFeed.thy ===== *)
theory ChangeFeed
  imports WalChain
begin

text \<open>
  \<^verbatim>\<open>include/desentry/ledger/change_feed.h\<close> and \<^verbatim>\<open>src/ledger/change_feed.cpp\<close>: the long poll over
  the ledger's tip. The ledger is the one of the theory \<open>Wal\<close>; what happens while a waiter has given
  up the lock (appends, publications, a stop, time passing) is an explicit list of rounds.
\<close>

section \<open>The feed\<close>

record ChangeBatch =
  cb_entries :: "WalRecord list"
  cb_from :: int
  cb_tip :: int
  cb_truncated :: bool

record change_feed =
  cf_stopped :: bool
  max_tip_ever :: int

definition fresh_feed :: change_feed where
  "fresh_feed = \<lparr>cf_stopped = False, max_tip_ever = kInvalidLsn\<rparr>"

definition LastLsn :: "wal \<Rightarrow> int" where
  "LastLsn w = next_lsn w - 1"

definition Publish :: "int \<Rightarrow> change_feed \<Rightarrow> change_feed" where
  "Publish tip f = (if tip > max_tip_ever f then f\<lparr>max_tip_ever := tip\<rparr> else f)"

definition Stop :: "change_feed \<Rightarrow> change_feed" where
  "Stop f = f\<lparr>cf_stopped := True\<rparr>"

definition stale :: "int \<Rightarrow> int \<Rightarrow> change_feed \<Rightarrow> bool" where
  "stale since tip f =
     (let oldest = tip + 1
      in since \<ge> 0 \<and> (since > tip \<or> oldest > since + 1 \<or> (since < tip \<and> tip < max_tip_ever f)))"

definition Snapshot :: "crypto \<Rightarrow> wal \<Rightarrow> int \<Rightarrow> nat \<Rightarrow> change_feed \<Rightarrow> (ChangeBatch \<times> change_feed) option" where
  "Snapshot C w since limit f =
     (let tip = LastLsn w;
          batch = \<lparr>cb_entries = [], cb_from = since, cb_tip = tip, cb_truncated = False\<rparr>;
          is_stale = stale since tip f;
          f = (if since \<ge> tip then f\<lparr>max_tip_ever := tip\<rparr>
               else if tip > max_tip_ever f then f\<lparr>max_tip_ever := tip\<rparr> else f)
      in if is_stale then Some (batch\<lparr>cb_truncated := True\<rparr>, f)
         else
           let from = (if since = kInvalidLsn then kInvalidLsn else since + 1)
           in case ReadRange C w from tip of
                None \<Rightarrow> None
              | Some records \<Rightarrow>
                  Some (batch\<lparr>cb_entries := (if limit \<noteq> 0 then take limit records else records)\<rparr>, f))"

text \<open>
  One round of \<^verbatim>\<open>Wait\<close>: the ledger it reads, the clock after the read, and what the other threads
  do to the feed while it sleeps.
\<close>

record wait_round =
  wr_wal :: wal
  wr_now :: int
  wr_published :: "int list"
  wr_stop :: bool

definition asleep :: "wait_round \<Rightarrow> change_feed \<Rightarrow> change_feed" where
  "asleep r f = (let f = fold Publish (wr_published r) f in if wr_stop r then Stop f else f)"

datatype wait_result = Waiting | Threw | Returned "ChangeBatch status_or"

fun wait_loop :: "crypto \<Rightarrow> int \<Rightarrow> int \<Rightarrow> nat \<Rightarrow> wait_round list \<Rightarrow> change_feed \<Rightarrow> wait_result \<times> change_feed" where
  "wait_loop C since deadline limit [] f = (Waiting, f)"
| "wait_loop C since deadline limit (r # rs) f =
     (case Snapshot C (wr_wal r) since limit f of
        None \<Rightarrow> (Threw, f)
      | Some (batch, f) \<Rightarrow>
          if cb_entries batch \<noteq> [] \<or> cb_truncated batch then (Returned (Inr batch), f)
          else if cf_stopped f then (Returned (Inl kInternal), f)
          else if deadline - wr_now r \<le> 0 then (Returned (Inr batch), f)
          else wait_loop C since deadline limit rs (asleep r f))"

definition Wait ::
  "crypto \<Rightarrow> int \<Rightarrow> u32 \<Rightarrow> nat \<Rightarrow> int \<Rightarrow> wait_round list \<Rightarrow> change_feed \<Rightarrow> wait_result \<times> change_feed" where
  "Wait C since timeout_ms limit start rounds f =
     (if cf_stopped f then (Returned (Inl kInternal), f)
      else wait_loop C since (start + int (unat timeout_ms)) limit rounds f)"

section \<open>Snapshots of a sound ledger\<close>

lemma wal_inv_bounds:
  assumes "wal_inv C w fs rs"
  shows "- 1 \<le> LastLsn w" "\<forall>r\<in>set rs. 0 \<le> lsn r \<and> lsn r \<le> LastLsn w"
proof -
  have rs: "ascending rs" "next_lsn w = (if rs = [] then 0 else lsn (last rs) + 1)"
    using assms unfolding wal_inv_def by blast+
  have "\<forall>r\<in>set rs. 0 \<le> lsn r \<and> lsn r \<le> lsn (last rs)"
    using rs(1) by (cases rs rule: rev_cases) (auto simp: ascending_def list_all_iff sorted_wrt_append)
  with rs(2) show "- 1 \<le> LastLsn w" "\<forall>r\<in>set rs. 0 \<le> lsn r \<and> lsn r \<le> LastLsn w"
    by (cases rs rule: rev_cases; force simp: LastLsn_def)+
qed

lemma stale_iff: "stale since tip f \<longleftrightarrow> 0 \<le> since \<and> since \<noteq> tip"
  by (auto simp: stale_def)

lemma Snapshot_inv:
  assumes "wal_inv C w fs rs"
  shows "\<exists>f'. Snapshot C w since limit f =
    Some (\<lparr>cb_entries = (if since < 0 then (if limit \<noteq> 0 then take limit (filter (\<lambda>r. since + 1 \<le> lsn r) rs) else filter (\<lambda>r. since + 1 \<le> lsn r) rs) else []),
           cb_from = since, cb_tip = LastLsn w, cb_truncated = (0 \<le> since \<and> since \<noteq> LastLsn w)\<rparr>, f') \<and>
    cf_stopped f' = cf_stopped f"
proof -
  have b: "\<forall>r\<in>set rs. 0 \<le> lsn r \<and> lsn r \<le> LastLsn w" by (rule wal_inv_bounds(2) [OF assms])
  have all: "filter (\<lambda>r. (if since = kInvalidLsn then kInvalidLsn else since + 1) \<le> lsn r \<and> lsn r \<le> LastLsn w) rs =
      filter (\<lambda>r. since + 1 \<le> lsn r) rs"
    using b by (intro filter_cong) (auto simp: kInvalidLsn_def)
  have none: "filter (\<lambda>r. since + 1 \<le> lsn r) rs = []" if "since = LastLsn w"
    using b that by (force simp: filter_empty_conv)
  show ?thesis
    using none unfolding Snapshot_def Let_def ReadRange_inv [OF assms] all stale_iff
    by (cases "0 \<le> since") auto
qed

section \<open>Properties\<close>

text \<open>
  C40: on a sound ledger the feed answers the initial cursor with the oldest records, up to the
  limit, and the current cursor with an empty batch; every other cursor, also one that names a
  record the ledger still has with all its successors, is answered with \<open>truncated\<close> and no
  records, so a client that resumes behind the tip is never sent the records after its cursor.
\<close>

theorem change_feed_never_resumes:
  assumes "wal_inv C w fs rs"
  shows "\<exists>batch f'. Snapshot C w since limit f = Some (batch, f') \<and> cb_tip batch = LastLsn w \<and>
    (since = kInvalidLsn \<longrightarrow> \<not> cb_truncated batch \<and> cb_entries batch = (if limit = 0 then rs else take limit rs)) \<and>
    (0 \<le> since \<longrightarrow> cb_entries batch = [] \<and> (cb_truncated batch \<longleftrightarrow> since \<noteq> LastLsn w))"
proof -
  have "filter (\<lambda>r. 0 \<le> lsn r) rs = rs" using wal_inv_bounds(2) [OF assms] by (simp add: filter_id_conv)
  then show ?thesis using Snapshot_inv [OF assms, of since limit f] by (auto simp: kInvalidLsn_def)
qed

theorem change_feed_never_resumes_witness:
  "\<exists>w fs rs batch f'. wal_inv ex_crypto w fs rs \<and> map lsn rs = [0, 1, 2] \<and> LastLsn w = 2 \<and>
     Snapshot ex_crypto w 1 0 fresh_feed = Some (batch, f') \<and> cb_truncated batch \<and> cb_entries batch = []"
proof -
  obtain w fs rs r0 r1 r2 where w: "wal_inv ex_crypto w fs rs" "rs = [r0, r1, r2]" "lsn r0 = 0" "lsn r1 = 1" "lsn r2 = 2"
    using ex_ledger by blast
  then have tip: "LastLsn w = 2" by (simp add: LastLsn_def wal_inv_def)
  from change_feed_never_resumes [OF w(1), of 1 0 fresh_feed] tip w
  show ?thesis by (intro exI [of _ w] exI [of _ fs] exI [of _ rs]) auto
qed

text \<open>
  C29: a wait over sound ledgers ends. It returns a batch no later than the first round whose clock
  has reached the deadline, whatever the other threads do meanwhile; it never fails by an exception,
  and it returns no batch without records before the deadline unless the cursor is reported stale.
\<close>

theorem wait_returns_by_deadline:
  assumes "\<forall>r\<in>set rounds. \<exists>fs rs. wal_inv C (wr_wal r) fs rs"
    and "\<exists>r\<in>set rounds. start + int (unat timeout_ms) \<le> wr_now r"
  shows "\<exists>res f'. Wait C since timeout_ms limit start rounds f = (Returned res, f') \<and>
    (\<forall>batch. res = Inr batch \<and> cb_entries batch = [] \<and> \<not> cb_truncated batch \<longrightarrow>
       (\<exists>r\<in>set rounds. start + int (unat timeout_ms) \<le> wr_now r \<and> cb_tip batch = LastLsn (wr_wal r)))"
proof -
  let ?d = "start + int (unat timeout_ms)"
  have "\<exists>res f'. wait_loop C since ?d limit rounds f = (Returned res, f') \<and>
    (\<forall>batch. res = Inr batch \<and> cb_entries batch = [] \<and> \<not> cb_truncated batch \<longrightarrow>
       (\<exists>r\<in>set rounds. ?d \<le> wr_now r \<and> cb_tip batch = LastLsn (wr_wal r)))"
    using assms
  proof (induction rounds arbitrary: f)
    case (Cons r rounds)
    obtain fs rs where inv: "wal_inv C (wr_wal r) fs rs" using Cons.prems(1) by auto
    obtain batch f1 where s: "Snapshot C (wr_wal r) since limit f = Some (batch, f1)" "cb_tip batch = LastLsn (wr_wal r)"
      using Snapshot_inv [OF inv, of since limit f] by auto
    show ?case
    proof (cases "cb_entries batch \<noteq> [] \<or> cb_truncated batch \<or> cf_stopped f1 \<or> ?d \<le> wr_now r")
      case True
      then show ?thesis using s by auto
    next
      case False
      then have "\<exists>res f'. wait_loop C since ?d limit rounds (asleep r f1) = (Returned res, f') \<and>
        (\<forall>batch. res = Inr batch \<and> cb_entries batch = [] \<and> \<not> cb_truncated batch \<longrightarrow>
           (\<exists>r\<in>set rounds. ?d \<le> wr_now r \<and> cb_tip batch = LastLsn (wr_wal r)))"
        using Cons.prems by (intro Cons.IH) auto
      with False s(1) show ?thesis by auto
    qed
  qed simp
  then show ?thesis by (auto simp: Wait_def)
qed

theorem wait_returns_by_deadline_witness:
  "\<exists>res f'. Wait ex_crypto kInvalidLsn 50 0 100
      [\<lparr>wr_wal = ex_wal, wr_now = 101, wr_published = [], wr_stop = False\<rparr>,
       \<lparr>wr_wal = ex_wal, wr_now = 150, wr_published = [], wr_stop = False\<rparr>] fresh_feed = (Returned res, f')"
  using wait_returns_by_deadline [of "[\<lparr>wr_wal = ex_wal, wr_now = 101, wr_published = [], wr_stop = False\<rparr>,
       \<lparr>wr_wal = ex_wal, wr_now = 150, wr_published = [], wr_stop = False\<rparr>]" ex_crypto 100 50 kInvalidLsn 0 fresh_feed]
    ex_wal_inv by fastforce

end
