(* ===== verification/Checkpoint.thy ===== *)
theory Checkpoint
  imports WalChain TransitStore
begin

text \<open>
  \<^verbatim>\<open>include/desentry/ledger/checkpoint.h\<close> and \<^verbatim>\<open>src/ledger/checkpoint.cpp\<close>: the quorum gate and the
  checkpoint itself, which composes the ledger of \<open>Wal\<close> (a marker is appended, settled transit pairs
  are pruned) with the envelopes of \<open>TransitStore\<close> (the settled ones are released).
\<close>

section \<open>The gate\<close>

record ReplicaTip =
  rt_node_id :: bytes
  rt_entry_id :: int
  rt_entry_hash :: bytes
  rt_self_verified :: bool
  rt_signature_valid :: bool
  rt_signature :: bytes

record CheckpointDecision =
  cd_proceed :: bool
  cd_agreeing :: int
  cd_required :: int
  cd_conflicting :: int
  cd_unverified :: int
  cd_checkpoint_lsn :: int
  cd_agreed_entry_hash :: bytes
  cd_reason :: bytes

record CheckpointOutcome =
  co_decision :: CheckpointDecision
  co_checkpoint_entry_id :: int
  co_entries_pruned :: nat
  co_envelopes_released :: nat
  co_previous_tip_hash :: bytes
  co_new_tip_hash :: bytes

definition default_decision :: CheckpointDecision where
  "default_decision = \<lparr>cd_proceed = False, cd_agreeing = 0, cd_required = 0, cd_conflicting = 0, cd_unverified = 0,
     cd_checkpoint_lsn = kInvalidLsn, cd_agreed_entry_hash = [], cd_reason = []\<rparr>"

definition outcome_of :: "CheckpointDecision \<Rightarrow> CheckpointOutcome" where
  "outcome_of d = \<lparr>co_decision = d, co_checkpoint_entry_id = kInvalidLsn, co_entries_pruned = 0,
     co_envelopes_released = 0, co_previous_tip_hash = [], co_new_tip_hash = []\<rparr>"

text \<open>The result is cast from 64 bits to a 32-bit \<^verbatim>\<open>int\<close>.\<close>

definition CheckpointQuorumSize :: "u32 \<Rightarrow> int" where
  "CheckpointQuorumSize replication_factor =
     (if replication_factor = 0 then 1
      else let f = (uint replication_factor - 1) div 2
           in sint (word_of_int (2 * f + 1) :: 32 word))"

text \<open>One round of the loop over the replicas.\<close>

definition tally :: "ReplicaTip \<Rightarrow> ReplicaTip \<Rightarrow> CheckpointDecision \<Rightarrow> CheckpointDecision" where
  "tally loc r d =
     (if rt_entry_id r \<noteq> rt_entry_id loc then d
      else if rt_entry_hash r \<noteq> rt_entry_hash loc then d\<lparr>cd_conflicting := cd_conflicting d + 1\<rparr>
      else if rt_self_verified r \<and> (rt_signature r = [] \<or> rt_signature_valid r)
      then d\<lparr>cd_agreeing := cd_agreeing d + 1\<rparr>
      else d\<lparr>cd_unverified := cd_unverified d + 1\<rparr>)"

definition EvaluateCheckpoint :: "ReplicaTip \<Rightarrow> ReplicaTip list \<Rightarrow> u32 \<Rightarrow> CheckpointDecision" where
  "EvaluateCheckpoint loc replicas replication_factor =
     (let d = default_decision\<lparr>cd_required := CheckpointQuorumSize replication_factor\<rparr>
      in if rt_entry_id loc < 0 then d\<lparr>cd_reason := bytes_of ''ledger is empty: nothing to checkpoint''\<rparr>
         else if \<not> rt_self_verified loc
         then d\<lparr>cd_reason := bytes_of ''local ledger did not verify: refusing to prune an unchecked chain''\<rparr>
         else
           let d = fold (tally loc) replicas (d\<lparr>cd_agreeing := 1\<rparr>)
           in if cd_conflicting d > 0
              then d\<lparr>cd_reason := bytes_of ''conflicting tip(s) at entry '' @ to_string_int (rt_entry_id loc) @
                       bytes_of '': replicas disagree on history; refusing to prune''\<rparr>
              else if cd_agreeing d < cd_required d
              then d\<lparr>cd_reason := bytes_of ''quorum not reached: '' @ to_string_int (cd_agreeing d) @
                       bytes_of '' agreeing of '' @ to_string_int (cd_required d) @ bytes_of '' required''\<rparr>
              else d\<lparr>cd_proceed := True, cd_checkpoint_lsn := rt_entry_id loc,
                     cd_agreed_entry_hash := rt_entry_hash loc\<rparr>)"

text \<open>A list without its repetitions, in the order of first occurrence: the \<^verbatim>\<open>seen\<close> sets of the source.\<close>

fun first_seen :: "bytes list \<Rightarrow> bytes list \<Rightarrow> bytes list" where
  "first_seen seen [] = []"
| "first_seen seen (x # xs) = (if x \<in> set seen then first_seen seen xs else x # first_seen (x # seen) xs)"

definition UnclaimedIntentsBelow :: "WalRecord list \<Rightarrow> int \<Rightarrow> bytes list" where
  "UnclaimedIntentsBelow entries cp =
     (let claimed = claimed_below cp entries
      in first_seen []
           (map key_hash (filter (\<lambda>r. rtype r = kTransitIntent \<and> key_hash r \<notin> claimed)
              (takeWhile (\<lambda>r. \<not> lsn r \<ge> cp) entries))))"

definition settled_keys :: "WalRecord list \<Rightarrow> int \<Rightarrow> bytes list" where
  "settled_keys entries cp =
     (let claimed = claimed_below cp entries
      in first_seen []
           (map key_hash (filter (\<lambda>r. rtype r = kTransitIntent \<and> key_hash r \<in> claimed)
              (takeWhile (\<lambda>r. \<not> lsn r > cp) entries))))"

section \<open>The checkpoint\<close>

definition attestation :: "CheckpointDecision \<Rightarrow> bytes" where
  "attestation d =
     bytes_of ''{\"agreed_entry_hash\":\"'' @ HexEncode (cd_agreed_entry_hash d) @
     bytes_of ''\",\"agreeing\":'' @ to_string_int (cd_agreeing d) @ bytes_of '',\"required\":'' @
     to_string_int (cd_required d) @ bytes_of '',\"checkpoint_lsn\":'' @
     to_string_int (cd_checkpoint_lsn d) @ bytes_of ''}''"

text \<open>What the outside answers during a checkpoint: nonces, the clock and the disk.\<close>

record checkpoint_env =
  ce_nonce :: "bytes option"
  ce_append :: append_io
  ce_hwm_ok :: bool
  ce_now :: int
  ce_prune_nonces :: "nat \<Rightarrow> bytes option"
  ce_rewrite :: rewrite_io
  ce_prune_hwm_ok :: bool
  ce_drop_nonces :: "nat \<Rightarrow> bytes option"
  ce_drops :: "nat \<Rightarrow> log_io"
  ce_compact_nonces :: "nat \<Rightarrow> bytes option"
  ce_compact :: compact_io

definition RunCheckpoint ::
  "crypto \<Rightarrow> checkpoint_env \<Rightarrow> ReplicaTip \<Rightarrow> ReplicaTip list \<Rightarrow> u32 \<Rightarrow> hlc \<Rightarrow> wal \<Rightarrow> tstore \<Rightarrow>
   (CheckpointOutcome status_or \<times> wal \<times> tstore) option" where
  "RunCheckpoint C env loc replicas replication_factor now w t =
     (let d = EvaluateCheckpoint loc replicas replication_factor; cp = cd_checkpoint_lsn d
      in if \<not> cd_proceed d then Some (Inr (outcome_of d), w, t)
         else case ReadAll C w of
           None \<Rightarrow> None
         | Some (entries, w) \<Rightarrow>
             let unclaimed = UnclaimedIntentsBelow entries cp
             in if unclaimed \<noteq> []
                then Some (Inr (outcome_of (d\<lparr>cd_proceed := False,
                       cd_reason := to_string_nat (length unclaimed) @
                         bytes_of '' unclaimed transit intent(s) at or below entry '' @ to_string_int cp @
                         bytes_of '': an offline owner has not collected its bytes yet'',
                       cd_checkpoint_lsn := kInvalidLsn, cd_agreed_entry_hash := []\<rparr>)), w, t)
                else case Append C (ce_nonce env) (ce_append env) (ce_hwm_ok env) (ce_now env) kCheckpoint []
                            (bytes_of ''checkpoint'') (attestation d) (default_options\<lparr>ao_hlc := now\<rparr>) w of
                  (Inl e, w) \<Rightarrow> Some (Inl e, w, t)
                | (Inr marker, w) \<Rightarrow>
                    (case Prune C (ce_prune_nonces env) (ce_rewrite env) (ce_prune_hwm_ok env) cp w of
                       None \<Rightarrow> None
                     | Some (Inl e, w) \<Rightarrow> Some (Inl e, w, t)
                     | Some (Inr p, w) \<Rightarrow>
                         let (released, t) = Release C (ce_drop_nonces env) (ce_drops env) (ce_compact_nonces env)
                                               (ce_compact env) (settled_keys entries cp) t
                         in Some (Inr ((outcome_of d)\<lparr>co_checkpoint_entry_id := marker,
                              co_entries_pruned := dropped p,
                              co_envelopes_released := (case released of Inl _ \<Rightarrow> 0 | Inr n \<Rightarrow> n),
                              co_previous_tip_hash := previous_tip_hash p, co_new_tip_hash := new_tip_hash p\<rparr>), w, t)))"

section \<open>The gate, declaratively\<close>

definition votes :: "ReplicaTip \<Rightarrow> ReplicaTip \<Rightarrow> bool" where
  "votes loc r \<longleftrightarrow>
     rt_entry_id r = rt_entry_id loc \<and> rt_entry_hash r = rt_entry_hash loc \<and> rt_self_verified r \<and>
     (rt_signature r = [] \<or> rt_signature_valid r)"

definition conflicts :: "ReplicaTip \<Rightarrow> ReplicaTip \<Rightarrow> bool" where
  "conflicts loc r \<longleftrightarrow> rt_entry_id r = rt_entry_id loc \<and> rt_entry_hash r \<noteq> rt_entry_hash loc"

lemma fold_tally:
  "cd_conflicting (fold (tally loc) rs d) = cd_conflicting d + int (length (filter (conflicts loc) rs)) \<and>
   cd_agreeing (fold (tally loc) rs d) = cd_agreeing d + int (length (filter (votes loc) rs)) \<and>
   cd_required (fold (tally loc) rs d) = cd_required d \<and>
   cd_proceed (fold (tally loc) rs d) = cd_proceed d"
  by (induction rs arbitrary: d) (auto simp: tally_def votes_def conflicts_def)

lemma EvaluateCheckpoint_iff:
  "cd_proceed (EvaluateCheckpoint loc rs rf) \<longleftrightarrow>
     0 \<le> rt_entry_id loc \<and> rt_self_verified loc \<and> \<not> (\<exists>r\<in>set rs. conflicts loc r) \<and>
     CheckpointQuorumSize rf \<le> 1 + int (length (filter (votes loc) rs))"
proof -
  have "0 < int (length (filter (conflicts loc) rs)) \<longleftrightarrow> (\<exists>r\<in>set rs. conflicts loc r)"
    by (auto simp: filter_empty_conv)
  then show ?thesis
    using fold_tally [of loc rs] by (auto simp: EvaluateCheckpoint_def Let_def default_decision_def)
qed

lemma EvaluateCheckpoint_lsn:
  "cd_proceed (EvaluateCheckpoint loc rs rf) \<Longrightarrow>
     cd_checkpoint_lsn (EvaluateCheckpoint loc rs rf) = rt_entry_id loc \<and>
     cd_agreed_entry_hash (EvaluateCheckpoint loc rs rf) = rt_entry_hash loc"
  using fold_tally [of loc rs] by (auto simp: EvaluateCheckpoint_def Let_def default_decision_def split: if_splits)

lemma set_first_seen: "set (first_seen seen xs) = set xs - set seen"
  by (induction xs arbitrary: seen) auto

lemma first_seen_Nil: "first_seen [] xs = [] \<longleftrightarrow> xs = []"
  using set_first_seen [of "[]" xs] by auto

lemma takeWhile_below:
  assumes "ascending rs"
  shows "takeWhile (\<lambda>r. \<not> lsn r \<ge> cp) rs = filter (\<lambda>r. lsn r < cp) rs"
  using takeWhile_ascending [of rs "cp - 1"] assms
  by (simp add: ascending_def not_le not_less zle_diff1_eq)

lemma claimed_below_iff:
  "ascending rs \<Longrightarrow> h \<in> claimed_below cp rs \<longleftrightarrow>
     (\<exists>c\<in>set rs. rtype c = kTransitClaimed \<and> lsn c \<le> cp \<and> key_hash c = h)"
  by (auto simp: claimed_below_def ascending_def takeWhile_ascending image_iff)

lemma UnclaimedIntentsBelow_empty:
  assumes "ascending rs"
  shows "UnclaimedIntentsBelow rs cp = [] \<longleftrightarrow>
    (\<forall>r\<in>set rs. rtype r = kTransitIntent \<and> lsn r < cp \<longrightarrow> settled cp rs r)"
  by (auto simp: UnclaimedIntentsBelow_def first_seen_Nil takeWhile_below [OF assms] filter_empty_conv
      claimed_below_iff [OF assms] settled_def IsTransit_def)

lemma set_settled_keys:
  assumes "ascending rs"
  shows "set (settled_keys rs cp) = key_hash ` {r \<in> set rs. rtype r = kTransitIntent \<and> settled cp rs r}"
proof -
  have "takeWhile (\<lambda>r. \<not> lsn r > cp) rs = filter (\<lambda>r. lsn r \<le> cp) rs"
    using assms by (simp add: ascending_def takeWhile_ascending)
  then show ?thesis
    by (auto simp: settled_keys_def set_first_seen claimed_below_iff [OF assms] settled_def IsTransit_def)
qed

section \<open>A disk that works\<close>

definition disk_works :: "checkpoint_env \<Rightarrow> bool" where
  "disk_works env \<longleftrightarrow>
     (\<exists>n. ce_nonce env = Some n \<and> length n = 12) \<and> ce_append env = IoOk \<and> ce_rewrite env = RwOk \<and>
     ce_prune_hwm_ok env \<and> ce_drops env = (\<lambda>_. LogOk) \<and> ce_compact env = CompactOk \<and>
     (\<forall>i. \<exists>n. ce_prune_nonces env i = Some n \<and> length n = 12) \<and>
     (\<forall>i. \<exists>n. ce_drop_nonces env i = Some n \<and> length n = 12) \<and>
     (\<forall>i. \<exists>n. ce_compact_nonces env i = Some n \<and> length n = 12)"

lemma rl_seal_succeeds:
  assumes "aead_laws C" "rl_key_ok k" "length n = 12"
  shows "\<exists>p. rl_seal C tag k (Some n) b = Inr p"
  using assms OpenRecord_SealRecord [OF assms(1) _ assms(3), of k b tag]
  by (auto simp: rl_seal_def rl_key_ok_def)

lemma rl_frames_succeed:
  assumes "aead_laws C" "rl_key_ok k" "\<forall>i. \<exists>n. nonces i = Some n \<and> length n = 12"
  shows "\<exists>fs. rl_frames C tag k nonces i bs = Inr fs"
proof (induction bs arbitrary: i)
  case (Cons b bs)
  obtain n where n: "nonces i = Some n" "length n = 12" using assms(3) by blast
  obtain p where p: "rl_seal C tag k (Some n) b = Inr p" using rl_seal_succeeds [OF assms(1,2) n(2)] by blast
  obtain fs where fs: "rl_frames C tag k nonces (Suc i) bs = Inr fs" using Cons.IH by blast
  show ?case by (simp add: n(1) p fs)
qed simp

lemma release_loop_succeeds:
  assumes "aead_laws C" "rl_key_ok k" "\<forall>i. \<exists>n. nonces i = Some n \<and> length n = 12" "ts_subkey t = k"
  shows "\<exists>m t'. release_loop C nonces (\<lambda>_. LogOk) khs es i t = (Inr m, t') \<and> ts_subkey t' = k"
  using assms(4)
proof (induction es arbitrary: i t)
  case (Cons p es)
  obtain mk e where pe: "p = (mk, e)" by (cases p)
  obtain n where n: "nonces i = Some n" "length n = 12" using assms(3) by blast
  obtain q where q: "rl_seal C transit_tag k (Some n) (EncodeDropBody (te_owner_node e) (te_key_hash e)) = Inr q"
    using rl_seal_succeeds [OF assms(1,2) n(2)] by blast
  have app: "ts_AppendRecord C (nonces i) LogOk (EncodeDropBody (te_owner_node e) (te_key_hash e)) t =
      (Inr (), t\<lparr>ts_log := ts_log t @ rl_frame q\<rparr>)"
    using Cons.prems n(1) q by (simp add: ts_AppendRecord_def rl_append_def)
  show ?case
    using Cons.IH [of t i] Cons.prems
      Cons.IH [of "t\<lparr>ts_log := ts_log t @ rl_frame q, ts_entries := map_erase mk (ts_entries t)\<rparr>" "Suc i"]
    by (simp add: pe app)
qed simp

lemma Release_succeeds:
  assumes "aead_laws C" "ts_inv C k t" "disk_works env"
  shows "\<exists>n t'. Release C (ce_drop_nonces env) (ce_drops env) (ce_compact_nonces env) (ce_compact env) khs t = (Inr n, t')"
proof -
  have k: "rl_key_ok k" "ts_subkey t = k" using assms(2) by (simp_all add: ts_inv_def)
  have env: "\<forall>i. \<exists>n. ce_drop_nonces env i = Some n \<and> length n = 12"
    "\<forall>i. \<exists>n. ce_compact_nonces env i = Some n \<and> length n = 12" "ce_drops env = (\<lambda>_. LogOk)" "ce_compact env = CompactOk"
    using assms(3) unfolding disk_works_def by blast+
  obtain m t1 where t1: "release_loop C (ce_drop_nonces env) (\<lambda>_. LogOk) khs (ts_entries t) 0 t = (Inr m, t1)" "ts_subkey t1 = k"
    using release_loop_succeeds [OF assms(1) k(1) env(1) k(2)] by blast
  obtain fs where "rl_frames C transit_tag k (ce_compact_nonces env) 0 (map (EncodeEnvelope \<circ> snd) (ts_entries t1)) = Inr fs"
    using rl_frames_succeed [OF assms(1) k(1) env(2)] by blast
  then show ?thesis
    by (simp add: Release_def env(3,4) t1 ts_CompactLocked_def rl_compact_def comp_def)
qed

section \<open>The effect of a checkpoint\<close>

definition marker_fits :: "crypto \<Rightarrow> CheckpointDecision \<Rightarrow> hlc \<Rightarrow> wal \<Rightarrow> bool" where
  "marker_fits C d now w \<longleftrightarrow>
     request_fits C w kCheckpoint [] (bytes_of ''checkpoint'') (attestation d) (default_options\<lparr>ao_hlc := now\<rparr>)"

lemma settled_marker:
  assumes "rtype m = kCheckpoint"
  shows "settled cp (rs @ [m]) = settled cp rs" "\<not> settled cp rs m"
  using assms by (auto simp: settled_def fun_eq_iff IsTransit_def kCheckpoint_def kTransitClaimed_def kTransitIntent_def)

lemma wal_inv_corrupt: "wal_inv C (w\<lparr>last_read_corrupt := b\<rparr>) fs rs \<longleftrightarrow> wal_inv C w fs rs"
  by (simp add: wal_inv_def)

lemma append_record_corrupt: "append_record C (w\<lparr>last_read_corrupt := b\<rparr>) = append_record C w"
  by (simp add: append_record_def fun_eq_iff)

lemma ascending_inj: "ascending rs \<Longrightarrow> r \<in> set rs \<Longrightarrow> r' \<in> set rs \<Longrightarrow> lsn r = lsn r' \<Longrightarrow> r = r'"
  by (auto simp: ascending_def strict_sorted_iff distinct_map dest: inj_onD)

lemma last_lsn_bound:
  assumes "wal_inv C w fs rs" "r \<in> set rs"
  shows "lsn r < next_lsn w"
proof -
  have "ascending rs" "next_lsn w = lsn (last rs) + 1" using assms by (auto simp: wal_inv_def)
  then show ?thesis using assms(2) by (cases rs rule: rev_cases) (auto simp: ascending_def sorted_wrt_append)
qed

lemma RunCheckpoint_effect:
  assumes laws: "digest_laws C" "aead_laws C" and inv: "wal_inv C w fs rs" and ts: "ts_inv C k t"
    and env: "disk_works env" and d: "d = EvaluateCheckpoint loc replicas rf" "cd_proceed d" "marker_fits C d now w"
    and gate: "UnclaimedIntentsBelow rs (rt_entry_id loc) = []"
  shows "\<exists>out w' fs' rs' m t'.
    RunCheckpoint C env loc replicas rf now w t = Some (Inr out, w', t') \<and> co_decision out = d \<and>
    wal_inv C w' fs' rs' \<and> w_subkey w' = w_subkey w \<and>
    map unlinked rs' = map unlinked (filter (\<lambda>r. \<not> settled (rt_entry_id loc) rs r) rs @ [m]) \<and>
    rtype m = kCheckpoint \<and> lsn m = next_lsn w \<and> document_bytes m = attestation d \<and>
    co_entries_pruned out = length (filter (settled (rt_entry_id loc) rs) rs) \<and>
    ts_inv C k t' \<and>
    ts_entries t' = filter (\<lambda>p. te_key_hash (snd p) \<notin> key_hash ` {r \<in> set rs. rtype r = kTransitIntent \<and> settled (rt_entry_id loc) rs r}) (ts_entries t)"
proof -
  let ?cp = "rt_entry_id loc" and ?w = "w\<lparr>last_read_corrupt := False\<rparr>" and ?o = "default_options\<lparr>ao_hlc := now\<rparr>"
  let ?m = "append_record C ?w kCheckpoint [] (bytes_of ''checkpoint'') (attestation d) ?o"
  have asc: "ascending rs" using inv by (simp add: wal_inv_def)
  have cp: "cd_checkpoint_lsn d = ?cp" using EvaluateCheckpoint_lsn d by blast
  obtain n where n: "ce_nonce env = Some n" "length n = 12" "ce_append env = IoOk" "ce_rewrite env = RwOk"
    "ce_prune_hwm_ok env" "\<forall>i. \<exists>n. ce_prune_nonces env i = Some n \<and> length n = 12" "ce_compact env = CompactOk"
    "\<forall>i. \<exists>n. ce_compact_nonces env i = Some n \<and> length n = 12"
    using env unfolding disk_works_def by blast
  have inv': "wal_inv C ?w fs rs" using inv wal_inv_corrupt by blast
  have "request_fits C ?w kCheckpoint [] (bytes_of ''checkpoint'') (attestation d) ?o"
    using d(3) by (simp add: marker_fits_def request_fits_def append_record_corrupt)
  from Append_inv [OF laws inv' this n(2)]
  obtain f w1 where w1: "Append C (Some n) IoOk (ce_hwm_ok env) (ce_now env) kCheckpoint [] (bytes_of ''checkpoint'') (attestation d) ?o ?w =
      (Inr (next_lsn w), w1)" "wal_inv C w1 (fs @ [f]) (rs @ [?m])" "w_subkey w1 = w_subkey w"
    by fastforce
  have m: "rtype ?m = kCheckpoint" "lsn ?m = next_lsn w" "document_bytes ?m = attestation d" by simp_all
  obtain p w2 fs' rs' where p: "Prune C (ce_prune_nonces env) RwOk True ?cp w1 = Some (Inr p, w2)" "wal_inv C w2 fs' rs'"
    "map unlinked rs' = map unlinked (filter (\<lambda>r. \<not> settled ?cp (rs @ [?m]) r) (rs @ [?m]))"
    "dropped p = length (filter (settled ?cp (rs @ [?m])) (rs @ [?m]))" "w_subkey w2 = w_subkey w"
    using Prune_inv [OF laws w1(2) n(6)] w1(3) by metis
  obtain c t' where c: "Release C (ce_drop_nonces env) (ce_drops env) (ce_compact_nonces env) (ce_compact env) (settled_keys rs ?cp) t = (Inr c, t')"
    using Release_succeeds [OF laws(2) ts env] by blast
  have "distinct (map fst (ts_entries t))" using ts by (simp add: ts_inv_def entries_ok_def)
  note ent = release_effect(1) [OF c this, unfolded set_settled_keys [OF asc]]
  have tinv: "ts_inv C k t'" using release_inv [OF laws(2) n(8) ts] c n(7) by metis
  obtain out where run: "RunCheckpoint C env loc replicas rf now w t = Some (Inr out, w2, t')" "co_decision out = d"
      "co_entries_pruned out = dropped p"
    unfolding RunCheckpoint_def Let_def d(1) [symmetric] cp ReadAll_def ReadAllLocked_inv [OF inv]
    using d(2) n gate w1(1) p(1) c by (simp add: outcome_of_def)
  have kept: "map unlinked rs' = map unlinked (filter (\<lambda>r. \<not> settled ?cp rs r) rs @ [?m])"
    "dropped p = length (filter (settled ?cp rs) rs)"
    using p(3,4) settled_marker(2) [OF m(1)] unfolding settled_marker(1) [OF m(1)] by simp_all
  show ?thesis
    by (intro exI [of _ out] exI [of _ w2] exI [of _ fs'] exI [of _ rs'] exI [of _ ?m] exI [of _ t'] conjI
        run(1,2) p(2,5) kept(1) m tinv ent) (simp add: run(3) kept(2))
qed

section \<open>Properties\<close>


text \<open>
  The quorum is the replication factor when that is odd and one less when it is even. It is a
  majority for every factor but two, where one node checkpoints alone; from \<open>2 ^ 31 + 1\<close> on the cast
  to \<^verbatim>\<open>int\<close> makes it negative, and the gate needs no replica at all.
\<close>

theorem checkpoint_quorum_size:
  assumes "rf \<noteq> 0"
  shows "(uint rf \<le> 2 ^ 31 \<longrightarrow>
      CheckpointQuorumSize rf = (if odd (uint rf) then uint rf else uint rf - 1) \<and>
      (uint rf < 2 * CheckpointQuorumSize rf \<longleftrightarrow> uint rf \<noteq> 2)) \<and>
    (2 ^ 31 < uint rf \<longrightarrow> CheckpointQuorumSize rf < 0)"
proof -
  have pos: "1 \<le> uint rf" "uint rf < 2 ^ 32"
    using assms unsigned_less [where 'a = int, of rf] by (simp_all add: word_neq_0_conv word_less_def int_one_le_iff_zero_less)
  define q where "q = (if odd (uint rf) then uint rf else uint rf - 1)"
  have q: "2 * ((uint rf - 1) div 2) + 1 = q" using pos(1) by (auto simp: q_def elim!: evenE oddE)
  have "1 \<le> q" using pos(1) unfolding q_def by presburger
  then have q_bounds: "1 \<le> q" "q < 2 ^ 32" "uint rf - 1 \<le> q" "q \<le> uint rf" "odd q"
    using pos(2) by (simp_all add: q_def)
  have size: "CheckpointQuorumSize rf = signed_take_bit 31 q"
  proof -
    have "CheckpointQuorumSize rf = sint (word_of_int q :: 32 word)"
      unfolding CheckpointQuorumSize_def Let_def q using assms by simp
    also have "\<dots> = signed_take_bit 31 q" by transfer simp
    finally show ?thesis .
  qed
  have "q < 2 ^ 31 \<Longrightarrow> CheckpointQuorumSize rf = q"
    using q_bounds(1) size by (simp add: signed_take_bit_int_eq_self)
  moreover have "uint rf \<le> 2 ^ 31 \<Longrightarrow> q < 2 ^ 31"
  proof -
    assume "uint rf \<le> 2 ^ 31"
    moreover have "q \<noteq> 2 ^ 31" using q_bounds(5) by auto
    ultimately show ?thesis using q_bounds(4) by simp
  qed
  moreover have "2 ^ 31 < uint rf \<Longrightarrow> signed_take_bit 31 q < 0"
  proof -
    assume "2 ^ 31 < uint rf"
    then have "2 ^ 31 \<le> q" using q_bounds(3) by simp
    moreover have "signed_take_bit 31 q = signed_take_bit 31 (q - 2 ^ 32)"
      by (rule signed_take_bit_eq_iff_take_bit_eq [THEN iffD2]) (simp add: take_bit_eq_mod mod_diff_right_eq)
    moreover have "signed_take_bit 31 (q - 2 ^ 32) = q - 2 ^ 32"
      using \<open>2 ^ 31 \<le> q\<close> q_bounds(2) by (intro signed_take_bit_int_eq_self) auto
    ultimately show ?thesis using q_bounds(2) by simp
  qed
  moreover have "uint rf < 2 * q \<longleftrightarrow> uint rf \<noteq> 2"
    using pos(1) by (auto simp: q_def elim!: evenE)
  ultimately show ?thesis using size unfolding q_def by auto
qed

theorem checkpoint_quorum_size_witness:
  "CheckpointQuorumSize 3 = 3 \<and> CheckpointQuorumSize 2 = 1 \<and> CheckpointQuorumSize 0xFFFFFFFF < 0"
  using checkpoint_quorum_size [of 3] checkpoint_quorum_size [of 2] checkpoint_quorum_size [of "0xFFFFFFFF"] by simp

text \<open>
  A checkpoint that is refused, by the gate or because an intent strictly below the tip is
  unclaimed, leaves the ledger file, its tip and every envelope as they were.
\<close>

theorem refused_checkpoint_changes_nothing:
  assumes "wal_inv C w fs rs"
    and "\<not> cd_proceed (EvaluateCheckpoint loc replicas rf) \<or>
      (\<exists>r\<in>set rs. rtype r = kTransitIntent \<and> lsn r < rt_entry_id loc \<and> \<not> settled (rt_entry_id loc) rs r)"
  shows "\<exists>out w'. RunCheckpoint C env loc replicas rf now w t = Some (Inr out, w', t) \<and>
    \<not> cd_proceed (co_decision out) \<and> co_entries_pruned out = 0 \<and> w_file w' = w_file w \<and> Tip w' = Tip w"
proof (cases "cd_proceed (EvaluateCheckpoint loc replicas rf)")
  case True
  have "ascending rs" using assms(1) by (simp add: wal_inv_def)
  then have "UnclaimedIntentsBelow rs (rt_entry_id loc) \<noteq> []"
    using assms(2) True UnclaimedIntentsBelow_empty by blast
  then show ?thesis
    using True EvaluateCheckpoint_lsn [OF True]
    by (simp add: RunCheckpoint_def Let_def ReadAll_def ReadAllLocked_inv [OF assms(1)] outcome_of_def Tip_def)
qed (simp add: RunCheckpoint_def Let_def outcome_of_def Tip_def)

definition ex_tip :: ReplicaTip where
  "ex_tip = \<lparr>rt_node_id = [], rt_entry_id = 2, rt_entry_hash = replicate 32 1, rt_self_verified = True,
     rt_signature_valid = False, rt_signature = []\<rparr>"

lemma ex_quorum: "CheckpointQuorumSize 1 = 1" "CheckpointQuorumSize 3 = 3"
  by (simp_all add: CheckpointQuorumSize_def Let_def)

theorem refused_checkpoint_changes_nothing_witness:
  "\<exists>w fs rs. wal_inv ex_crypto w fs rs \<and> length rs = 3 \<and>
     (\<forall>env now t. \<exists>out w'. RunCheckpoint ex_crypto env ex_tip [] 3 now w t = Some (Inr out, w', t) \<and> w_file w' = w_file w)"
proof -
  obtain w fs rs r0 r1 r2 where w: "wal_inv ex_crypto w fs rs" "rs = [r0, r1, r2]" using ex_ledger by blast
  have "\<not> cd_proceed (EvaluateCheckpoint ex_tip [] 3)" by (simp add: EvaluateCheckpoint_iff ex_quorum)
  then have "\<exists>out w'. RunCheckpoint ex_crypto env ex_tip [] 3 now w t = Some (Inr out, w', t) \<and> w_file w' = w_file w" for env now t
    using refused_checkpoint_changes_nothing [OF w(1), of ex_tip "[]" 3 env now t] by blast
  then show ?thesis using w by (intro exI [of _ w] exI [of _ fs] exI [of _ rs]) simp
qed


definition ex_env :: checkpoint_env where
  "ex_env = \<lparr>ce_nonce = Some (replicate 12 3), ce_append = IoOk, ce_hwm_ok = True, ce_now = 0,
     ce_prune_nonces = (\<lambda>_. Some (replicate 12 3)), ce_rewrite = RwOk, ce_prune_hwm_ok = True,
     ce_drop_nonces = (\<lambda>_. Some (replicate 12 3)), ce_drops = (\<lambda>_. LogOk),
     ce_compact_nonces = (\<lambda>_. Some (replicate 12 3)), ce_compact = CompactOk\<rparr>"

lemma ex_env_works: "disk_works ex_env"
  by (simp add: disk_works_def ex_env_def)

lemma ex_proceeds: "cd_proceed (EvaluateCheckpoint ex_tip [] 1)"
  by (simp add: EvaluateCheckpoint_iff ex_quorum) (simp add: ex_tip_def)

lemma ex_marker_fits:
  assumes "wal_inv ex_crypto w fs rs" "next_lsn w < 1000" "w_origin_node_id w = []" "w_signer w = None"
  shows "marker_fits ex_crypto (EvaluateCheckpoint ex_tip [] 1) (HLC 0 0 []) w"
proof -
  have "length (attestation (EvaluateCheckpoint ex_tip [] 1)) \<le> 1000"
    by (simp add: attestation_def EvaluateCheckpoint_def ex_quorum default_decision_def Let_def length_HexEncode bytes_of_def
        to_string_int_def to_string_nat.simps ex_tip_def)
  then show ?thesis
    using assms length_append_body [OF ex_crypto_laws(2) wal_inv_tip_length [OF assms(1)]]
    by (simp add: marker_fits_def request_fits_def kMaxLsn_def kMaxRecordBytes_def default_options_def bytes_of_def
        append_record_signature kCheckpoint_def kTransitIntent_def)
qed

text \<open>The ledger of an intent, its claim, and a second intent for the same key, with its envelope.\<close>

lemma ex_uncollected:
  "\<exists>w fs rs r1 r2 t mk. wal_inv ex_crypto w fs rs \<and> ts_inv ex_crypto ex_key t \<and> rs \<noteq> [] \<and> r1 \<in> set rs \<and> r2 \<in> set rs \<and>
     rtype r1 = kTransitClaimed \<and> rtype r2 = kTransitIntent \<and> lsn r1 < lsn r2 \<and> lsn r2 = 2 \<and> key_hash r1 = key_hash r2 \<and>
     marker_fits ex_crypto (EvaluateCheckpoint ex_tip [] 1) (HLC 0 0 []) w \<and>
     (\<forall>r\<in>set rs. rtype r = kTransitIntent \<and> lsn r < rt_entry_id ex_tip \<longrightarrow> settled (rt_entry_id ex_tip) rs r) \<and>
     ts_entries t = [(mk, ex_envelope\<lparr>te_key_hash := key_hash r2\<rparr>)]"
proof -
  obtain w fs rs r0 r1 r2 where w: "wal_inv ex_crypto w fs rs" "rs = [r0, r1, r2]" "lsn r0 = 0" "lsn r1 = 1" "lsn r2 = 2"
    "rtype r0 = kTransitIntent" "rtype r1 = kTransitClaimed" "rtype r2 = kTransitIntent" "key_hash r0 = key_hash r1"
    "key_hash r1 = key_hash r2" "w_origin_node_id w = []" "w_signer w = None" "length (key_hash r2) = 32"
    using ex_ledger by metis
  let ?e = "ex_envelope\<lparr>te_key_hash := key_hash r2\<rparr>"
  let ?t0 = "\<lparr>ts_log = [], ts_ttl_seconds = 0, ts_holder = bytes_of ''a'', ts_entries = [],
    ts_load_corrupt = False, ts_subkey = ex_key\<rparr>"
  have "env_ok ?e"
    using w(13) by (simp add: env_ok_def ex_envelope_def EncodeEnvelope_def kTransitRecordCap_def bytes_of_def i64_ok_def)
  moreover have "ts_inv ex_crypto ex_key ?t0"
    using tlog.holds_Nil by (auto simp: ts_inv_def rl_key_ok_def entries_ok_def ex_key_def intro!: exI [of _ "[]"])
  ultimately obtain log where t: "ts_inv ex_crypto ex_key (?t0\<lparr>ts_log := log, ts_entries := put_envelope ?e []\<rparr>)"
    using put_record_inv [OF ex_crypto_laws(1), of "replicate 12 2" ?e ex_key ?t0] by auto
  have "next_lsn w = 3" using w(1,2,5) by (simp add: wal_inv_def)
  then have "marker_fits ex_crypto (EvaluateCheckpoint ex_tip [] 1) (HLC 0 0 []) w"
    using ex_marker_fits [OF w(1)] w(11,12) by simp
  moreover have "\<forall>r\<in>set rs. rtype r = kTransitIntent \<and> lsn r < rt_entry_id ex_tip \<longrightarrow> settled (rt_entry_id ex_tip) rs r"
    using w by (auto simp: settled_def IsTransit_def ex_tip_def)
  moreover have "ts_entries (?t0\<lparr>ts_log := log, ts_entries := put_envelope ?e []\<rparr>) =
      [(MapKey (te_owner_node ?e) (te_key_hash ?e), ?e)]"
    by (simp add: put_envelope_def map_put_def)
  ultimately show ?thesis
    using w t by (intro exI [of _ w] exI [of _ fs] exI [of _ rs] exI [of _ r1] exI [of _ r2]
        exI [of _ "?t0\<lparr>ts_log := log, ts_entries := put_envelope ?e []\<rparr>"] exI [of _ "MapKey (te_owner_node ?e) (te_key_hash ?e)"]) simp
qed


text \<open>
  C35: a claim settles every intent for its key, also one written after it. When the owner of a key
  claimed an earlier write and a later one for the same key is still held for it, a checkpoint that
  passes both gates drops the later intent from the ledger and releases its envelope, so the bytes
  the owner has not collected are gone.
\<close>

theorem checkpoint_releases_uncollected_envelope:
  assumes "digest_laws C" "aead_laws C" "wal_inv C w fs rs" "ts_inv C k t" "disk_works env"
    and "cd_proceed (EvaluateCheckpoint loc replicas rf)" "marker_fits C (EvaluateCheckpoint loc replicas rf) now w"
    and "\<forall>r\<in>set rs. rtype r = kTransitIntent \<and> lsn r < rt_entry_id loc \<longrightarrow> settled (rt_entry_id loc) rs r"
    and "claim \<in> set rs" "rtype claim = kTransitClaimed" "intent \<in> set rs" "rtype intent = kTransitIntent"
    and "key_hash claim = key_hash intent" "lsn claim < lsn intent" "lsn intent \<le> rt_entry_id loc"
    and "(mk, e) \<in> set (ts_entries t)" "te_key_hash e = key_hash intent"
  shows "\<exists>out w' t' rs'. RunCheckpoint C env loc replicas rf now w t = Some (Inr out, w', t') \<and>
    ReadAll C w' = Some (rs', w'\<lparr>last_read_corrupt := False\<rparr>) \<and> lsn intent \<notin> lsn ` set rs' \<and> (mk, e) \<notin> set (ts_entries t')"
proof -
  let ?cp = "rt_entry_id loc"
  have asc: "ascending rs" using assms(3) by (simp add: wal_inv_def)
  then have gate: "UnclaimedIntentsBelow rs ?cp = []" using assms(8) UnclaimedIntentsBelow_empty by blast
  have st: "settled ?cp rs intent"
    using assms(9-15) unfolding settled_def IsTransit_def by (auto intro!: bexI [of _ claim])
  obtain out w' fs' rs' m t' where eff: "RunCheckpoint C env loc replicas rf now w t = Some (Inr out, w', t')" "wal_inv C w' fs' rs'"
    "map unlinked rs' = map unlinked (filter (\<lambda>r. \<not> settled ?cp rs r) rs @ [m])" "lsn m = next_lsn w"
    "ts_entries t' = filter (\<lambda>p. te_key_hash (snd p) \<notin> key_hash ` {r \<in> set rs. rtype r = kTransitIntent \<and> settled ?cp rs r}) (ts_entries t)"
    using RunCheckpoint_effect [OF assms(1-5) refl assms(6,7) gate] by blast
  have "map lsn rs' = map lsn (filter (\<lambda>r. \<not> settled ?cp rs r) rs @ [m])"
    using arg_cong [OF eff(3), of "map lsn"] by (simp add: unlinked_def comp_def)
  moreover have "lsn intent \<noteq> lsn m"
    using last_lsn_bound [OF assms(3,11)] eff(4) by simp
  moreover have "lsn intent \<notin> lsn ` set (filter (\<lambda>r. \<not> settled ?cp rs r) rs)"
    using st ascending_inj [OF asc assms(11)] by auto
  ultimately have "lsn intent \<notin> set (map lsn rs')" by simp
  moreover have "ReadAll C w' = Some (rs', w'\<lparr>last_read_corrupt := False\<rparr>)"
    using ReadAllLocked_inv [OF eff(2)] by (simp add: ReadAll_def)
  moreover have "(mk, e) \<notin> set (ts_entries t')" unfolding eff(5) using st assms(11,12,17) by auto
  ultimately show ?thesis using eff(1) by auto
qed

theorem checkpoint_releases_uncollected_envelope_witness:
  "\<exists>w t out w' t' p. p \<in> set (ts_entries t) \<and>
     RunCheckpoint ex_crypto ex_env ex_tip [] 1 (HLC 0 0 []) w t = Some (Inr out, w', t') \<and> p \<notin> set (ts_entries t')"
proof -
  obtain w fs rs r1 r2 t mk where x: "wal_inv ex_crypto w fs rs" "ts_inv ex_crypto ex_key t" "r1 \<in> set rs" "r2 \<in> set rs"
    "rtype r1 = kTransitClaimed" "rtype r2 = kTransitIntent" "lsn r1 < lsn r2" "lsn r2 = 2" "key_hash r1 = key_hash r2"
    "marker_fits ex_crypto (EvaluateCheckpoint ex_tip [] 1) (HLC 0 0 []) w"
    "\<forall>r\<in>set rs. rtype r = kTransitIntent \<and> lsn r < rt_entry_id ex_tip \<longrightarrow> settled (rt_entry_id ex_tip) rs r"
    "ts_entries t = [(mk, ex_envelope\<lparr>te_key_hash := key_hash r2\<rparr>)]"
    using ex_uncollected by metis
  have "lsn r2 \<le> rt_entry_id ex_tip" "(mk, ex_envelope\<lparr>te_key_hash := key_hash r2\<rparr>) \<in> set (ts_entries t)"
    "te_key_hash (ex_envelope\<lparr>te_key_hash := key_hash r2\<rparr>) = key_hash r2"
    using x(8,12) by (simp_all add: ex_tip_def)
  from checkpoint_releases_uncollected_envelope [OF ex_crypto_laws(2,1) x(1,2) ex_env_works ex_proceeds x(10,11) x(3,5,4,6,9,7) this] this(2)
  show ?thesis by blast
qed

end
