(* ===== verification/JsonText.thy ===== *)
theory JsonText
  imports Json "HOL-Library.Multiset"
begin

text \<open>
  \<^verbatim>\<open>src/common/json.cpp\<close>: the recursive-descent parser and the two printers of JSON text. The
  parser's cursor is the list of bytes not yet read; an exception is a value of \<open>json_exn\<close>. The
  conversions of the standard library the code calls (\<^verbatim>\<open>std::stoll\<close>, \<^verbatim>\<open>std::stod\<close>, an
  \<^verbatim>\<open>ostringstream\<close> on a \<^verbatim>\<open>double\<close>) are defined on exact rationals and rounded once, half to even.
\<close>

section \<open>Characters\<close>

abbreviation ch :: "char \<Rightarrow> byte" where
  "ch c \<equiv> of_char c"

definition is_ws :: "byte \<Rightarrow> bool" where
  "is_ws c = (c = 32 \<or> c = 9 \<or> c = 10 \<or> c = 13)"

definition isdigit :: "byte \<Rightarrow> bool" where
  "isdigit c = (48 \<le> c \<and> c \<le> 57)"

definition SkipWs :: "bytes \<Rightarrow> bytes" where
  "SkipWs bs = dropWhile is_ws bs"

definition Peek :: "bytes \<Rightarrow> byte" where
  "Peek bs = (case bs of [] \<Rightarrow> 0 | c # _ \<Rightarrow> c)"

text \<open>The exceptions a parse can end in: \<^verbatim>\<open>Fail\<close>, and those of the number conversions.\<close>

datatype json_exn = RuntimeError | InvalidArgument | OutOfRange

type_synonym 'a parsed = "json_exn + 'a \<times> bytes"

definition Expect :: "byte \<Rightarrow> bytes \<Rightarrow> unit parsed" where
  "Expect c bs = (case bs of [] \<Rightarrow> Inl RuntimeError | d # rest \<Rightarrow> if d \<noteq> c then Inl RuntimeError else Inr ((), rest))"

section \<open>Strings\<close>

definition hex_digit :: "byte \<Rightarrow> nat option" where
  "hex_digit h =
     (if 48 \<le> h \<and> h \<le> 57 then Some (unat h - 48)
      else if 97 \<le> h \<and> h \<le> 102 then Some (unat h - 97 + 10)
      else if 65 \<le> h \<and> h \<le> 70 then Some (unat h - 65 + 10)
      else None)"

text \<open>The UTF-8 encoding of a code point of the basic plane.\<close>

definition utf8 :: "nat \<Rightarrow> bytes" where
  "utf8 cp =
     (if cp < 0x80 then [of_nat cp]
      else if cp < 0x800 then [of_nat (0xC0 + cp div 64), of_nat (0x80 + cp mod 64)]
      else [of_nat (0xE0 + cp div 4096), of_nat (0x80 + cp div 64 mod 64), of_nat (0x80 + cp mod 64)])"

definition unescape :: "byte \<Rightarrow> byte option" where
  "unescape e =
     (if e = 34 then Some 34 else if e = 92 then Some 92 else if e = 47 then Some 47
      else if e = ch CHR ''n'' then Some 10 else if e = ch CHR ''t'' then Some 9
      else if e = ch CHR ''r'' then Some 13 else if e = ch CHR ''b'' then Some 8
      else if e = ch CHR ''f'' then Some 12 else None)"

text \<open>What follows a backslash: the bytes it stands for and what is left.\<close>

definition get_escape :: "bytes \<Rightarrow> (bytes \<times> bytes) option" where
  "get_escape bs =
     (case bs of
        [] \<Rightarrow> None
      | e # rest \<Rightarrow>
          if e = ch CHR ''u'' then
            (if length rest < 4 then None
             else
               case those (map hex_digit (take 4 rest)) of
                 None \<Rightarrow> None
               | Some hs \<Rightarrow> Some (utf8 (foldl (\<lambda>cp h. cp * 16 + h) 0 hs), drop 4 rest))
          else map_option (\<lambda>x. ([x], rest)) (unescape e))"

lemma get_escape_shorter: "get_escape bs = Some (x, rest) \<Longrightarrow> length rest < length bs"
  by (auto simp: get_escape_def split: list.splits if_splits option.splits)

text \<open>The body of a string after its opening quote; the accumulator is what was read so far.\<close>

function string_body :: "bytes \<Rightarrow> bytes \<Rightarrow> bytes parsed" where
  "string_body out bs =
     (case bs of
        [] \<Rightarrow> Inl RuntimeError
      | c # rest \<Rightarrow>
          if c = 34 then Inr (out, rest)
          else if c = 92 then
            (case get_escape rest of None \<Rightarrow> Inl RuntimeError | Some (x, rest) \<Rightarrow> string_body (out @ x) rest)
          else string_body (out @ [c]) rest)"
  by pat_completeness auto

termination
  by (relation "measure (\<lambda>(out, bs). length bs)") (auto dest!: get_escape_shorter)

declare string_body.simps [simp del]

definition ParseString :: "bytes \<Rightarrow> bytes parsed" where
  "ParseString bs = (case Expect 34 bs of Inl e \<Rightarrow> Inl e | Inr (_, rest) \<Rightarrow> string_body [] rest)"

section \<open>Numbers\<close>

definition digits_val :: "bytes \<Rightarrow> nat" where
  "digits_val ds = foldl (\<lambda>n d. n * 10 + (unat d - 48)) 0 ds"

text \<open>The quotient \<open>n / d\<close> of positive numbers, rounded half to even.\<close>

definition div_even :: "nat \<Rightarrow> nat \<Rightarrow> nat" where
  "div_even n d =
     (let q = n div d; r = n mod d in if 2 * r > d \<or> (2 * r = d \<and> odd q) then q + 1 else q)"

text \<open>The binary exponent of a positive rational: \<open>2 ^ e \<le> n / d < 2 ^ (e + 1)\<close>.\<close>

definition scaled :: "nat \<Rightarrow> nat \<Rightarrow> nat \<Rightarrow> int \<Rightarrow> nat \<times> nat" where
  "scaled b n d k = (if k \<ge> 0 then (n * b ^ nat k, d) else (n, d * b ^ nat (- k)))"

definition binary_exponent :: "nat \<Rightarrow> nat \<Rightarrow> int" where
  "binary_exponent n d =
     (let e = int (bit_length n) - int (bit_length d); (n', d') = scaled 2 n d (- e)
      in if n' < d' then e - 1 else e)"

text \<open>
  The double nearest to \<open>n / d\<close>, or \<open>None\<close> where the conversion sets \<^verbatim>\<open>ERANGE\<close>: beyond the largest
  finite value, or below the smallest normal one and inexact.
\<close>

definition rat_to_double :: "nat \<Rightarrow> nat \<Rightarrow> u64 option" where
  "rat_to_double n d =
     (if n = 0 then Some 0
      else
        let e = binary_exponent n d
        in if e < - 1022
           then let (n', d') = scaled 2 n d 1074
                in if n' mod d' \<noteq> 0 then None else Some (of_nat (n' div d'))
           else let (n', d') = scaled 2 n d (52 - e);
                    bits = (e + 1022) * 2 ^ 52 + int (div_even n' d')
                in if bits \<ge> 0x7FF0000000000000 then None else Some (word_of_int bits))"

definition decimal_to_double :: "bool \<Rightarrow> nat \<Rightarrow> int \<Rightarrow> json_exn + u64" where
  "decimal_to_double neg m ex =
     (let (n, d) = scaled 10 m 1 ex
      in case rat_to_double n d of
           None \<Rightarrow> Inl OutOfRange
         | Some w \<Rightarrow> Inr (if neg then w OR 0x8000000000000000 else w))"

text \<open>
  \<^verbatim>\<open>std::stod\<close> on a token of the characters \<^verbatim>\<open>-0123456789.eE+\<close> that starts with a sign or a digit:
  it converts the longest prefix that is a number and ignores the rest.
\<close>

definition stod :: "bytes \<Rightarrow> json_exn + u64" where
  "stod tok =
     (let neg = (Peek tok = 45); t = (if neg then tl tok else tok);
          ip = takeWhile isdigit t; t = dropWhile isdigit t;
          fp = (if Peek t = 46 then takeWhile isdigit (tl t) else []);
          t = (if Peek t = 46 then dropWhile isdigit (tl t) else t);
          et = (if Peek t = 101 \<or> Peek t = 69 then tl t else []);
          eneg = (Peek et = 45);
          ed = takeWhile isdigit (if Peek et = 45 \<or> Peek et = 43 then tl et else et);
          ex = (if eneg then - int (digits_val ed) else int (digits_val ed)) - int (length fp)
      in if ip = [] \<and> fp = [] then Inl InvalidArgument
         else decimal_to_double neg (digits_val (ip @ fp)) ex)"

definition stoll :: "bytes \<Rightarrow> json_exn + int" where
  "stoll tok =
     (let neg = (Peek tok = 45); ds = takeWhile isdigit (if neg then tl tok else tok);
          v = (if neg then - int (digits_val ds) else int (digits_val ds))
      in if ds = [] then Inl InvalidArgument
         else if v < - (2 ^ 63) \<or> v \<ge> 2 ^ 63 then Inl OutOfRange else Inr v)"

text \<open>The scan of \<^verbatim>\<open>ParseNumber\<close>: the token, whether it is a double, and the bytes after it.\<close>

definition scan_fraction :: "bytes \<Rightarrow> bytes \<times> bool \<times> bytes" where
  "scan_fraction r =
     (if r \<noteq> [] \<and> hd r = 46
      then (46 # takeWhile isdigit (tl r), True, dropWhile isdigit (tl r)) else ([], False, r))"

definition scan_exponent :: "bytes \<Rightarrow> bytes \<times> bool \<times> bytes" where
  "scan_exponent r =
     (if r \<noteq> [] \<and> (hd r = 101 \<or> hd r = 69)
      then let x = hd r; r = tl r;
               (s, r) = (if r \<noteq> [] \<and> (hd r = 43 \<or> hd r = 45) then ([hd r], tl r) else ([], r))
           in (x # s @ takeWhile isdigit r, True, dropWhile isdigit r)
      else ([], False, r))"

definition number_token :: "bytes \<Rightarrow> bytes \<times> bool \<times> bytes" where
  "number_token bs =
     (let (a, r) = (if Peek bs = 45 then ([45], tl bs) else ([], bs));
          (b, r) = (takeWhile isdigit r, dropWhile isdigit r);
          (c, dbl, r) = scan_fraction r;
          (d, dbl', r) = scan_exponent r
      in (a @ b @ c @ d, dbl \<or> dbl', r))"

definition ParseNumber :: "bytes \<Rightarrow> json parsed" where
  "ParseNumber bs =
     (let (tok, is_double, rest) = number_token bs
      in if tok = [] \<or> tok = [45] then Inl RuntimeError
         else if is_double then (case stod tok of Inl e \<Rightarrow> Inl e | Inr d \<Rightarrow> Inr (JDouble d, rest))
         else case stoll tok of
           Inr i \<Rightarrow> Inr (JInt i, rest)
         | Inl OutOfRange \<Rightarrow> (case stod tok of Inl e \<Rightarrow> Inl e | Inr d \<Rightarrow> Inr (JDouble d, rest))
         | Inl e \<Rightarrow> Inl e)"

section \<open>Values\<close>

definition ParseBool :: "bytes \<Rightarrow> json parsed" where
  "ParseBool bs =
     (if take 4 bs = bytes_of ''true'' then Inr (JBool True, drop 4 bs)
      else if take 5 bs = bytes_of ''false'' then Inr (JBool False, drop 5 bs)
      else Inl RuntimeError)"

definition ParseNull :: "bytes \<Rightarrow> json parsed" where
  "ParseNull bs = (if take 4 bs = bytes_of ''null'' then Inr (JNull, drop 4 bs) else Inl RuntimeError)"

text \<open>
  The bytes a parser leaves are a suffix of those it was given; \<open>shorter\<close> and \<open>no_longer\<close> are what
  the termination of the value parser needs of it.
\<close>

definition no_longer :: "'a parsed \<Rightarrow> bytes \<Rightarrow> bool" where
  "no_longer p bs = (\<forall>v rest. p = Inr (v, rest) \<longrightarrow> length rest \<le> length bs)"

lemma SkipWs_length: "length (SkipWs bs) \<le> length bs"
  by (simp add: SkipWs_def length_dropWhile_le)

lemma SkipWs_Cons_length: "SkipWs bs = c # rest \<Longrightarrow> length rest < length bs"
  using SkipWs_length [of bs] by simp

lemma string_body_length: "string_body out bs = Inr (s, rest) \<Longrightarrow> length rest < length bs"
proof (induction out bs rule: string_body.induct)
  case (1 out bs)
  show ?case
  proof (cases bs)
    case (Cons c bs')
    with 1 show ?thesis
      by (subst (asm) (3) string_body.simps)
        (fastforce split: if_splits option.splits dest: get_escape_shorter)
  qed (use 1 in \<open>simp add: string_body.simps\<close>)
qed

lemma ParseString_length: "ParseString bs = Inr (s, rest) \<Longrightarrow> length rest < length bs"
  by (auto simp: ParseString_def Expect_def split: list.splits if_splits dest: string_body_length)

lemma dropWhile_tl_length: "length (dropWhile P (tl xs)) \<le> length xs"
  using length_dropWhile_le [of P "tl xs"] by simp

lemma scan_fraction_length: "scan_fraction r = (c, dbl, rest) \<Longrightarrow> length rest \<le> length r"
  by (auto simp: scan_fraction_def dropWhile_tl_length split: if_splits)

lemma scan_exponent_length: "scan_exponent r = (c, dbl, rest) \<Longrightarrow> length rest \<le> length r"
  using dropWhile_tl_length [of isdigit r] dropWhile_tl_length [of isdigit "tl r"]
  by (auto simp: scan_exponent_def Let_def split: if_splits)

lemma number_token_length:
  assumes "number_token bs = (tok, dbl, rest)"
  shows "length rest \<le> length bs"
proof -
  define r where "r = dropWhile isdigit (if Peek bs = 45 then tl bs else bs)"
  obtain c dbl1 r1 where c: "scan_fraction r = (c, dbl1, r1)" by (metis prod_cases3)
  obtain d dbl2 r2 where d: "scan_exponent r1 = (d, dbl2, r2)" by (metis prod_cases3)
  have "rest = r2" using assms c d by (auto simp: number_token_def r_def split: if_splits)
  moreover have "length r \<le> length bs"
    using dropWhile_tl_length [of isdigit bs] length_dropWhile_le [of isdigit bs] by (simp add: r_def)
  ultimately show ?thesis using scan_fraction_length [OF c] scan_exponent_length [OF d] by simp
qed

lemma ParseNumber_length: "no_longer (ParseNumber bs) bs"
  by (auto simp: no_longer_def ParseNumber_def split: prod.splits if_splits sum.splits json_exn.splits
      dest: number_token_length)

lemma literal_length: "no_longer (ParseBool bs) bs" "no_longer (ParseNull bs) bs"
  by (auto simp: no_longer_def ParseBool_def ParseNull_def split: if_splits)

lemma no_longer_simps [simp]: "no_longer (Inl e) bs" "no_longer (Inr (v, r)) bs \<longleftrightarrow> length r \<le> length bs"
  by (simp_all add: no_longer_def)

lemma no_longer_mono: "no_longer p xs \<Longrightarrow> length xs \<le> length ys \<Longrightarrow> no_longer p ys"
  by (auto simp: no_longer_def)

lemma Expect_length: "Expect c bs = Inr (u, rest) \<Longrightarrow> length rest < length bs"
  by (auto simp: Expect_def split: list.splits if_splits)

function (sequential) ParseValue :: "bytes \<Rightarrow> json parsed"
  and ParseObject :: "bytes \<Rightarrow> json parsed"
  and object_loop :: "(bytes \<times> json) list \<Rightarrow> bytes \<Rightarrow> json parsed"
  and ParseArray :: "bytes \<Rightarrow> json parsed"
  and array_loop :: "json list \<Rightarrow> bytes \<Rightarrow> json parsed" where
  "ParseValue bs =
     (case SkipWs bs of
        [] \<Rightarrow> Inl RuntimeError
      | c # rest \<Rightarrow>
          if c = 123 then ParseObject (c # rest)
          else if c = 91 then ParseArray (c # rest)
          else if c = 34 then (case ParseString (c # rest) of Inl e \<Rightarrow> Inl e | Inr (s, r) \<Rightarrow> Inr (JString s, r))
          else if c = ch CHR ''t'' \<or> c = ch CHR ''f'' then ParseBool (c # rest)
          else if c = ch CHR ''n'' then ParseNull (c # rest)
          else if c = 45 \<or> isdigit c then ParseNumber (c # rest)
          else Inl RuntimeError)"
| "ParseObject bs =
     (case Expect 123 bs of
        Inl e \<Rightarrow> Inl e
      | Inr (_, rest) \<Rightarrow>
          if Peek (SkipWs rest) = 125 then Inr (JObject [], tl (SkipWs rest)) else object_loop [] (SkipWs rest))"
| "object_loop obj bs =
     (if Peek (SkipWs bs) \<noteq> 34 then Inl RuntimeError
      else case ParseString (SkipWs bs) of
        Inl e \<Rightarrow> Inl e
      | Inr (key, r1) \<Rightarrow>
          (case Expect 58 (SkipWs r1) of
             Inl e \<Rightarrow> Inl e
           | Inr (_, r2) \<Rightarrow>
               (case ParseValue r2 of
                  Inl e \<Rightarrow> Inl e
                | Inr (v, r3) \<Rightarrow>
                    if Peek (SkipWs r3) = 44 then object_loop (obj @ [(key, v)]) (tl (SkipWs r3))
                    else if Peek (SkipWs r3) = 125 then Inr (JObject (obj @ [(key, v)]), tl (SkipWs r3))
                    else Inl RuntimeError)))"
| "ParseArray bs =
     (case Expect 91 bs of
        Inl e \<Rightarrow> Inl e
      | Inr (_, rest) \<Rightarrow>
          if Peek (SkipWs rest) = 93 then Inr (JArray [], tl (SkipWs rest)) else array_loop [] (SkipWs rest))"
| "array_loop arr bs =
     (case ParseValue bs of
        Inl e \<Rightarrow> Inl e
      | Inr (v, r) \<Rightarrow>
          if Peek (SkipWs r) = 44 then array_loop (arr @ [v]) (tl (SkipWs r))
          else if Peek (SkipWs r) = 93 then Inr (JArray (arr @ [v]), tl (SkipWs r))
          else Inl RuntimeError)"
  by pat_completeness auto


termination
proof -
  let ?D = ParseValue_ParseObject_object_loop_ParseArray_array_loop_dom
  note ps = ParseValue.psimps ParseObject.psimps object_loop.psimps ParseArray.psimps array_loop.psimps
  have len: "?D (Inl (Inl bs)) \<Longrightarrow> no_longer (ParseValue bs) bs"
    "?D (Inl (Inr bs1)) \<Longrightarrow> no_longer (ParseObject bs1) bs1"
    "?D (Inr (Inl (obj, bs2))) \<Longrightarrow> no_longer (object_loop obj bs2) bs2"
    "?D (Inr (Inr (Inl bs3))) \<Longrightarrow> no_longer (ParseArray bs3) bs3"
    "?D (Inr (Inr (Inr (arr, bs4)))) \<Longrightarrow> no_longer (array_loop arr bs4) bs4"
    for bs bs1 obj bs2 bs3 arr bs4
  proof (induction bs and bs1 and obj bs2 and bs3 and arr bs4
      rule: ParseValue_ParseObject_object_loop_ParseArray_array_loop.pinduct)
    case (1 bs)
    have IH: "\<And>c rest. SkipWs bs = c # rest \<Longrightarrow> c = 123 \<Longrightarrow> no_longer (ParseObject (c # rest)) bs"
      "\<And>c rest. SkipWs bs = c # rest \<Longrightarrow> c = 91 \<Longrightarrow> no_longer (ParseArray (c # rest)) bs"
      using 1(2,3) SkipWs_length [of bs] by (auto intro: no_longer_mono)
    have leaf: "\<And>c rest. SkipWs bs = c # rest \<Longrightarrow> no_longer (ParseBool (c # rest)) bs \<and>
        no_longer (ParseNull (c # rest)) bs \<and> no_longer (ParseNumber (c # rest)) bs"
      using SkipWs_length [of bs] literal_length ParseNumber_length no_longer_mono by metis
    have str: "\<And>c rest s r. SkipWs bs = c # rest \<Longrightarrow> ParseString (c # rest) = Inr (s, r) \<Longrightarrow> length r \<le> length bs"
      using SkipWs_length [of bs] ParseString_length by (metis le_trans less_imp_le)
    show ?case
      unfolding ParseValue.psimps [OF 1(1)] using IH leaf str
      by (auto split: list.split sum.splits)
  next
    case (2 bs)
    show ?case
    proof (cases "Expect 123 bs")
      case (Inr p)
      then obtain u rest where p: "Expect 123 bs = Inr (u, rest)" by (cases p) auto
      have "length (SkipWs rest) \<le> length bs" using Expect_length [OF p] SkipWs_length [of rest] by simp
      then show ?thesis
        using 2(2) [OF p refl] by (auto simp: ParseObject.psimps [OF 2(1)] p intro: no_longer_mono)
    qed (simp add: ParseObject.psimps [OF 2(1)])
  next
    case (3 obj bs)
    show ?case
      unfolding object_loop.psimps [OF 3(1)] no_longer_def
    proof (intro allI impI)
      fix v rest
      assume eq: "(if Peek (SkipWs bs) \<noteq> 34 then Inl RuntimeError
        else case ParseString (SkipWs bs) of Inl e \<Rightarrow> Inl e | Inr (key, r1) \<Rightarrow>
          (case Expect 58 (SkipWs r1) of Inl e \<Rightarrow> Inl e | Inr (_, r2) \<Rightarrow>
            (case ParseValue r2 of Inl e \<Rightarrow> Inl e | Inr (v, r3) \<Rightarrow>
              if Peek (SkipWs r3) = 44 then object_loop (obj @ [(key, v)]) (tl (SkipWs r3))
              else if Peek (SkipWs r3) = 125 then Inr (JObject (obj @ [(key, v)]), tl (SkipWs r3))
              else Inl RuntimeError))) = Inr (v, rest)"
      then obtain key r1 u r2 x r3 where r: "Peek (SkipWs bs) = 34" "ParseString (SkipWs bs) = Inr (key, r1)"
        "Expect 58 (SkipWs r1) = Inr (u, r2)" "ParseValue r2 = Inr (x, r3)"
        by (auto split: if_splits sum.splits)
      have "length r3 \<le> length r2" using 3(2) r by (auto simp: no_longer_def)
      then have "length (tl (SkipWs r3)) \<le> length bs"
        using ParseString_length [OF r(2)] Expect_length [OF r(3)] SkipWs_length [of r3] SkipWs_length [of bs]
          SkipWs_length [of r1] by simp
      moreover have "length rest \<le> length (tl (SkipWs r3))"
        using eq r 3(3) [OF _ r(2) refl r(3) refl r(4) refl] by (auto simp: no_longer_def split: if_splits)
      ultimately show "length rest \<le> length bs" by simp
    qed
  next
    case (4 bs)
    show ?case
    proof (cases "Expect 91 bs")
      case (Inr p)
      then obtain u rest where p: "Expect 91 bs = Inr (u, rest)" by (cases p) auto
      have "length (SkipWs rest) \<le> length bs" using Expect_length [OF p] SkipWs_length [of rest] by simp
      then show ?thesis
        using 4(2) [OF p refl] by (auto simp: ParseArray.psimps [OF 4(1)] p intro: no_longer_mono)
    qed (simp add: ParseArray.psimps [OF 4(1)])
  next
    case (5 arr bs)
    show ?case
      unfolding array_loop.psimps [OF 5(1)] no_longer_def
    proof (intro allI impI)
      fix v rest
      assume eq: "(case ParseValue bs of Inl e \<Rightarrow> Inl e | Inr (v, r) \<Rightarrow>
          if Peek (SkipWs r) = 44 then array_loop (arr @ [v]) (tl (SkipWs r))
          else if Peek (SkipWs r) = 93 then Inr (JArray (arr @ [v]), tl (SkipWs r))
          else Inl RuntimeError) = Inr (v, rest)"
      then obtain x r where r: "ParseValue bs = Inr (x, r)" by (auto split: sum.splits)
      then have "length (tl (SkipWs r)) \<le> length bs"
        using 5(2) SkipWs_length [of r] by (auto simp: no_longer_def)
      moreover have "length rest \<le> length (tl (SkipWs r))"
        using eq r 5(3) [OF r refl] by (auto simp: no_longer_def split: if_splits)
      ultimately show "length rest \<le> length bs" by simp
    qed
  qed
  show ?thesis
  proof (relation "measure (\<lambda>x. case x of
      Inl (Inl bs) \<Rightarrow> 3 * length bs + 1
    | Inl (Inr bs) \<Rightarrow> 3 * length bs
    | Inr (Inl (obj, bs)) \<Rightarrow> 3 * length bs
    | Inr (Inr (Inl bs)) \<Rightarrow> 3 * length bs
    | Inr (Inr (Inr (arr, bs))) \<Rightarrow> 3 * length bs + 2)", goal_cases)
    case (2 bs c rest)
    then show ?case using SkipWs_length [of bs] by simp
  next
    case (3 bs c rest)
    then show ?case using SkipWs_length [of bs] by simp
  next
    case (4 bs b x rest)
    then show ?case using SkipWs_length [of rest] Expect_length [of 123 bs] by auto
  next
    case (5 obj bs b x y ba xa ya)
    then show ?case using SkipWs_length [of bs] SkipWs_length [of y] Expect_length [of 58 "SkipWs y"]
      ParseString_length [of "SkipWs bs"] by fastforce
  next
    case (6 obj bs b x y ba xa ya bb v yb)
    then have "length yb \<le> length ya" using len(1) by (auto simp: no_longer_def)
    with 6 show ?case using SkipWs_length [of bs] SkipWs_length [of y] Expect_length [of 58 "SkipWs y"]
      ParseString_length [of "SkipWs bs"] SkipWs_length [of yb] by fastforce
  next
    case (7 bs b x rest)
    then show ?case using SkipWs_length [of rest] Expect_length [of 91 bs] by auto
  next
    case (9 arr bs b x y)
    then have "length y \<le> length bs" "tl (SkipWs y) = [] \<or> length (tl (SkipWs y)) < length (SkipWs y)"
      "SkipWs y \<noteq> []"
      using len(1) by (auto simp: no_longer_def Peek_def split: list.splits)
    then show ?case using SkipWs_length [of y] by (cases "SkipWs y") auto
  qed auto
qed

declare ParseValue.simps [simp del] ParseObject.simps [simp del] object_loop.simps [simp del]
  ParseArray.simps [simp del] array_loop.simps [simp del]

definition kBom :: bytes where
  "kBom = [0xEF, 0xBB, 0xBF]"

definition Parse :: "bytes \<Rightarrow> json_exn + json" where
  "Parse text =
     (let owned = (if take 3 text = kBom then drop 3 text else text)
      in case ParseValue owned of
           Inl e \<Rightarrow> Inl e
         | Inr (v, rest) \<Rightarrow> if SkipWs rest \<noteq> [] then Inl RuntimeError else Inr v)"

section \<open>Printing\<close>

definition hex_lower :: "nat \<Rightarrow> byte" where
  "hex_lower n = (if n < 10 then of_nat (48 + n) else of_nat (87 + n))"

definition escape_char :: "byte \<Rightarrow> bytes" where
  "escape_char c =
     (if c = 34 then [92, 34] else if c = 92 then [92, 92] else if c = 10 then [92, ch CHR ''n'']
      else if c = 13 then [92, ch CHR ''r''] else if c = 9 then [92, ch CHR ''t'']
      else if c < 0x20
      then [92, ch CHR ''u'', 48, 48, hex_lower (unat c div 16), hex_lower (unat c mod 16)]
      else [c])"

definition EscapeStringTo :: "bytes \<Rightarrow> bytes" where
  "EscapeStringTo s = [34] @ concat (map escape_char s) @ [34]"

text \<open>The exact value of a finite double: its sign and the quotient of two numbers.\<close>

definition dbl_fraction :: "u64 \<Rightarrow> bool \<times> nat \<times> nat" where
  "dbl_fraction w =
     (let e = unat (dbl_abs w) div 2 ^ 52; m = unat (dbl_abs w) mod 2 ^ 52;
          (n, d) = (if e = 0 then scaled 2 m 1 (- 1074) else scaled 2 (2 ^ 52 + m) 1 (int e - 1075))
      in (w \<noteq> dbl_abs w, n, d))"

definition decimal_exponent :: "nat \<Rightarrow> nat \<Rightarrow> int" where
  "decimal_exponent n d =
     (let e = int (length (to_string_nat n)) - int (length (to_string_nat d)); (n', d') = scaled 10 n d (- e)
      in if n' < d' then e - 1 else e)"

definition strip_zeros :: "bytes \<Rightarrow> bytes" where
  "strip_zeros ds = rev (dropWhile (\<lambda>c. c = 48) (rev ds))"

definition with_point :: "bytes \<Rightarrow> bytes \<Rightarrow> bytes" where
  "with_point ip fp = (if strip_zeros fp = [] then ip else ip @ [46] @ strip_zeros fp)"

definition two_digits :: "nat \<Rightarrow> bytes" where
  "two_digits n = (if n < 10 then 48 # to_string_nat n else to_string_nat n)"

text \<open>An \<^verbatim>\<open>ostringstream\<close> with its default format and precision: six significant digits.\<close>

definition format_double :: "u64 \<Rightarrow> bytes" where
  "format_double w =
     (let (neg, n, d) = dbl_fraction w; sign = (if neg then [45] else [])
      in if n = 0 then sign @ [48]
         else
           let x = decimal_exponent n d; (n', d') = scaled 10 n d (5 - x); q = div_even n' d';
               (x, q) = (if q = 1000000 then (x + 1, 100000) else (x, q));
               ds = to_string_nat q
           in sign @
              (if x < - 4 \<or> x \<ge> 6
               then with_point (take 1 ds) (drop 1 ds) @ [101] @ (if x < 0 then [45] else [43]) @ two_digits (nat \<bar>x\<bar>)
               else if x \<ge> 0 then with_point (take (nat x + 1) ds) (drop (nat x + 1) ds)
               else with_point [48] (replicate (nat (- x - 1)) 48 @ ds)))"

fun commas :: "bytes list \<Rightarrow> bytes" where
  "commas [] = []"
| "commas [x] = x"
| "commas (x # y # xs) = x @ [44] @ commas (y # xs)"

fun DumpTo :: "bool \<Rightarrow> json \<Rightarrow> bytes" where
  "DumpTo canonical JNull = bytes_of ''null''"
| "DumpTo canonical (JBool b) = bytes_of (if b then ''true'' else ''false'')"
| "DumpTo canonical (JInt i) = to_string_int i"
| "DumpTo canonical (JDouble d) = (if dbl_is_finite d then format_double d else [48])"
| "DumpTo canonical (JString s) = EscapeStringTo s"
| "DumpTo canonical (JArray xs) = [91] @ commas (map (DumpTo canonical) xs) @ [93]"
| "DumpTo canonical (JObject fs) =
     [123] @
     commas (if \<not> canonical then map (\<lambda>f. EscapeStringTo (fst f) @ [58] @ DumpTo canonical (snd f)) fs
             else map (\<lambda>f. EscapeStringTo (fst f) @ [58] @ DumpTo canonical (snd f)) (sort_key fst fs)) @
     [125]"

definition Dump :: "json \<Rightarrow> bytes" where
  "Dump j = DumpTo False j"

definition CanonicalDump :: "json \<Rightarrow> bytes" where
  "CanonicalDump j = DumpTo True j"

section \<open>Strings read back\<close>

lemma hex_digit_lower: "n < 16 \<Longrightarrow> hex_digit (hex_lower n) = Some n"
proof -
  assume "n < 16"
  then have "n \<in> set [0..<16]" by simp
  then show ?thesis by (simp add: upt_rec hex_digit_def hex_lower_def) (elim disjE; simp)
qed

lemma string_body_escape:
  "string_body out (escape_char c @ r) = string_body (out @ [c]) r"
proof (cases "c = 34 \<or> c = 92 \<or> c = 10 \<or> c = 13 \<or> c = 9")
  case True
  then show ?thesis
    by (auto simp: escape_char_def string_body.simps [of out "92 # _"] get_escape_def unescape_def)
next
  case False
  show ?thesis
  proof (cases "c < 0x20")
    case True
    then have "unat c < 32" by (simp add: word_less_nat_alt)
    then have "get_escape (ch CHR ''u'' # 48 # 48 # hex_lower (unat c div 16) # hex_lower (unat c mod 16) # r) =
        Some ([c], r)"
      using hex_digit_lower [of "unat c div 16"] hex_digit_lower [of "unat c mod 16"] hex_digit_lower [of 0]
      by (simp add: get_escape_def utf8_def hex_lower_def [of 0])
    with True False show ?thesis
      by (simp add: escape_char_def string_body.simps [of out "92 # _"])
  next
    case no: False
    with False show ?thesis
      by (simp add: escape_char_def string_body.simps [of out "c # _"])
  qed
qed

lemma string_body_escaped: "string_body out (concat (map escape_char s) @ 34 # r) = Inr (out @ s, r)"
  by (induction s arbitrary: out) (simp_all add: string_body_escape string_body.simps [of _ "34 # r"])

lemma ParseString_escaped: "ParseString (EscapeStringTo s @ r) = Inr (s, r)"
  using string_body_escaped [of "[]" s r] by (simp add: ParseString_def Expect_def EscapeStringTo_def)

section \<open>Integers read back\<close>

definition delimiter :: "bytes \<Rightarrow> bool" where
  "delimiter r = (r = [] \<or> hd r = 44 \<or> hd r = 93 \<or> hd r = 125)"

lemma delimiter_facts:
  assumes "delimiter r"
  shows "takeWhile isdigit r = []" "dropWhile isdigit r = r" "SkipWs r = r"
    "\<not> (r \<noteq> [] \<and> hd r = 46)" "\<not> (r \<noteq> [] \<and> (hd r = 101 \<or> hd r = 69))"
  using assms by (cases r; auto simp: delimiter_def isdigit_def SkipWs_def is_ws_def)+

lemma unat_byte: "m < 256 \<Longrightarrow> unat (of_nat m :: byte) = m"
  by (simp add: unat_of_nat take_bit_nat_eq_self)

lemma to_string_digits: "list_all isdigit (to_string_nat n)"
proof (induction n rule: to_string_nat.induct)
  case (1 n)
  have d: "isdigit (of_nat (48 + k))" if "k < 10" for k
    using that unat_byte [of "48 + k"] by (simp add: isdigit_def word_le_nat_alt)
  show ?case
    using 1 d [of n] d [of "n mod 10"] by (subst to_string_nat.simps) simp
qed

lemma digits_val_to_string: "digits_val (to_string_nat n) = n"
proof (induction n rule: to_string_nat.induct)
  case (1 n)
  have d: "unat (of_nat (48 + k) :: byte) - 48 = k" if "k < 10" for k
    using that unat_byte [of "48 + k"] by simp
  show ?case
    using 1 d [of n] d [of "n mod 10"] by (subst to_string_nat.simps) (simp add: digits_val_def)
qed

lemma to_string_nat_scan:
  assumes "delimiter r"
  shows "takeWhile isdigit (to_string_nat n @ r) = to_string_nat n" "dropWhile isdigit (to_string_nat n @ r) = r"
  using to_string_digits [of n] delimiter_facts(1,2) [OF assms]
  by (simp_all add: takeWhile_append dropWhile_append list_all_iff)

lemma to_string_nat_hd: "isdigit (hd (to_string_nat n))"
  using to_string_digits [of n] by (cases "to_string_nat n") auto

lemma Peek_to_string: "Peek (to_string_nat n @ r) \<noteq> 45" "to_string_nat n \<noteq> [45]"
  using to_string_nat_hd [of n] by (cases "to_string_nat n"; auto simp: Peek_def isdigit_def)+

lemma number_token_to_string:
  assumes "delimiter r"
  shows "number_token (to_string_nat n @ r) = (to_string_nat n, False, r)"
    "number_token (45 # to_string_nat n @ r) = (45 # to_string_nat n, False, r)"
proof -
  have "scan_fraction r = ([], False, r)" "scan_exponent r = ([], False, r)"
    using delimiter_facts(4,5) [OF assms] by (auto simp: scan_fraction_def scan_exponent_def)
  then show "number_token (to_string_nat n @ r) = (to_string_nat n, False, r)"
    "number_token (45 # to_string_nat n @ r) = (45 # to_string_nat n, False, r)"
    unfolding number_token_def Let_def
    by (simp_all add: to_string_nat_scan [OF assms] Peek_to_string Peek_def [of "45 # _"])
qed

lemma stoll_to_string:
  assumes "- (2 ^ 63) \<le> i" "i < 2 ^ 63"
  shows "stoll (to_string_int i) = Inr i"
proof -
  have tw: "takeWhile isdigit (to_string_nat n) = to_string_nat n" for n
    using to_string_nat_scan(1) [of "[]" n] unfolding append_Nil2 by (simp only: delimiter_def simp_thms)
  have pk: "Peek (to_string_nat n) \<noteq> 45" for n using Peek_to_string(1) [of n "[]"] by simp
  show ?thesis
    using assms by (cases "i < 0") (simp_all add: stoll_def to_string_int_def Let_def Peek_def [of "45 # _"] digits_val_to_string tw pk)
qed

lemma ParseNumber_to_string:
  assumes "delimiter r" "- (2 ^ 63) \<le> i" "i < 2 ^ 63"
  shows "ParseNumber (to_string_int i @ r) = Inr (JInt i, r)"
proof -
  have "number_token (to_string_int i @ r) = (to_string_int i, False, r)"
    using number_token_to_string [OF assms(1)] by (simp add: to_string_int_def)
  moreover have "to_string_int i \<noteq> []" "to_string_int i \<noteq> [45]"
    using Peek_to_string(2) by (simp_all add: to_string_int_def)
  ultimately show ?thesis by (simp add: ParseNumber_def stoll_to_string [OF assms(2,3)])
qed

section \<open>Values read back\<close>

text \<open>The values text can carry unchanged: 64-bit integers, and no doubles.\<close>

fun text_ok :: "json \<Rightarrow> bool" where
  "text_ok (JInt i) = (- (2 ^ 63) \<le> i \<and> i < 2 ^ 63)"
| "text_ok (JDouble d) = False"
| "text_ok (JArray xs) = list_all text_ok xs"
| "text_ok (JObject fs) = list_all (\<lambda>f. text_ok (snd f)) fs"
| "text_ok _ = True"

definition reads_back :: "json \<Rightarrow> bool" where
  "reads_back j = (\<forall>r. delimiter r \<longrightarrow> ParseValue (DumpTo False j @ r) = Inr (j, r))"

lemma Dump_start:
  assumes "text_ok j"
  shows "\<exists>c t. DumpTo False j = c # t \<and> \<not> is_ws c \<and> c \<noteq> 93 \<and> c \<noteq> 0xEF"
proof (cases j)
  case (JInt i)
  obtain c t where "to_string_nat (nat \<bar>i\<bar>) = c # t" "isdigit c"
    using to_string_nat_hd [of "nat \<bar>i\<bar>"] by (cases "to_string_nat (nat \<bar>i\<bar>)") auto
  then show ?thesis
    using JInt by (cases "i < 0") (auto simp: to_string_int_def is_ws_def isdigit_def)
qed (use assms in \<open>auto simp: bytes_of_def EscapeStringTo_def is_ws_def\<close>)

lemma SkipWs_Dump: "text_ok j \<Longrightarrow> SkipWs (DumpTo False j @ r) = DumpTo False j @ r"
  using Dump_start [of j] by (auto simp: SkipWs_def)

lemma array_loop_reads:
  assumes "\<forall>x\<in>set xs. reads_back x" "xs \<noteq> []"
  shows "array_loop arr (commas (map (DumpTo False) xs) @ 93 # r) = Inr (JArray (arr @ xs), r)"
  using assms
proof (induction xs arbitrary: arr)
  case (Cons x xs)
  then have x: "delimiter s \<Longrightarrow> ParseValue (DumpTo False x @ s) = Inr (x, s)" for s by (simp add: reads_back_def)
  show ?case
  proof (cases xs)
    case Nil
    then show ?thesis
      by (subst array_loop.simps) (simp add: x delimiter_def SkipWs_def is_ws_def Peek_def)
  next
    case (Cons y ys)
    then show ?thesis
      using Cons.IH [of "arr @ [x]"] Cons.prems
      by (subst array_loop.simps) (simp add: x delimiter_def SkipWs_def is_ws_def Peek_def)
  qed
qed simp

lemma object_loop_reads:
  assumes "\<forall>f\<in>set fs. reads_back (snd f)" "fs \<noteq> []"
  shows "object_loop obj (commas (map (\<lambda>f. EscapeStringTo (fst f) @ [58] @ DumpTo False (snd f)) fs) @ 125 # r) =
    Inr (JObject (obj @ fs), r)"
  using assms
proof (induction fs arbitrary: obj)
  case (Cons f fs)
  then have v: "delimiter s \<Longrightarrow> ParseValue (DumpTo False (snd f) @ s) = Inr (snd f, s)" for s
    by (simp add: reads_back_def)
  have start: "SkipWs (EscapeStringTo k @ s) = EscapeStringTo k @ s" "Peek (EscapeStringTo k @ s) = 34"
    "SkipWs (58 # s) = 58 # s" "Expect 58 (58 # s) = Inr ((), s)" for k s
    by (simp_all add: EscapeStringTo_def SkipWs_def is_ws_def Peek_def Expect_def)
  show ?case
  proof (cases fs)
    case Nil
    then show ?thesis
      by (subst object_loop.simps)
        (simp add: v start ParseString_escaped delimiter_def SkipWs_def [of "125 # _"] is_ws_def Peek_def [of "125 # _"])
  next
    case (Cons g gs)
    then show ?thesis
      using Cons.IH [of "obj @ [f]"] Cons.prems
      by (subst object_loop.simps)
        (simp add: v start ParseString_escaped delimiter_def SkipWs_def [of "44 # _"] is_ws_def Peek_def [of "44 # _"])
  qed
qed simp

lemma ParseValue_bracket:
  "ParseValue (91 # s) = (if Peek (SkipWs s) = 93 then Inr (JArray [], tl (SkipWs s)) else array_loop [] (SkipWs s))"
  by (simp add: ParseValue.simps ParseArray.simps Expect_def SkipWs_def [of "91 # s"] is_ws_def)

lemma ParseValue_brace:
  "ParseValue (123 # s) = (if Peek (SkipWs s) = 125 then Inr (JObject [], tl (SkipWs s)) else object_loop [] (SkipWs s))"
  by (simp add: ParseValue.simps ParseObject.simps Expect_def SkipWs_def [of "123 # s"] is_ws_def)

lemma text_reads_back: "text_ok j \<Longrightarrow> reads_back j"
proof (induction j)
  case JNull
  show ?case by (simp add: reads_back_def bytes_of_def ParseValue.simps SkipWs_def is_ws_def ParseNull_def)
next
  case (JBool b)
  show ?case
    by (cases b) (simp_all add: reads_back_def bytes_of_def ParseValue.simps SkipWs_def is_ws_def ParseBool_def)
next
  case (JInt i)
  obtain c t where c: "to_string_int i = c # t" "c = 45 \<or> isdigit c"
    using to_string_nat_hd [of "nat i"]
    by (cases "i < 0"; cases "to_string_nat (nat i)") (auto simp: to_string_int_def)
  have "\<not> is_ws c" "c \<noteq> 123" "c \<noteq> 91" "c \<noteq> 34" "c \<noteq> 116" "c \<noteq> 102" "c \<noteq> 110"
    using c(2) by (auto simp: is_ws_def isdigit_def)
  then show ?case
    using c JInt ParseNumber_to_string [of _ i] by (auto simp: reads_back_def ParseValue.simps SkipWs_def)
next
  case (JDouble d)
  then show ?case by simp
next
  case (JString s)
  have "SkipWs (EscapeStringTo s @ r) = 34 # concat (map escape_char s) @ 34 # r" for r
    by (simp add: EscapeStringTo_def SkipWs_def is_ws_def)
  then show ?case
    using ParseString_escaped [of s] by (simp add: reads_back_def ParseValue.simps EscapeStringTo_def)
next
  case (JArray xs)
  then have ok: "\<forall>x\<in>set xs. reads_back x" "\<forall>x\<in>set xs. text_ok x" by (simp_all add: list_all_iff)
  show ?case
  proof (cases xs)
    case Nil
    then show ?thesis by (simp add: reads_back_def ParseValue_bracket SkipWs_def is_ws_def Peek_def)
  next
    case (Cons x ys)
    obtain c t where c: "DumpTo False x = c # t" "\<not> is_ws c" "c \<noteq> 93" using Dump_start [of x] ok(2) Cons by auto
    obtain t' where "commas (map (DumpTo False) xs) = c # t'" using c(1) Cons by (cases ys) auto
    then have "SkipWs (commas (map (DumpTo False) xs) @ s) = commas (map (DumpTo False) xs) @ s"
      "Peek (commas (map (DumpTo False) xs) @ s) \<noteq> 93" for s
      using c by (simp_all add: SkipWs_def Peek_def)
    then show ?thesis
      using array_loop_reads [OF ok(1), of "[]"] Cons by (simp add: reads_back_def ParseValue_bracket del: commas.simps)
  qed
next
  case (JObject fs)
  then have ok: "\<forall>f\<in>set fs. reads_back (snd f)" by (auto simp: list_all_iff)
  show ?case
  proof (cases fs)
    case Nil
    then show ?thesis by (simp add: reads_back_def ParseValue_brace SkipWs_def is_ws_def Peek_def)
  next
    case (Cons f gs)
    let ?t = "commas (map (\<lambda>f. EscapeStringTo (fst f) @ [58] @ DumpTo False (snd f)) fs)"
    obtain t' where "?t = 34 # t'" using Cons by (cases gs) (auto simp: EscapeStringTo_def)
    then have "SkipWs (?t @ s) = ?t @ s" "Peek (?t @ s) \<noteq> 125" for s
      by (simp_all add: SkipWs_def Peek_def is_ws_def)
    then show ?thesis
      using object_loop_reads [OF ok, of "[]"] Cons by (simp add: reads_back_def ParseValue_brace del: commas.simps)
  qed
qed

text \<open>The value with the fields of every object in the order of their names.\<close>

fun json_sorted :: "json \<Rightarrow> json" where
  "json_sorted (JArray xs) = JArray (map json_sorted xs)"
| "json_sorted (JObject fs) = JObject (map (\<lambda>f. (fst f, json_sorted (snd f))) (sort_key fst fs))"
| "json_sorted j = j"

lemma DumpTo_sorted: "DumpTo True j = DumpTo False (json_sorted j)"
  by (induction j) (auto simp: comp_def intro!: arg_cong [of _ _ commas])

lemma text_ok_sorted: "text_ok j \<Longrightarrow> text_ok (json_sorted j)"
  by (induction j) (auto simp: list_all_iff)

lemma Parse_reads_back:
  assumes "text_ok j"
  shows "Parse (DumpTo False j) = Inr j"
proof -
  have "ParseValue (DumpTo False j) = Inr (j, [])"
    using text_reads_back [OF assms] by (fastforce simp: reads_back_def delimiter_def)
  moreover have "take 3 (DumpTo False j) \<noteq> kBom"
    using Dump_start [OF assms] by (auto simp: kBom_def)
  ultimately show ?thesis by (simp add: Parse_def SkipWs_def)
qed

section \<open>Properties\<close>

text \<open>
  C19: text written by \<^verbatim>\<open>Dump\<close> parses back to the very value, and text written by
  \<^verbatim>\<open>CanonicalDump\<close> to the value with the fields of every object sorted by name, for every value of
  64-bit integers, arbitrary byte strings, arrays and objects (duplicate names included).
\<close>

theorem json_text_round_trip:
  assumes "text_ok j"
  shows "Parse (Dump j) = Inr j \<and> Parse (CanonicalDump j) = Inr (json_sorted j)"
  using Parse_reads_back [OF assms] Parse_reads_back [OF text_ok_sorted [OF assms]]
  by (simp add: Dump_def CanonicalDump_def DumpTo_sorted)

theorem json_text_round_trip_witness:
  "Parse (CanonicalDump (JObject [(bytes_of ''b'', JString [10, 34, 0, 0xC3]), (bytes_of ''a'', JArray [JInt (- 7), JNull])])) =
     Inr (JObject [(bytes_of ''a'', JArray [JInt (- 7), JNull]), (bytes_of ''b'', JString [10, 34, 0, 0xC3])])"
proof -
  have "text_ok (JObject [(bytes_of ''b'', JString [10, 34, 0, 0xC3]), (bytes_of ''a'', JArray [JInt (- 7), JNull])])" by simp
  from json_text_round_trip [OF this] show ?thesis by (simp add: bytes_of_def)
qed

text \<open>
  The canonical text of an object depends on the set of its fields and not on their order,
  provided no name occurs twice.
\<close>

theorem canonical_dump_ignores_order:
  assumes "mset fs = mset gs" "distinct (map fst fs)"
  shows "CanonicalDump (JObject fs) = CanonicalDump (JObject gs)"
proof -
  have "mset (map fst fs) = mset (map fst gs)" using assms(1) by (simp only: mset_map)
  then have "distinct (map fst gs)" using assms(2) mset_eq_imp_distinct_iff by blast
  then have inj: "inj_on fst (set gs)" by (simp add: distinct_map)
  have same: "set fs = set gs" using assms(1) by (rule mset_eq_setD)
  have "map fst (sort_key fst fs) = map fst (sort_key fst gs)"
    using assms(2) \<open>distinct (map fst gs)\<close> same
    by (intro sorted_distinct_set_unique) (simp_all add: distinct_map)
  then have "sort_key fst fs = sort_key fst gs" by (rule map_inj_on) (simp add: same inj)
  then show ?thesis by (simp add: CanonicalDump_def)
qed

theorem canonical_dump_ignores_order_witness:
  "CanonicalDump (JObject [([98], JInt 1), ([97], JInt 2)]) = CanonicalDump (JObject [([97], JInt 2), ([98], JInt 1)])"
  by (rule canonical_dump_ignores_order) simp_all

lemmas text_eval = bit_length.simps to_string_nat.simps bytes_of_def dbl_abs_def dbl_is_finite_def dbl_fraction_def
  format_double_def decimal_exponent_def scaled_def div_even_def strip_zeros_def with_point_def two_digits_def
  Parse_def kBom_def ParseValue.simps SkipWs_def is_ws_def isdigit_def ParseNumber_def number_token_def scan_fraction_def
  scan_exponent_def stod_def decimal_to_double_def stoll_def digits_val_def Peek_def rat_to_double_def binary_exponent_def Let_def

lemma dump_1234567: "Dump (JDouble 0x4132D68700000000) = bytes_of ''1.23457e+06''"
  by (simp add: Dump_def text_eval)

lemma parse_1234570: "Parse (bytes_of ''1.23457e+06'') = Inr (JDouble 0x4132D68A00000000)"
  by (simp add: text_eval)

lemma dump_2: "Dump (JDouble 0x4000000000000000) = bytes_of ''2''"
  by (simp add: Dump_def text_eval)

lemma parse_2: "Parse (bytes_of ''2'') = Inr (JInt 2)"
  by (simp add: text_eval)

lemma parse_no_digits: "Parse (bytes_of ''-.'') = Inl InvalidArgument"
  by (simp add: text_eval)

text \<open>
  Doubles do not survive their text. It has six significant digits, so 1234567 comes back as
  1234570, and a double with an integral value comes back as an integer. And not every malformed
  text ends in the documented \<^verbatim>\<open>std::runtime_error\<close>: a number without digits ends in the
  \<^verbatim>\<open>std::invalid_argument\<close> of \<^verbatim>\<open>std::stod\<close>.
\<close>

theorem json_doubles_lose_their_value:
  "Dump (JDouble 0x4132D68700000000) = bytes_of ''1.23457e+06'' \<and>
   Parse (bytes_of ''1.23457e+06'') = Inr (JDouble 0x4132D68A00000000) \<and>
   Dump (JDouble 0x4000000000000000) = bytes_of ''2'' \<and> Parse (bytes_of ''2'') = Inr (JInt 2) \<and>
   Parse (bytes_of ''-.'') = Inl InvalidArgument"
  using dump_1234567 parse_1234570 dump_2 parse_2 parse_no_digits by blast

section \<open>Types of parsed values\<close>

text \<open>What a value's fields can hold in the source: 64-bit integers, finite doubles.\<close>

fun well_typed :: "json \<Rightarrow> bool" where
  "well_typed (JInt i) = (- (2 ^ 63) \<le> i \<and> i < 2 ^ 63)"
| "well_typed (JDouble d) = dbl_is_finite d"
| "well_typed (JArray xs) = list_all well_typed xs"
| "well_typed (JObject fs) = list_all (\<lambda>f. well_typed (snd f)) fs"
| "well_typed _ = True"

lemma bit_length_bounds: "n < 2 ^ bit_length n" "0 < n \<Longrightarrow> 2 ^ bit_length n \<le> 2 * n"
proof -
  show "n < 2 ^ bit_length n"
    by (induction n rule: bit_length.induct) (subst bit_length.simps, auto)
  show "0 < n \<Longrightarrow> 2 ^ bit_length n \<le> 2 * n"
  proof (induction n rule: bit_length.induct)
    case (1 n)
    then show ?case by (subst bit_length.simps) (cases "n div 2 = 0", auto simp: bit_length.simps [of 0])
  qed
qed

lemma below_normal:
  assumes "0 < d" "binary_exponent n d < - 1022"
  shows "n * 2 ^ 1074 div d < 2 ^ 52"
proof -
  let ?e = "int (bit_length n) - int (bit_length d)"
  have "n * 2 ^ 1022 < d"
  proof (cases "?e \<le> - 1022 \<and> n * 2 ^ nat (- ?e) < d")
    case True
    then have "(2 :: nat) ^ 1022 \<le> 2 ^ nat (- ?e)" by (intro power_increasing) auto
    then have "n * 2 ^ 1022 \<le> n * 2 ^ nat (- ?e)" by (rule mult_left_mono) simp
    then show ?thesis using True by linarith
  next
    case False
    then have "bit_length n + 1022 < bit_length d"
      using assms(2) by (auto simp: binary_exponent_def scaled_def Let_def split: if_splits)
    then have "(2 :: nat) ^ (bit_length n + 1023) \<le> 2 ^ bit_length d" by (intro power_increasing) auto
    then have "2 * (2 ^ bit_length n * 2 ^ 1022) \<le> 2 * d"
      using bit_length_bounds(2) [OF assms(1)] by (simp add: power_add)
    moreover have "n * 2 ^ 1022 < 2 ^ bit_length n * 2 ^ 1022" using bit_length_bounds(1) by simp
    ultimately show ?thesis by linarith
  qed
  then have "n * 2 ^ 1022 * 2 ^ 52 < d * 2 ^ 52" by simp
  then have "n * 2 ^ 1074 < 2 ^ 52 * d" by (simp add: mult.assoc mult.commute flip: power_add)
  then show ?thesis using assms(1) by (simp add: less_mult_imp_div_less)
qed

lemma finite_word:
  assumes "uint w < 0x7FF0000000000000"
  shows "dbl_is_finite w" "dbl_is_finite (w OR 0x8000000000000000)"
proof -
  have "w AND 0x7FFFFFFFFFFFFFFF \<le> w" by (rule word_and_le2)
  moreover have "w < 0x7FF0000000000000" using assms by (simp add: word_less_def)
  ultimately have "w AND 0x7FFFFFFFFFFFFFFF < 0x7FF0000000000000" by (rule le_less_trans)
  then show "dbl_is_finite w" "dbl_is_finite (w OR 0x8000000000000000)"
    by (simp_all add: dbl_is_finite_def dbl_abs_def bit.conj_disj_distrib2)
qed

lemma rat_to_double_range:
  assumes "0 < d" "rat_to_double n d = Some w"
  shows "uint w < 0x7FF0000000000000"
proof -
  consider "w = 0" | "binary_exponent n d < - 1022" "w = of_nat (n * 2 ^ 1074 div d)"
    | b where "0 \<le> b" "b < 0x7FF0000000000000" "w = word_of_int b"
  proof (cases "n = 0")
    case False
    show ?thesis
    proof (cases "binary_exponent n d < - 1022")
      case True
      then show ?thesis using assms(2) False that(2) by (simp add: rat_to_double_def scaled_def Let_def split: if_splits)
    next
      case no: False
      obtain n' d' where "scaled 2 n d (52 - binary_exponent n d) = (n', d')" by (metis surj_pair)
      then show ?thesis
        using no False assms(2) that(3) [of "(binary_exponent n d + 1022) * 2 ^ 52 + int (div_even n' d')"]
        by (simp add: rat_to_double_def Let_def split: if_splits)
    qed
  qed (use assms(2) that(1) in \<open>simp add: rat_to_double_def\<close>)
  then show ?thesis
  proof cases
    case 2
    define k where "k = n * 2 ^ 1074 div d"
    have "k < 2 ^ 52" using below_normal [OF assms(1) 2(1)] by (simp only: k_def)
    moreover have "w = of_nat k" using 2(2) by (simp only: k_def)
    ultimately show ?thesis by (simp add: unsigned_of_nat take_bit_nat_eq_self)
  next
    case 3
    then show ?thesis by (simp add: unsigned_of_int take_bit_int_eq_self)
  qed simp
qed

lemma decimal_to_double_finite:
  assumes "decimal_to_double neg m ex = Inr w"
  shows "dbl_is_finite w"
proof -
  obtain n d where nd: "scaled 10 m 1 ex = (n, d)" by (metis surj_pair)
  moreover have "0 < d" using nd by (auto simp: scaled_def split: if_splits)
  ultimately show ?thesis
    using assms finite_word [OF rat_to_double_range] by (auto simp: decimal_to_double_def split: option.splits)
qed

lemma stod_finite: "stod tok = Inr w \<Longrightarrow> dbl_is_finite w"
  unfolding stod_def Let_def by (metis decimal_to_double_finite sum.distinct(1))

lemma stoll_range: "stoll tok = Inr i \<Longrightarrow> - (2 ^ 63) \<le> i \<and> i < 2 ^ 63"
  by (auto simp: stoll_def Let_def split: if_splits)

definition typed_result :: "json parsed \<Rightarrow> bool" where
  "typed_result p = (\<forall>v r. p = Inr (v, r) \<longrightarrow> well_typed v)"

lemma typed_result_simps [simp]:
  "typed_result (Inl e)" "typed_result (Inr (v, r)) \<longleftrightarrow> well_typed v"
  by (simp_all add: typed_result_def)

lemma ParseNumber_typed: "typed_result (ParseNumber bs)"
  by (auto simp: typed_result_def ParseNumber_def split: prod.splits if_splits sum.splits json_exn.splits
      dest: stod_finite stoll_range)

lemma literals_typed: "typed_result (ParseBool bs)" "typed_result (ParseNull bs)"
  by (auto simp: typed_result_def ParseBool_def ParseNull_def split: if_splits)

lemma parsers_typed:
  "typed_result (ParseValue bs)" "typed_result (ParseObject bs1)"
  "list_all (\<lambda>f. well_typed (snd f)) obj \<Longrightarrow> typed_result (object_loop obj bs2)"
  "typed_result (ParseArray bs3)" "list_all well_typed arr \<Longrightarrow> typed_result (array_loop arr bs4)"
proof (induction bs and bs1 and obj bs2 and bs3 and arr bs4
    rule: ParseValue_ParseObject_object_loop_ParseArray_array_loop.induct)
  case (1 bs)
  then show ?case
    by (subst ParseValue.simps) (auto simp: ParseNumber_typed literals_typed split: list.split sum.split)
next
  case (2 bs)
  then show ?case by (subst ParseObject.simps) (auto split: sum.split)
next
  case (3 obj bs)
  show ?case
  proof (cases "Peek (SkipWs bs) = 34 \<and> (\<exists>key r1 u r2 v r3. ParseString (SkipWs bs) = Inr (key, r1) \<and>
      Expect 58 (SkipWs r1) = Inr (u, r2) \<and> ParseValue r2 = Inr (v, r3))")
    case True
    then obtain key r1 u r2 v r3 where p: "Peek (SkipWs bs) = 34" "ParseString (SkipWs bs) = Inr (key, r1)"
      "Expect 58 (SkipWs r1) = Inr (u, r2)" "ParseValue r2 = Inr (v, r3)" by blast
    then have "well_typed v" using 3(1) by fastforce
    then show ?thesis
      using 3(2) [OF _ p(2) refl p(3) refl p(4) refl] 3(3) p(1) by (subst object_loop.simps) (simp add: p)
  next
    case False
    then show ?thesis by (subst object_loop.simps) (auto split: sum.splits)
  qed
next
  case (4 bs)
  then show ?case by (subst ParseArray.simps) (auto split: sum.split)
next
  case (5 arr bs)
  show ?case
  proof (cases "ParseValue bs")
    case (Inr p)
    obtain v r where p: "ParseValue bs = Inr (v, r)" using Inr by (cases p) auto
    then have "well_typed v" using 5(1) by simp
    then show ?thesis using 5(2) [OF p refl] 5(3) by (subst array_loop.simps) (simp add: p)
  qed (subst array_loop.simps, simp)
qed



end
