(* ===== verification/SlottedPage.thy ===== *)
theory SlottedPage
  imports ByteBuffer
begin

text \<open>
  \<^verbatim>\<open>include/desentry/storage/slotted_page.h\<close> and \<^verbatim>\<open>src/storage/slotted_page.cpp\<close>: records of
  variable length in one page, on the bytes of the page. The header and the slot directory are read
  and written in place, as the casts of the source do on a little-endian machine.
\<close>

section \<open>The bytes of a page\<close>

definition kPageBytes :: nat where "kPageBytes = 4096"
definition kTombstoneLength :: u16 where "kTombstoneLength = 0xFFFF"

definition u16_at :: "bytes \<Rightarrow> nat \<Rightarrow> u16" where
  "u16_at p off = le_word (take 2 (drop off p))"

definition write_at :: "nat \<Rightarrow> bytes \<Rightarrow> bytes \<Rightarrow> bytes" where
  "write_at off bs p = take off p @ bs @ drop (off + length bs) p"

definition num_slots :: "bytes \<Rightarrow> u16" where
  "num_slots p = u16_at p 0"

definition free_space_offset :: "bytes \<Rightarrow> u16" where
  "free_space_offset p = u16_at p 2"

definition slot_at :: "nat \<Rightarrow> nat" where
  "slot_at i = 4 + i * 4"

definition slot_offset :: "bytes \<Rightarrow> nat \<Rightarrow> u16" where
  "slot_offset p i = u16_at p (slot_at i)"

definition slot_length :: "bytes \<Rightarrow> nat \<Rightarrow> u16" where
  "slot_length p i = u16_at p (slot_at i + 2)"

section \<open>Operations\<close>

definition InitPage :: "bytes \<Rightarrow> bytes" where
  "InitPage p = write_at 2 (put_u16 (of_nat kPageBytes)) (write_at 0 (put_u16 0) p)"

definition FreeSpace :: "bytes \<Rightarrow> nat" where
  "FreeSpace p =
     (let slots_end = 4 + unat (num_slots p) * 4
      in if slots_end > unat (free_space_offset p) then 0 else unat (free_space_offset p) - slots_end)"

definition NumSlots :: "bytes \<Rightarrow> u16" where
  "NumSlots p = num_slots p"

text \<open>Copying the record below the free-space offset and pointing slot \<open>i\<close> at it.\<close>

definition place_record :: "nat \<Rightarrow> bytes \<Rightarrow> bytes \<Rightarrow> bytes" where
  "place_record i data p =
     (let new_offset = free_space_offset p - of_nat (length data);
          p = write_at (unat new_offset) data p;
          p = write_at (slot_at i) (put_u16 new_offset) p;
          p = write_at (slot_at i + 2) (put_u16 (of_nat (length data))) p
      in write_at 2 (put_u16 new_offset) p)"

definition InsertRecord :: "bytes \<Rightarrow> bytes \<Rightarrow> int \<times> bytes" where
  "InsertRecord p data =
     (if FreeSpace p < length data + 4 then (- 1, p)
      else case find (\<lambda>i. slot_length p i = kTombstoneLength) [0..<unat (num_slots p)] of
        Some i \<Rightarrow> (sint (of_nat i :: u16), place_record i data p)
      | None \<Rightarrow>
          let n = num_slots p
          in (sint n, write_at 0 (put_u16 (n + 1)) (place_record (unat n) data p)))"

definition GetRecord :: "bytes \<Rightarrow> int \<Rightarrow> bytes option" where
  "GetRecord p slot_id =
     (if slot_id < 0 \<or> slot_id \<ge> sint (num_slots p) then None
      else
        let i = nat slot_id
        in if slot_length p i = kTombstoneLength then None
           else Some (take (unat (slot_length p i)) (drop (unat (slot_offset p i)) p)))"

definition DeleteRecord :: "bytes \<Rightarrow> int \<Rightarrow> bool \<times> bytes" where
  "DeleteRecord p slot_id =
     (if slot_id < 0 \<or> slot_id \<ge> sint (num_slots p) then (False, p)
      else
        let i = nat slot_id
        in if slot_length p i = kTombstoneLength then (False, p)
           else (True, write_at (slot_at i) (put_u16 0) (write_at (slot_at i + 2) (put_u16 kTombstoneLength) p)))"

section \<open>Reading what was written\<close>

lemma length_write_at: "off + length bs \<le> length p \<Longrightarrow> length (write_at off bs p) = length p"
  by (simp add: write_at_def)

lemma read_write_same:
  "off + length bs \<le> length p \<Longrightarrow> take (length bs) (drop off (write_at off bs p)) = bs"
  by (simp add: write_at_def)

lemma read_write_before:
  assumes "a + n \<le> off" "off \<le> length p"
  shows "take n (drop a (write_at off bs p)) = take n (drop a p)"
proof -
  have "take n (drop a (write_at off bs p)) = take n (drop a (take off p))"
    using assms by (simp add: write_at_def)
  also have "\<dots> = take n (drop a p)" using assms by (simp add: drop_take min_absorb1)
  finally show ?thesis .
qed

lemma read_write_after:
  assumes "off + length bs \<le> a" "off + length bs \<le> length p"
  shows "take n (drop a (write_at off bs p)) = take n (drop a p)"
proof -
  have "drop a (write_at off bs p) = drop (a - (off + length bs)) (drop (off + length bs) p)"
    using assms by (simp add: write_at_def)
  also have "\<dots> = drop a p" using assms by simp
  finally show ?thesis by simp
qed

lemma u16_at_write_same:
  "off + 2 \<le> length p \<Longrightarrow> u16_at (write_at off (put_u16 v) p) off = v"
  using read_write_same [of off "put_u16 v" p] by (simp add: u16_at_def put_u16_def le_word_le_bytes)

lemma u16_at_write_other:
  "a + 2 \<le> off \<or> off + length bs \<le> a \<Longrightarrow> off + length bs \<le> length p \<Longrightarrow>
     u16_at (write_at off bs p) a = u16_at p a"
  using read_write_before [of a 2 off p bs] read_write_after [of off bs a p 2] by (auto simp: u16_at_def)

section \<open>The records of a page\<close>

definition rec_at :: "bytes \<Rightarrow> nat \<Rightarrow> bytes option" where
  "rec_at p i =
     (if slot_length p i = kTombstoneLength then None
      else Some (take (unat (slot_length p i)) (drop (unat (slot_offset p i)) p)))"

definition page_records :: "bytes \<Rightarrow> bytes option list" where
  "page_records p = map (rec_at p) [0..<unat (num_slots p)]"

text \<open>
  A well-formed page: the slot directory ends below the free-space offset, and every live record
  lies between that offset and the end of the page.
\<close>

definition page_wf :: "bytes \<Rightarrow> bool" where
  "page_wf p \<longleftrightarrow>
     length p = 4096 \<and> slot_at (unat (num_slots p)) \<le> unat (free_space_offset p) \<and>
     unat (free_space_offset p) \<le> 4096 \<and>
     (\<forall>i<unat (num_slots p). slot_length p i \<noteq> kTombstoneLength \<longrightarrow>
        unat (free_space_offset p) \<le> unat (slot_offset p i) \<and> unat (slot_offset p i) + unat (slot_length p i) \<le> 4096)"

lemma unat_u16: "m < 65536 \<Longrightarrow> unat (of_nat m :: u16) = m"
  by (simp add: unat_of_nat take_bit_nat_eq_self)

lemma sint_u16: "m < 32768 \<Longrightarrow> sint (of_nat m :: u16) = int m"
  by (simp add: signed_of_nat signed_take_bit_int_eq_self)

lemma page_wf_slots:
  assumes "page_wf p"
  shows "unat (num_slots p) < 1024" "sint (num_slots p) = int (unat (num_slots p))"
proof -
  show n: "unat (num_slots p) < 1024" using assms by (simp add: page_wf_def slot_at_def)
  have "num_slots p = of_nat (unat (num_slots p))" by simp
  then show "sint (num_slots p) = int (unat (num_slots p))" using sint_u16 [of "unat (num_slots p)"] n by simp
qed

lemma GetRecord_records:
  assumes "page_wf p"
  shows "GetRecord p sid = (if 0 \<le> sid \<and> sid < int (length (page_records p)) then page_records p ! nat sid else None)"
proof (cases "0 \<le> sid \<and> sid < int (unat (num_slots p))")
  case True
  then have "nat sid < unat (num_slots p)" by linarith
  then show ?thesis
    using True page_wf_slots(2) [OF assms] by (simp add: GetRecord_def page_records_def rec_at_def Let_def)
next
  case False
  then show ?thesis
    using page_wf_slots(2) [OF assms] by (auto simp: GetRecord_def page_records_def)
qed

lemma place_record_facts:
  assumes wf: "page_wf p" and i: "i \<le> unat (num_slots p)"
    and room: "length data + 4 \<le> FreeSpace p"
  defines "p' \<equiv> place_record i data p" and "no \<equiv> unat (free_space_offset p) - length data"
  shows "length p' = 4096" "num_slots p' = num_slots p" "free_space_offset p' = of_nat no"
    "slot_at (unat (num_slots p) + 1) \<le> no" "no \<le> unat (free_space_offset p)" "no + length data \<le> 4096"
    "rec_at p' i = Some data" "slot_offset p' i = of_nat no" "slot_length p' i = of_nat (length data)"
    "\<And>j. j < unat (num_slots p) \<Longrightarrow> j \<noteq> i \<Longrightarrow>
       rec_at p' j = rec_at p j \<and> slot_offset p' j = slot_offset p j \<and> slot_length p' j = slot_length p j"
proof -
  let ?f = "unat (free_space_offset p)" and ?n = "unat (num_slots p)"
  have len: "length p = 4096" and f: "?f \<le> 4096" using wf by (simp_all add: page_wf_def)
  have fits: "slot_at (?n + 1) + length data \<le> ?f"
    using room by (simp add: FreeSpace_def Let_def slot_at_def split: if_splits)
  then show no: "slot_at (?n + 1) \<le> no" "no \<le> ?f" "no + length data \<le> 4096"
    using f by (simp_all add: no_def)
  have si: "slot_at i + 4 \<le> slot_at (?n + 1)" using i by (simp add: slot_at_def)
  have new: "free_space_offset p - of_nat (length data) = of_nat no"
    using fits by (simp add: no_def of_nat_diff)
  have u: "unat (of_nat no :: u16) = no" using no f by (intro unat_u16) simp
  define p1 where "p1 = write_at no data p"
  define p2 where "p2 = write_at (slot_at i) (put_u16 (of_nat no)) p1"
  define p3 where "p3 = write_at (slot_at i + 2) (put_u16 (of_nat (length data))) p2"
  have p': "p' = write_at 2 (put_u16 (of_nat no)) p3"
    by (simp add: p'_def place_record_def Let_def new u p1_def p2_def p3_def)
  have l1: "length p1 = 4096" using no(3) len by (simp add: p1_def length_write_at)
  have l2: "length p2 = 4096" using l1 si no f by (simp add: p2_def length_write_at)
  have l3: "length p3 = 4096" using l2 si no f by (simp add: p3_def length_write_at)
  show l: "length p' = 4096" using l3 by (simp add: p' length_write_at)
  have dir: "u16_at p' a = (if a = 2 then of_nat no else if a = slot_at i then of_nat no
      else if a = slot_at i + 2 then of_nat (length data) else u16_at p a)" if "even a" "a + 2 \<le> no" for a
  proof -
    have "slot_at i = 4 + i * 4" by (simp add: slot_at_def)
    then have ev: "even (slot_at i)" by simp
    have apart: "b + 2 \<le> a \<or> a + 2 \<le> b" if "b \<noteq> a" "even b" for b using that \<open>even a\<close> by presburger
    have "u16_at p1 a = u16_at p a" using that(2) no len by (simp add: p1_def u16_at_write_other)
    moreover have "u16_at p2 a = (if a = slot_at i then of_nat no else u16_at p1 a)"
      using apart [of "slot_at i"] ev l1 si no f by (auto simp: p2_def u16_at_write_same intro!: u16_at_write_other)
    moreover have "u16_at p3 a = (if a = slot_at i + 2 then of_nat (length data) else u16_at p2 a)"
      using apart [of "slot_at i + 2"] ev l2 si no f by (auto simp: p3_def u16_at_write_same intro!: u16_at_write_other)
    moreover have "u16_at p' a = (if a = 2 then of_nat no else u16_at p3 a)"
      using apart [of 2] l3 by (auto simp: p' u16_at_write_same intro!: u16_at_write_other)
    ultimately show ?thesis by (auto simp: slot_at_def)
  qed
  have n0: "0 + 2 \<le> no" "2 + 2 \<le> no" using no(1) by (simp_all add: slot_at_def)
  show "num_slots p' = num_slots p" using dir [of 0] n0 by (simp add: num_slots_def slot_at_def)
  show "free_space_offset p' = of_nat no" using dir [of 2] n0 by (simp add: free_space_offset_def)
  show so: "slot_offset p' i = of_nat no" "slot_length p' i = of_nat (length data)"
    using dir [of "slot_at i"] dir [of "slot_at i + 2"] si no(1) by (simp_all add: slot_offset_def slot_length_def slot_at_def)
  have heap: "take m (drop a p') = take m (drop a p1)" if "no \<le> a" for a m
    using that si no l1 l2 l3 unfolding p' p3_def p2_def
    by (simp add: read_write_after length_write_at slot_at_def)
  have "take (length data) (drop no p') = data"
    using heap [of no "length data"] no(3) len by (simp add: p1_def read_write_same)
  moreover have ld: "length data < 65535" using fits f by (simp add: slot_at_def)
  ultimately show "rec_at p' i = Some data"
    using so u unat_u16 [of "length data"] by (auto simp: rec_at_def kTombstoneLength_def)
  fix j assume j: "j < ?n" "j \<noteq> i"
  have sj: "slot_at j + 4 \<le> no" using j(1) no(1) by (simp add: slot_at_def)
  have e: "slot_offset p' j = slot_offset p j" "slot_length p' j = slot_length p j"
    using dir [of "slot_at j"] dir [of "slot_at j + 2"] sj j(2)
    by (auto simp: slot_offset_def slot_length_def slot_at_def)
  have "take m (drop a p') = take m (drop a p)" if "?f \<le> a" for a m
    using heap [of a m] that no fits len by (simp add: p1_def read_write_after no_def)
  then have "rec_at p' j = rec_at p j"
    using e wf j(1) by (simp add: rec_at_def page_wf_def)
  with e show "rec_at p' j = rec_at p j \<and> slot_offset p' j = slot_offset p j \<and> slot_length p' j = slot_length p j" by simp
qed

text \<open>The slot a record goes to: the first free one, or a new one at the end.\<close>

definition first_free :: "bytes option list \<Rightarrow> nat" where
  "first_free rs = length (takeWhile (\<lambda>r. r \<noteq> None) rs)"

lemma find_first: "(\<And>j. j < k \<Longrightarrow> \<not> P j) \<Longrightarrow> k < n \<Longrightarrow> P k \<Longrightarrow> find P [0..<n] = Some k"
  by (auto simp: find_Some_iff)

lemma page_wf_placed:
  fixes data :: bytes
  assumes wf: "page_wf p" and k: "k \<le> unat (num_slots p)" and room: "length data + 4 \<le> FreeSpace p"
    and q: "length q = 4096" "unat (num_slots q) = m" "m = max (unat (num_slots p)) (k + 1)"
      "free_space_offset q = of_nat (unat (free_space_offset p) - length data)"
      "slot_offset q k = of_nat (unat (free_space_offset p) - length data)" "slot_length q k = of_nat (length data)"
      "\<And>j. j < unat (num_slots p) \<Longrightarrow> j \<noteq> k \<Longrightarrow> slot_offset q j = slot_offset p j \<and> slot_length q j = slot_length p j"
  shows "page_wf q"
proof -
  let ?no = "unat (free_space_offset p) - length data"
  note pf = place_record_facts [OF wf k room]
  have no: "unat (of_nat ?no :: u16) = ?no" using pf(6) by (intro unat_u16) linarith
  have ld: "unat (of_nat (length data) :: u16) = length data" using pf(6) by (intro unat_u16) linarith
  have fo: "unat (free_space_offset q) = ?no" by (simp only: q(4) no)
  show ?thesis
    unfolding page_wf_def
  proof (intro conjI allI impI)
    show "slot_at (unat (num_slots q)) \<le> unat (free_space_offset q)"
    proof -
      have "m \<le> unat (num_slots p) + 1" using q(3) k by linarith
      then show ?thesis using pf(4) unfolding fo q(2) by (simp add: slot_at_def)
    qed
    show "unat (free_space_offset q) \<le> 4096" using pf(6) unfolding fo by linarith
    fix i
    assume i: "i < unat (num_slots q)" and live: "slot_length q i \<noteq> kTombstoneLength"
    have "?no \<le> unat (slot_offset q i) \<and> unat (slot_offset q i) + unat (slot_length q i) \<le> 4096"
    proof (cases "i = k")
      case True
      then show ?thesis using q(5,6) no ld pf(6) by simp
    next
      case False
      then have "i < unat (num_slots p)" using i q(2,3) k by linarith
      then have "unat (free_space_offset p) \<le> unat (slot_offset q i)" "unat (slot_offset q i) + unat (slot_length q i) \<le> 4096"
        using wf q(7) [of i] False live by (simp_all add: page_wf_def)
      then show ?thesis using pf(5) by linarith
    qed
    then show "unat (free_space_offset q) \<le> unat (slot_offset q i)" "unat (slot_offset q i) + unat (slot_length q i) \<le> 4096"
      unfolding fo by simp_all
  qed (rule q(1))
qed

lemma InsertRecord_wf:
  assumes wf: "page_wf p" and room: "length data + 4 \<le> FreeSpace p" and ins: "InsertRecord p data = (sid, p')"
  shows "sid = int (first_free (page_records p)) \<and> page_wf p' \<and>
    page_records p' = (if first_free (page_records p) < length (page_records p)
       then (page_records p)[first_free (page_records p) := Some data] else page_records p @ [Some data])"
proof -
  let ?n = "unat (num_slots p)" and ?k = "first_free (page_records p)"
  let ?no = "unat (free_space_offset p) - length data"
  have n: "?n < 1024" by (rule page_wf_slots(1) [OF wf])
  have free: "slot_length p i = kTombstoneLength \<longleftrightarrow> rec_at p i = None" for i by (simp add: rec_at_def)
  have k: "?k \<le> ?n" using length_takeWhile_le [of _ "page_records p"] by (simp add: first_free_def page_records_def)
  have live: "rec_at p j \<noteq> None" if "j < ?k" for j
    using that k nth_mem [of j "takeWhile (\<lambda>r. r \<noteq> None) (page_records p)"]
    by (auto simp: first_free_def takeWhile_nth page_records_def dest!: set_takeWhileD)
  have dead: "rec_at p ?k = None" if "?k < ?n"
    using that nth_length_takeWhile [of "\<lambda>r. r \<noteq> None" "page_records p"] by (simp add: first_free_def page_records_def)
  show ?thesis
  proof (cases "?k < ?n")
    case True
    note pf = place_record_facts [OF wf less_imp_le [OF True] room]
    have "find (\<lambda>i. slot_length p i = kTombstoneLength) [0..<?n] = Some ?k"
      using dead [OF True] True live by (intro find_first) (simp_all add: free)
    then have res: "sid = int ?k" "p' = place_record ?k data p"
      using ins room True n by (simp_all add: InsertRecord_def sint_u16)
    moreover have "page_wf p'"
      using pf(8,9,10) True unfolding res(2) by (intro page_wf_placed [OF wf less_imp_le [OF True] room pf(1) refl _ pf(3)])
        (simp_all add: pf(2))
    moreover have "page_records p' = (page_records p)[?k := Some data]"
      using pf True res(2) by (intro nth_equalityI) (auto simp: page_records_def nth_list_update)
    ultimately show ?thesis using True by (simp add: page_records_def)
  next
    case False
    with k have kn: "?k = ?n" by simp
    note pf = place_record_facts [OF wf order_refl room]
    have "find (\<lambda>i. slot_length p i = kTombstoneLength) [0..<?n] = None"
      using live kn by (auto simp: find_None_iff free)
    then have res: "sid = int ?n" "p' = write_at 0 (put_u16 (num_slots p + 1)) (place_record ?n data p)"
      using ins room page_wf_slots(2) [OF wf] by (simp_all add: InsertRecord_def Let_def)
    have n1: "num_slots p + 1 = of_nat (?n + 1)" by simp
    have hdr: "u16_at p' a = u16_at (place_record ?n data p) a" if "2 \<le> a" for a
      using that pf(1) by (simp add: res(2) u16_at_write_other)
    have ns: "num_slots p' = of_nat (?n + 1)"
      using pf(1) u16_at_write_same [of 0] by (simp add: num_slots_def res(2))
    have heap: "2 \<le> a \<Longrightarrow> take l (drop a p') = take l (drop a (place_record ?n data p))" for a l
      using pf(1) by (simp add: res(2) read_write_after)
    have same: "slot_offset p' j = slot_offset (place_record ?n data p) j"
      "slot_length p' j = slot_length (place_record ?n data p) j" for j
      by (simp_all add: slot_offset_def slot_length_def hdr slot_at_def)
    have lp: "length p' = 4096" using pf(1) by (simp add: res(2) length_write_at)
    have fo: "free_space_offset p' = of_nat ?no" using pf(3) hdr by (simp add: free_space_offset_def)
    have wfp: "page_wf p'"
      using pf(8-10) ns n unat_u16 [of "?n + 1"] fo same
      by (intro page_wf_placed [OF wf order_refl room lp refl]) simp_all
    have rec: "rec_at p' j = rec_at (place_record ?n data p) j" if "j < ?n + 1" for j
    proof -
      have "2 \<le> unat (slot_offset p' j)" if live: "slot_length p' j \<noteq> kTombstoneLength"
      proof -
        have "j < unat (num_slots p')" using \<open>j < ?n + 1\<close> ns n unat_u16 [of "?n + 1"] by simp
        then have "slot_at (unat (num_slots p')) \<le> unat (slot_offset p' j)"
          using wfp live unfolding page_wf_def by (meson le_trans)
        then show ?thesis by (simp add: slot_at_def)
      qed
      then show ?thesis using heap same by (auto simp: rec_at_def)
    qed
    have "unat (num_slots p') = ?n + 1" using ns n unat_u16 [of "?n + 1"] by simp
    then have "page_records p' = page_records p @ [Some data]"
      using rec pf(7,10) by (simp add: page_records_def)
    then show ?thesis using res(1) kn wfp by (simp add: page_records_def)
  qed
qed

lemma DeleteRecord_wf:
  assumes wf: "page_wf p" and sid: "0 \<le> sid" "sid < int (length (page_records p))"
    and live: "page_records p ! nat sid \<noteq> None" and del: "DeleteRecord p sid = (b, p')"
  shows "b \<and> page_wf p' \<and> page_records p' = (page_records p)[nat sid := None]"
proof -
  let ?n = "unat (num_slots p)"
  define i where "i = nat sid"
  have i: "i < ?n" "\<not> sid < 0" "\<not> sid \<ge> sint (num_slots p)" using sid page_wf_slots(2) [OF wf]
    by (auto simp: i_def page_records_def nat_less_iff)
  have nt: "slot_length p i \<noteq> kTombstoneLength" using live i(1) by (simp add: page_records_def rec_at_def i_def split: if_splits)
  define q where "q = write_at (slot_at i + 2) (put_u16 kTombstoneLength) p"
  have res: "b" "p' = write_at (slot_at i) (put_u16 0) q"
    using del nt i(2,3) by (simp_all add: DeleteRecord_def Let_def i_def [symmetric] q_def)
  have len: "length p = 4096" and f: "slot_at ?n \<le> unat (free_space_offset p)" "unat (free_space_offset p) \<le> 4096"
    using wf by (simp_all add: page_wf_def)
  have si: "slot_at i + 4 \<le> slot_at ?n" using i(1) by (simp add: slot_at_def)
  have lq: "length q = 4096" using len si f by (simp add: q_def length_write_at)
  then have lp: "length p' = 4096" using si f by (simp add: res(2) length_write_at)
  have dir: "u16_at p' a = (if a = slot_at i then 0 else if a = slot_at i + 2 then kTombstoneLength else u16_at p a)" if "even a" for a
  proof -
    have ev: "even (slot_at i)" by (simp add: slot_at_def)
    have apart: "c + 2 \<le> a \<or> a + 2 \<le> c" if "c \<noteq> a" "even c" for c using that \<open>even a\<close> by presburger
    have "u16_at q a = (if a = slot_at i + 2 then kTombstoneLength else u16_at p a)"
      using apart [of "slot_at i + 2"] ev len si f by (auto simp: q_def u16_at_write_same intro!: u16_at_write_other)
    moreover have "u16_at p' a = (if a = slot_at i then 0 else u16_at q a)"
      using apart [of "slot_at i"] ev lq si f by (auto simp: res(2) u16_at_write_same intro!: u16_at_write_other)
    ultimately show ?thesis by simp
  qed
  have hd: "num_slots p' = num_slots p" "free_space_offset p' = free_space_offset p"
    using dir [of 0] dir [of 2] by (simp_all add: num_slots_def free_space_offset_def slot_at_def)
  have sl: "slot_length p' j = (if j = i then kTombstoneLength else slot_length p j)"
    "j \<noteq> i \<Longrightarrow> slot_offset p' j = slot_offset p j" for j
    using dir [of "slot_at j"] dir [of "slot_at j + 2"] by (auto simp: slot_length_def slot_offset_def slot_at_def; presburger)+
  have heap: "take m (drop a p') = take m (drop a p)" if "unat (free_space_offset p) \<le> a" for a m
    using that si f lq len by (simp add: res(2) q_def read_write_after length_write_at)
  have "page_wf p'" using wf lp hd sl by (auto simp: page_wf_def)
  moreover have "rec_at p' j = (if j = i then None else rec_at p j)" if "j < ?n" for j
    using sl [of j] heap wf that by (auto simp: rec_at_def page_wf_def)
  then have "page_records p' = (page_records p)[i := None]"
    using hd(1) i(1) by (intro nth_equalityI) (auto simp: page_records_def nth_list_update)
  ultimately show ?thesis using res(1) by (simp add: i_def)
qed

lemma InitPage_wf:
  assumes "length p = 4096"
  shows "page_wf (InitPage p)" "page_records (InitPage p) = []"
proof -
  let ?q = "write_at 0 (put_u16 0) p"
  have lq: "length ?q = 4096" using assms by (simp add: length_write_at)
  then have "num_slots (InitPage p) = 0" "free_space_offset (InitPage p) = 4096" "length (InitPage p) = 4096"
    using assms u16_at_write_same [of 2 ?q] u16_at_write_same [of 0 p] u16_at_write_other [of 0 2 _ ?q]
    by (simp_all add: InitPage_def num_slots_def free_space_offset_def kPageBytes_def length_write_at)
  then show "page_wf (InitPage p)" "page_records (InitPage p) = []"
    by (simp_all add: page_wf_def page_records_def slot_at_def)
qed

section \<open>Properties\<close>

text \<open>
  C18: a page refines a list of optional records. Initialising gives the empty list; an insertion
  that fits puts the record into the first free slot, or a new one, and returns its number, and one
  that does not fit returns \<open>-1\<close> and changes nothing; a deletion empties exactly its slot; reading
  returns the record of a slot. The layout stays well formed throughout: no record is overwritten.
\<close>

theorem slotted_page_refines_records:
  assumes "page_wf p"
  shows "(\<forall>sid. GetRecord p sid = (if 0 \<le> sid \<and> sid < int (length (page_records p)) then page_records p ! nat sid else None)) \<and>
    (\<forall>data sid p'. InsertRecord p data = (sid, p') \<longrightarrow> page_wf p' \<and>
       (if FreeSpace p < length data + 4 then sid = - 1 \<and> p' = p
        else sid = int (first_free (page_records p)) \<and>
          page_records p' = (if first_free (page_records p) < length (page_records p)
            then (page_records p)[first_free (page_records p) := Some data] else page_records p @ [Some data]))) \<and>
    (\<forall>sid b p'. DeleteRecord p sid = (b, p') \<longrightarrow> page_wf p' \<and> (b \<longleftrightarrow> GetRecord p sid \<noteq> None) \<and>
       page_records p' = (if b then (page_records p)[nat sid := None] else page_records p)) \<and>
    page_wf (InitPage p) \<and> page_records (InitPage p) = []"
proof (intro conjI allI impI)
  show "GetRecord p sid = (if 0 \<le> sid \<and> sid < int (length (page_records p)) then page_records p ! nat sid else None)" for sid
    by (rule GetRecord_records [OF assms])
  fix data sid p'
  assume ins: "InsertRecord p data = (sid, p')"
  show "page_wf p'"
    using InsertRecord_wf [OF assms _ ins] ins assms by (cases "FreeSpace p < length data + 4") (auto simp: InsertRecord_def)
  show "if FreeSpace p < length data + 4 then sid = - 1 \<and> p' = p
        else sid = int (first_free (page_records p)) \<and>
          page_records p' = (if first_free (page_records p) < length (page_records p)
            then (page_records p)[first_free (page_records p) := Some data] else page_records p @ [Some data])"
    using InsertRecord_wf [OF assms _ ins] ins by (cases "FreeSpace p < length data + 4") (auto simp: InsertRecord_def)
next
  fix sid b p'
  assume del: "DeleteRecord p sid = (b, p')"
  have "page_wf p' \<and> (b \<longleftrightarrow> GetRecord p sid \<noteq> None) \<and>
       page_records p' = (if b then (page_records p)[nat sid := None] else page_records p)"
  proof (cases "GetRecord p sid")
    case None
    then have "\<not> b \<and> p' = p" using del by (auto simp: GetRecord_def DeleteRecord_def Let_def split: if_splits)
    then show ?thesis using None assms by simp
  next
    case (Some r)
    then have "0 \<le> sid" "sid < int (length (page_records p))" "page_records p ! nat sid \<noteq> None"
      using GetRecord_records [OF assms, of sid] by (auto split: if_splits)
    from DeleteRecord_wf [OF assms this del] Some show ?thesis by simp
  qed
  then show "page_wf p'" "b \<longleftrightarrow> GetRecord p sid \<noteq> None"
    "page_records p' = (if b then (page_records p)[nat sid := None] else page_records p)" by simp_all
next
  have "length p = 4096" using assms by (simp add: page_wf_def)
  then show "page_wf (InitPage p)" "page_records (InitPage p) = []" by (rule InitPage_wf)+
qed

theorem slotted_page_refines_records_witness:
  "\<exists>p. page_wf p \<and> page_records p = [] \<and> page_records (snd (InsertRecord p [1, 2, 3])) = [Some [1, 2, 3]] \<and>
     GetRecord p 0 = None"
proof -
  let ?p = "InitPage (replicate 4096 0)"
  have wf: "page_wf ?p" "page_records ?p = []" by (simp_all add: InitPage_wf)
  have n0: "num_slots ?p = 0" using wf(2) by (simp add: page_records_def unat_eq_0)
  have "free_space_offset ?p = 4096"
    using u16_at_write_same [of 2 "write_at 0 (put_u16 0) (replicate 4096 0)"]
    by (simp add: InitPage_def free_space_offset_def kPageBytes_def length_write_at)
  then have room: "\<not> FreeSpace ?p < length [1, 2, 3 :: byte] + 4" using n0 by (simp add: FreeSpace_def)
  obtain sid p' where ins: "InsertRecord ?p [1, 2, 3] = (sid, p')" by (metis surj_pair)
  from slotted_page_refines_records [OF wf(1)] ins room wf(2)
  have "page_records p' = [Some [1, 2, 3]]" "GetRecord ?p 0 = None" by (auto simp: first_free_def)
  then show ?thesis using wf ins by (intro exI [of _ ?p]) simp
qed

end
