(* ===== verification/Double.thy ===== *)
theory Double
  imports Prelude "HOL-Library.Log_Nat"
begin

text \<open>
  Arithmetic on \<^verbatim>\<open>double\<close> as the fitness scores (\<^verbatim>\<open>net/peer.cpp\<close>) and the token buckets
  (\<^verbatim>\<open>net/admission.cpp\<close>) use it: a double is the rational number it denotes, and every operation rounds
  its exact result to nearest, ties to even, with 53 significant bits and the exponent range of
  subnormal numbers. Infinities and NaN do not arise there: the divisors are positive and the
  magnitudes stay far below the largest double.
\<close>

type_synonym double = rat

section \<open>Rounding to nearest\<close>

text \<open>The position of the leading bit: \<open>2 powi flog2 x \<le> x < 2 powi (flog2 x + 1)\<close> for positive \<open>x\<close>.\<close>

definition flog2 :: "rat \<Rightarrow> int" where
  "flog2 x =
     (let (p, q) = quotient_of x;
          k = int (floorlog 2 (nat p)) - int (floorlog 2 (nat q))
      in if 2 powi k \<le> x then k else k - 1)"

definition ulp_exp :: "rat \<Rightarrow> int" where
  "ulp_exp x = max (- 1074) (flog2 \<bar>x\<bar> - 52)"

definition ulp :: "rat \<Rightarrow> rat" where
  "ulp x = 2 powi ulp_exp x"

definition round_even :: "rat \<Rightarrow> int" where
  "round_even x =
     (let f = \<lfloor>x\<rfloor>; d = x - of_int f
      in if d < 1 / 2 then f else if 1 / 2 < d then f + 1 else if even f then f else f + 1)"

definition rnd :: "rat \<Rightarrow> double" where
  "rnd x = (if x = 0 then 0 else of_int (round_even (x / ulp x)) * ulp x)"

text \<open>The operations, and the conversion of an integer.\<close>

definition dadd :: "double \<Rightarrow> double \<Rightarrow> double" where "dadd x y = rnd (x + y)"
definition dsub :: "double \<Rightarrow> double \<Rightarrow> double" where "dsub x y = rnd (x - y)"
definition dmul :: "double \<Rightarrow> double \<Rightarrow> double" where "dmul x y = rnd (x * y)"
definition ddiv :: "double \<Rightarrow> double \<Rightarrow> double" where "ddiv x y = rnd (x / y)"
definition double_of_int :: "int \<Rightarrow> double" where "double_of_int i = rnd (of_int i)"

section \<open>Facts about rounding\<close>

lemma floorlog_nat_bounds:
  assumes "0 < (n :: nat)"
  shows "2 powi (int (floorlog 2 n) - 1) \<le> (of_nat n :: rat)" "(of_nat n :: rat) < 2 powi int (floorlog 2 n)"
proof -
  obtain k where k: "floorlog 2 n = Suc k" using assms by (cases "floorlog 2 n") (auto simp: floorlog_eq_zero_iff)
  have b: "2 ^ k \<le> n \<and> n < 2 ^ Suc k" using floorlog_bounds [of n 2] assms k by auto
  have "of_nat (2 ^ k) \<le> (of_nat n :: rat)" "(of_nat n :: rat) < of_nat (2 ^ Suc k)"
    using b by (simp_all only: of_nat_le_iff of_nat_less_iff)
  then show "2 powi (int (floorlog 2 n) - 1) \<le> (of_nat n :: rat)" "(of_nat n :: rat) < 2 powi int (floorlog 2 n)"
    by (simp_all add: k power_int_add)
qed

lemma flog2_bounds:
  assumes "0 < x"
  shows "2 powi flog2 x \<le> x" "x < 2 powi (flog2 x + 1)"
proof -
  obtain p q where pq: "quotient_of x = (p, q)" by (metis surj_pair)
  then have q: "0 < q" and x: "x = of_int p / of_int q" by (auto simp: quotient_of_denom_pos quotient_of_div)
  have p: "0 < p" using assms x q by (simp add: zero_less_divide_iff)
  let ?a = "int (floorlog 2 (nat p))" and ?b = "int (floorlog 2 (nat q))"
  have bp: "2 powi (?a - 1) \<le> (of_int p :: rat)" "(of_int p :: rat) < 2 powi ?a"
    using floorlog_nat_bounds [of "nat p"] p by simp_all
  have bq: "2 powi (?b - 1) \<le> (of_int q :: rat)" "(of_int q :: rat) < 2 powi ?b"
    using floorlog_nat_bounds [of "nat q"] q by simp_all
  have "x < 2 powi ?a / 2 powi (?b - 1)"
    unfolding x using bp bq p q by (intro frac_less) simp_all
  also have "\<dots> = 2 powi (?a - ?b + 1)" by (simp add: power_int_diff power_int_add)
  finally have up: "x < 2 powi (?a - ?b + 1)" .
  have "2 powi (?a - 1) / 2 powi ?b \<le> x"
    unfolding x using bp bq p q by (intro frac_le) (simp_all add: less_imp_le)
  moreover have "2 powi (?a - 1) / 2 powi ?b = (2 :: rat) powi (?a - ?b - 1)" by (simp add: power_int_diff)
  ultimately have lo: "2 powi (?a - ?b - 1) \<le> x" by simp
  show "2 powi flog2 x \<le> x" "x < 2 powi (flog2 x + 1)"
    using up lo by (simp_all add: flog2_def pq Let_def not_le)
qed

lemma flog2_unique:
  assumes "2 powi k \<le> x" "x < 2 powi (k + 1)"
  shows "flog2 x = k"
proof -
  have x: "0 < x" using assms(1) by (rule less_le_trans [rotated]) simp
  have "(2 :: rat) powi k < 2 powi (flog2 x + 1)" "(2 :: rat) powi flog2 x < 2 powi (k + 1)"
    using assms flog2_bounds [OF x] by linarith+
  moreover have "(2 :: rat) powi (i + 1) \<le> 2 powi j" if "i < j" for i j :: int
    using that by (intro power_int_increasing) simp_all
  ultimately show ?thesis by (metis linorder_neqE_linordered_idom not_less)
qed

lemma ulp_pos [simp]: "0 < ulp x" "ulp x \<noteq> 0"
  by (simp_all add: ulp_def)

lemma round_even_int [simp]: "round_even (of_int m) = m"
  by (simp add: round_even_def)

lemma round_even_near: "\<bar>of_int (round_even x) - x\<bar> \<le> 1 / 2"
proof -
  have "of_int \<lfloor>x\<rfloor> \<le> x" "x < of_int \<lfloor>x\<rfloor> + 1" by linarith+
  then show ?thesis unfolding round_even_def Let_def abs_le_iff of_int_add of_int_1
    by (simp only: split: if_split) linarith
qed

lemma round_even_mono:
  assumes "x \<le> y"
  shows "round_even x \<le> round_even y"
proof (cases "\<lfloor>x\<rfloor> = \<lfloor>y\<rfloor>")
  case True
  then show ?thesis using assms by (auto simp: round_even_def Let_def)
next
  case False
  then have "\<lfloor>x\<rfloor> + 1 \<le> \<lfloor>y\<rfloor>" using floor_mono [OF assms] by linarith
  moreover have "round_even x \<le> \<lfloor>x\<rfloor> + 1" "\<lfloor>y\<rfloor> \<le> round_even y" by (auto simp: round_even_def Let_def)
  ultimately show ?thesis by linarith
qed

lemma rnd_zero [simp]: "rnd 0 = 0"
  by (simp add: rnd_def)

lemma rnd_le_multiple:
  assumes "x \<le> of_int m * ulp x" "x \<noteq> 0"
  shows "rnd x \<le> of_int m * ulp x"
proof -
  have "x / ulp x \<le> of_int m" using assms(1) by (simp add: pos_divide_le_eq)
  from round_even_mono [OF this] show ?thesis using assms(2) by (simp add: rnd_def)
qed

lemma rnd_ge_multiple:
  assumes "of_int m * ulp x \<le> x" "x \<noteq> 0"
  shows "of_int m * ulp x \<le> rnd x"
proof -
  have "of_int m \<le> x / ulp x" using assms(1) by (simp add: pos_le_divide_eq)
  from round_even_mono [OF this] show ?thesis using assms(2) by (simp add: rnd_def)
qed

lemma rnd_nonneg: "0 \<le> x \<Longrightarrow> 0 \<le> rnd x"
  using rnd_ge_multiple [of 0 x] by (cases "x = 0") simp_all

lemma powi_multiple:
  assumes "j \<le> (k :: int)"
  shows "(2 :: rat) powi k = of_int (2 ^ nat (k - j)) * 2 powi j"
proof -
  have "(2 :: rat) powi (int n + j) = of_int (2 ^ n) * 2 powi j" for n
    by (subst power_int_add) (simp_all add: power_int_of_nat)
  from this [of "nat (k - j)"] show ?thesis using assms by simp
qed

text \<open>A number with at most 53 significant bits is a double: it is its own rounding.\<close>

lemma rnd_exact:
  assumes "x = of_int m * 2 powi k" "0 \<le> m" "m < 2 ^ 53" "- 1074 \<le> k"
  shows "rnd x = x"
proof (cases "m = 0")
  case False
  have x: "0 < x" using assms False by simp
  have "x < 2 ^ 53 * 2 powi k"
  proof -
    have "(of_int m :: rat) < of_int (2 ^ 53)" using assms(3) by (simp only: of_int_less_iff)
    then have "of_int m * 2 powi k < (of_int (2 ^ 53) :: rat) * 2 powi k" by (intro mult_strict_right_mono) simp_all
    then show ?thesis by (simp add: assms(1))
  qed
  also have "\<dots> = 2 powi (53 + k)" by (subst power_int_add) simp_all
  finally have "(2 :: rat) powi flog2 x < 2 powi (53 + k)" using flog2_bounds(1) [OF x] by linarith
  then have "flog2 x < 53 + k" using power_int_increasing [of "53 + k" "flog2 x" "2 :: rat"] by linarith
  then have "ulp_exp x \<le> k" using assms(4) x by (simp add: ulp_exp_def)
  from powi_multiple [OF this] obtain n :: int where n: "2 powi k = of_int n * ulp x" unfolding ulp_def by blast
  have mn: "x = of_int (m * n) * ulp x" using trans [OF assms(1) arg_cong [OF n, of "(*) (of_int m)"]] by (simp only: of_int_mult mult.assoc)
  then have "x / ulp x = of_int (m * n)" by (metis nonzero_mult_div_cancel_right ulp_pos(2))
  then have "rnd x = of_int (m * n) * ulp x" using x by (simp only: rnd_def round_even_int) simp
  then show ?thesis by (rule trans) (rule mn [symmetric])
qed (use assms in simp)

lemma ulp_mono:
  assumes "0 < x" "x \<le> y"
  shows "flog2 x \<le> flog2 y"
proof (rule ccontr)
  assume "\<not> flog2 x \<le> flog2 y"
  then have "(2 :: rat) powi (flog2 y + 1) \<le> 2 powi flog2 x" by (intro power_int_increasing) simp_all
  then show False using flog2_bounds(1) [of x] flog2_bounds(2) [of y] assms by linarith
qed

lemma rnd_mono:
  assumes "0 \<le> x" "x \<le> y"
  shows "rnd x \<le> rnd y"
proof (cases "x = 0")
  case True
  then show ?thesis using rnd_nonneg [of y] assms by simp
next
  case False
  then have x: "0 < x" and y: "0 < y" using assms by simp_all
  show ?thesis
  proof (cases "ulp x = ulp y")
    case True
    have "round_even (x / ulp y) \<le> round_even (y / ulp y)"
      by (intro round_even_mono divide_right_mono assms) (simp add: less_imp_le)
    then show ?thesis using x y True by (simp add: rnd_def)
  next
    case False
    define b where "b = (2 :: rat) powi flog2 y"
    have "ulp_exp x \<noteq> ulp_exp y" using False by (auto simp: ulp_def)
    then have "ulp_exp x < ulp_exp y" using ulp_mono [OF x assms(2)] x y
      unfolding ulp_exp_def by linarith
    then have e: "flog2 x < flog2 y" "ulp_exp x \<le> flog2 y" "ulp_exp y \<le> flog2 y"
      using x y by (auto simp: ulp_exp_def max_def split: if_splits)
    then have "(2 :: rat) powi (flog2 x + 1) \<le> b" unfolding b_def by (intro power_int_increasing) simp_all
    then have xb: "x \<le> b" using flog2_bounds(2) [OF x] by linarith
    have by': "b \<le> y" using flog2_bounds(1) [OF y] by (simp add: b_def)
    obtain m :: int where "b = of_int m * ulp x"
      using powi_multiple [OF e(2)] unfolding ulp_def b_def by blast
    then have "rnd x \<le> b" using rnd_le_multiple [of x m] xb x by simp
    moreover obtain n :: int where "b = of_int n * ulp y"
      using powi_multiple [OF e(3)] unfolding ulp_def b_def by blast
    then have "b \<le> rnd y" using rnd_ge_multiple [of n y] by' y by simp
    ultimately show ?thesis by linarith
  qed
qed

text \<open>In the normal range the relative error is at most one half unit in the last of 53 bits.\<close>

lemma rnd_error:
  assumes "2 powi (- 1022) \<le> x"
  shows "\<bar>rnd x - x\<bar> \<le> x / 2 ^ 53"
proof -
  have x: "0 < x" using assms by (rule less_le_trans [rotated]) simp
  have "- 1022 \<le> flog2 x"
  proof (rule ccontr)
    assume "\<not> - 1022 \<le> flog2 x"
    then have "(2 :: rat) powi (flog2 x + 1) \<le> 2 powi (- 1022)" by (intro power_int_increasing) simp_all
    then show False using flog2_bounds(2) [OF x] assms by linarith
  qed
  then have u: "ulp x = 2 powi (flog2 x - 52)" using x by (simp add: ulp_def ulp_exp_def)
  then have "ulp x * 2 ^ 52 = 2 powi flog2 x" by (simp add: power_int_diff)
  then have ux: "ulp x \<le> x / 2 ^ 52" using flog2_bounds(1) [OF x] by (simp add: field_simps)
  have "rnd x - x = (of_int (round_even (x / ulp x)) - x / ulp x) * ulp x"
    using x by (simp add: rnd_def left_diff_distrib)
  then have "\<bar>rnd x - x\<bar> = \<bar>of_int (round_even (x / ulp x)) - x / ulp x\<bar> * ulp x"
    by (simp add: abs_mult less_imp_le)
  also have "\<dots> \<le> 1 / 2 * ulp x" by (intro mult_right_mono round_even_near) (simp add: less_imp_le)
  finally show ?thesis using ux by simp
qed

text \<open>Evaluating a rounding: the exponent and the nearest significand determine it.\<close>

lemma round_even_eqI:
  assumes "\<bar>x - of_int m\<bar> < 1 / 2 \<or> \<bar>x - of_int m\<bar> = 1 / 2 \<and> even m"
  shows "round_even x = m"
  using assms
proof
  assume "\<bar>x - of_int m\<bar> < 1 / 2"
  then have "\<bar>of_int (round_even x) - (of_int m :: rat)\<bar> < 1" using round_even_near [of x] by linarith
  then show ?thesis by linarith
next
  assume h: "\<bar>x - of_int m\<bar> = 1 / 2 \<and> even m"
  show ?thesis
  proof (cases "of_int m \<le> x")
    case True
    then have "x = of_int m + 1 / 2" using h by linarith
    then have "\<lfloor>x\<rfloor> = m" "x - of_int m = 1 / 2" by (simp_all add: floor_unique)
    then show ?thesis using h by (simp add: round_even_def)
  next
    case False
    then have "x = of_int (m - 1) + 1 / 2" using h by (auto simp: abs_if field_simps split: if_splits)
    then have "\<lfloor>x\<rfloor> = m - 1" "x - of_int (m - 1) = 1 / 2" by (simp_all add: floor_unique)
    then show ?thesis using h by (simp add: round_even_def)
  qed
qed

lemma rnd_eval:
  assumes "2 powi e \<le> x" "x < 2 powi (e + 1)" "- 1022 \<le> e"
    and m: "\<bar>x * 2 powi (52 - e) - of_int m\<bar> < 1 / 2 \<or> \<bar>x * 2 powi (52 - e) - of_int m\<bar> = 1 / 2 \<and> even m"
  shows "rnd x = of_int m * 2 powi (e - 52)"
proof -
  have x: "0 < x" using assms(1) by (rule less_le_trans [rotated]) simp
  have u: "ulp x = 2 powi (e - 52)" using flog2_unique [OF assms(1,2)] x assms(3) by (simp add: ulp_def ulp_exp_def)
  have "x / ulp x = x * 2 powi (52 - e)" unfolding u by (simp add: power_int_diff)
  then have "round_even (x / ulp x) = m" using m by (intro round_even_eqI) simp
  then show ?thesis using x u by (simp add: rnd_def)
qed

lemma dmul_mono: "0 \<le> c \<Longrightarrow> 0 \<le> x \<Longrightarrow> x \<le> y \<Longrightarrow> dmul c x \<le> dmul c y"
  unfolding dmul_def by (intro rnd_mono mult_left_mono mult_nonneg_nonneg)

lemma dadd_mono: "0 \<le> x \<Longrightarrow> 0 \<le> y \<Longrightarrow> x \<le> x' \<Longrightarrow> y \<le> y' \<Longrightarrow> dadd x y \<le> dadd x' y'"
  unfolding dadd_def by (intro rnd_mono add_nonneg_nonneg add_mono)

lemma double_nonneg [simp]:
  "0 \<le> x \<Longrightarrow> 0 \<le> y \<Longrightarrow> 0 \<le> dadd x y" "0 \<le> x \<Longrightarrow> 0 \<le> y \<Longrightarrow> 0 \<le> dmul x y"
  "0 \<le> x \<Longrightarrow> 0 \<le> y \<Longrightarrow> 0 \<le> ddiv x y" "0 \<le> i \<Longrightarrow> 0 \<le> double_of_int i"
  by (simp_all add: dadd_def dmul_def ddiv_def double_of_int_def rnd_nonneg)

lemma rnd_le_exact: "0 \<le> x \<Longrightarrow> x \<le> y \<Longrightarrow> rnd y = y \<Longrightarrow> rnd x \<le> y"
  using rnd_mono [of x y] by simp

lemma rnd_ge_exact: "0 \<le> y \<Longrightarrow> y \<le> x \<Longrightarrow> rnd y = y \<Longrightarrow> y \<le> rnd x"
  using rnd_mono [of y x] by simp

lemma rnd_of_nat: "n < 2 ^ 53 \<Longrightarrow> rnd (of_nat n) = of_nat n"
  by (rule rnd_exact [of _ "int n" 0]) simp_all

lemma rnd_one [simp]: "rnd 1 = 1"
  by (rule rnd_exact [of _ 1 0]) simp_all

lemmas double_arith = dadd_def dsub_def dmul_def ddiv_def double_of_int_def

end
