(* ===== verification/Peer.thy ===== *)
theory Peer
  imports Double Wire "HOL-Library.Product_Lexorder"
begin

text \<open>
  The peer table: \<^verbatim>\<open>include/desentry/net/peer.h\<close> and \<^verbatim>\<open>src/net/peer.cpp\<close>, with the probe of
  \<^verbatim>\<open>src/net/network_manager.cpp\<close> that feeds it. The hash map of peers is an association list whose
  order stands for the unspecified order of iteration; the clock and what the network answers are
  arguments. Fitness figures are doubles with the rounding of the theory \<^verbatim>\<open>Double\<close>.
\<close>

section \<open>Data\<close>

datatype NodeLifecycleState = kDiscovered | kAllocated | kProvisioned | kRunning | kDegraded | kReclaimed

datatype PeerSuspicion = kHealthy | kSuspect | kDead

datatype PeerSource = kBootstrap | kDiscovery | kHandshake | kProbe | kMdns

record PeerFitness =
  pf_latency_ms :: double
  pf_success_rate :: double
  pf_ledger_freshness_entry_id :: int
  pf_free_quota_mb :: u64
  pf_quota_reported :: bool
  pf_transit_bytes_held :: u64
  pf_transit_budget_bytes :: u64
  pf_probes :: u64
  pf_updated_ms :: int

record PeerInfo =
  pi_node_id :: bytes
  pi_ed25519_pubkey :: bytes
  pi_host :: bytes
  pi_p2p_port :: u16
  pi_api_port :: u16
  pi_hostname :: bytes
  pi_last_seen_ms :: int
  pi_is_supervisor :: bool
  pi_handshake_proven :: bool
  pi_state :: NodeLifecycleState
  pi_fitness :: PeerFitness

type_synonym peer_table = "(bytes \<times> PeerInfo) list"

text \<open>The values the members are initialised with.\<close>

definition default_fitness :: PeerFitness where
  "default_fitness = \<lparr>pf_latency_ms = 0, pf_success_rate = 1, pf_ledger_freshness_entry_id = - 1,
     pf_free_quota_mb = 0, pf_quota_reported = False, pf_transit_bytes_held = 0,
     pf_transit_budget_bytes = 0, pf_probes = 0, pf_updated_ms = 0\<rparr>"

definition default_peer :: PeerInfo where
  "default_peer = \<lparr>pi_node_id = [], pi_ed25519_pubkey = [], pi_host = [], pi_p2p_port = 0,
     pi_api_port = 0, pi_hostname = [], pi_last_seen_ms = 0, pi_is_supervisor = False,
     pi_handshake_proven = False, pi_state = kDiscovered, pi_fitness = default_fitness\<rparr>"

definition kMaxPeers :: nat where "kMaxPeers = 4096"

section \<open>Lifecycle and liveness\<close>

fun ValidNodeTransition :: "NodeLifecycleState \<Rightarrow> NodeLifecycleState \<Rightarrow> bool" where
  "ValidNodeTransition from to =
     (if from = to then True
      else case from of
        kDiscovered \<Rightarrow> to = kAllocated \<or> to = kReclaimed
      | kAllocated \<Rightarrow> to = kProvisioned \<or> to = kReclaimed
      | kProvisioned \<Rightarrow> to = kRunning \<or> to = kDegraded \<or> to = kReclaimed
      | kRunning \<Rightarrow> to = kDegraded \<or> to = kReclaimed
      | kDegraded \<Rightarrow> to = kRunning \<or> to = kReclaimed
      | kReclaimed \<Rightarrow> False)"

declare ValidNodeTransition.simps [simp del]

definition Suspicion :: "PeerInfo \<Rightarrow> int \<Rightarrow> int \<Rightarrow> PeerSuspicion" where
  "Suspicion p now_ms liveness_threshold_ms =
     (if pi_last_seen_ms p = 0 then kSuspect
      else
        let threshold = (if liveness_threshold_ms > 0 then liveness_threshold_ms else 5000);
            silent_ms = now_ms - pi_last_seen_ms p;
            tier = (if silent_ms > 3 * threshold then kDead else if silent_ms > threshold then kSuspect else kHealthy);
            f = pi_fitness p;
            tier = (if pf_probes f \<ge> 4 \<and> pf_success_rate f < rnd (1 / 2) \<and> tier = kHealthy then kSuspect else tier)
        in if pf_probes f \<ge> 8 \<and> pf_success_rate f < rnd (15 / 100) then kDead else tier)"

section \<open>Fitness\<close>

definition Score :: "PeerFitness \<Rightarrow> int \<Rightarrow> double" where
  "Score f network_max_entry_id =
     (let reliability = max 0 (min 1 (pf_success_rate f));
          latency_term = (if pf_probes f = 0 then rnd (1 / 2)
                          else ddiv 1 (dadd 1 (ddiv (max 0 (pf_latency_ms f)) 50)));
          freshness = (if network_max_entry_id > 0 \<and> pf_ledger_freshness_entry_id f \<ge> 0
            then max 0 (min 1 (ddiv (double_of_int (pf_ledger_freshness_entry_id f)) (double_of_int network_max_entry_id)))
            else rnd (1 / 2));
          capacity = min 1 (ddiv (double_of_int (uint (pf_free_quota_mb f))) 1024)
      in dadd (dadd (dadd (dmul (rnd (45 / 100)) reliability) (dmul (rnd (25 / 100)) latency_term))
                (dmul (rnd (20 / 100)) freshness)) (dmul (rnd (10 / 100)) capacity))"

definition kFitnessAlpha :: double where "kFitnessAlpha = rnd (1 / 4)"

section \<open>Operations of the table\<close>

text \<open>Making room: the first entry that reads as dead is erased.\<close>

definition evict_dead :: "int \<Rightarrow> peer_table \<Rightarrow> peer_table option" where
  "evict_dead now t =
     (case find (\<lambda>e. Suspicion (snd e) now 5000 = kDead) t of
        Some e \<Rightarrow> Some (map_erase (fst e) t)
      | None \<Rightarrow> None)"

text \<open>An assignment under a condition is a field that keeps its value otherwise.\<close>

definition upsert_liveness :: "PeerInfo \<Rightarrow> PeerInfo \<Rightarrow> PeerInfo" where
  "upsert_liveness info e = e\<lparr>
     pi_last_seen_ms := pi_last_seen_ms info,
     pi_host := (if pi_host e = [] \<and> pi_host info \<noteq> [] then pi_host info else pi_host e),
     pi_p2p_port := (if pi_p2p_port e = 0 \<and> pi_p2p_port info \<noteq> 0 then pi_p2p_port info else pi_p2p_port e),
     pi_api_port := (if pi_api_port e = 0 \<and> pi_api_port info \<noteq> 0 then pi_api_port info else pi_api_port e),
     pi_hostname := (if pi_hostname e = [] \<and> pi_hostname info \<noteq> [] then pi_hostname info else pi_hostname e)\<rparr>"

definition upsert_existing :: "PeerInfo \<Rightarrow> PeerSource \<Rightarrow> PeerInfo \<Rightarrow> PeerInfo" where
  "upsert_existing info source e =
     (if pi_handshake_proven e \<and> source = kDiscovery then upsert_liveness info e
      else e\<lparr>
        pi_host := pi_host info,
        pi_p2p_port := pi_p2p_port info,
        pi_last_seen_ms := pi_last_seen_ms info,
        pi_ed25519_pubkey := (if pi_ed25519_pubkey info \<noteq> [] then pi_ed25519_pubkey info else pi_ed25519_pubkey e),
        pi_api_port := (if pi_api_port info \<noteq> 0 then pi_api_port info else pi_api_port e),
        pi_hostname := (if pi_hostname info \<noteq> [] then pi_hostname info else pi_hostname e),
        pi_is_supervisor := (if pi_is_supervisor info \<and> source \<noteq> kDiscovery then True else pi_is_supervisor e),
        pi_handshake_proven := (if source = kHandshake then True else pi_handshake_proven e),
        pi_state := (if pi_state info \<noteq> kDiscovered \<and> ValidNodeTransition (pi_state e) (pi_state info)
                     then pi_state info else pi_state e)\<rparr>)"

definition Upsert_peer :: "PeerInfo \<Rightarrow> PeerSource \<Rightarrow> peer_table \<Rightarrow> peer_table" where
  "Upsert_peer info source t =
     (case map_of t (pi_node_id info) of
        None \<Rightarrow>
          (case (if length t \<ge> kMaxPeers then evict_dead (pi_last_seen_ms info) t else Some t) of
             None \<Rightarrow> t
           | Some t \<Rightarrow>
               let fresh = (if source = kDiscovery then info\<lparr>pi_handshake_proven := False, pi_is_supervisor := False\<rparr> else info)
               in map_put (pi_node_id info) fresh t)
      | Some _ \<Rightarrow> map_adjust (pi_node_id info) (upsert_existing info source) t)"

definition MarkHandshakeProven :: "bytes \<Rightarrow> bytes \<Rightarrow> bytes \<Rightarrow> u16 \<Rightarrow> int \<Rightarrow> peer_table \<Rightarrow> peer_table" where
  "MarkHandshakeProven node_id pubkey host port now t =
     (case map_of t node_id of
        None \<Rightarrow>
          if length t \<ge> kMaxPeers then t
          else map_put node_id (default_peer\<lparr>pi_node_id := node_id, pi_ed25519_pubkey := pubkey, pi_host := host,
                 pi_p2p_port := port, pi_last_seen_ms := now, pi_handshake_proven := True\<rparr>) t
      | Some _ \<Rightarrow> map_adjust node_id (\<lambda>e. e\<lparr>
          pi_ed25519_pubkey := pubkey,
          pi_host := (if host \<noteq> [] then host else pi_host e),
          pi_p2p_port := (if port \<noteq> 0 then port else pi_p2p_port e),
          pi_handshake_proven := True,
          pi_last_seen_ms := now\<rparr>) t)"

definition List_peers :: "peer_table \<Rightarrow> PeerInfo list" where
  "List_peers t = map snd t"

definition update_fitness :: "bytes \<Rightarrow> (PeerFitness \<Rightarrow> PeerFitness) \<Rightarrow> peer_table \<Rightarrow> peer_table" where
  "update_fitness node_id f = map_adjust node_id (\<lambda>e. e\<lparr>pi_fitness := f (pi_fitness e)\<rparr>)"

definition probe_fitness :: "double \<Rightarrow> bool \<Rightarrow> PeerFitness \<Rightarrow> PeerFitness" where
  "probe_fitness latency ok f =
     (let a = kFitnessAlpha;
          s = dadd (dmul (dsub 1 a) (pf_success_rate f)) (dmul a (if ok then 1 else 0));
          l = (if ok then
                 if pf_probes f = 0 then latency
                 else dadd (dmul (dsub 1 a) (pf_latency_ms f)) (dmul a latency)
               else pf_latency_ms f)
      in f\<lparr>pf_success_rate := s, pf_latency_ms := l, pf_probes := pf_probes f + 1\<rparr>)"

definition RecordProbe :: "bytes \<Rightarrow> double \<Rightarrow> bool \<Rightarrow> peer_table \<Rightarrow> peer_table" where
  "RecordProbe node_id latency ok = update_fitness node_id (probe_fitness latency ok)"

definition kMaxPlausibleLedgerHeight :: int where "kMaxPlausibleLedgerHeight = 2 ^ 40"

definition PlausibleHeight :: "int \<Rightarrow> bool" where
  "PlausibleHeight i \<longleftrightarrow> i \<ge> - 1 \<and> i \<le> kMaxPlausibleLedgerHeight"

definition note_height :: "int \<Rightarrow> PeerFitness \<Rightarrow> PeerFitness" where
  "note_height i f = (if PlausibleHeight i then f\<lparr>pf_ledger_freshness_entry_id := i\<rparr> else f)"

definition RecordReport :: "bytes \<Rightarrow> int \<Rightarrow> u64 \<Rightarrow> bool \<Rightarrow> u64 \<Rightarrow> u64 \<Rightarrow> peer_table \<Rightarrow> peer_table" where
  "RecordReport node_id i free limited held budget = update_fitness node_id (\<lambda>f.
     (note_height i f)\<lparr>pf_free_quota_mb := free, pf_quota_reported := limited,
        pf_transit_bytes_held := held, pf_transit_budget_bytes := budget\<rparr>)"

definition RecordLedgerHeight :: "bytes \<Rightarrow> int \<Rightarrow> peer_table \<Rightarrow> peer_table" where
  "RecordLedgerHeight node_id i = update_fitness node_id (note_height i)"

definition kBootstrapPrefix :: bytes where "kBootstrapPrefix = bytes_of ''bootstrap#''"

definition is_bootstrap :: "bytes \<Rightarrow> bool" where
  "is_bootstrap node_id \<longleftrightarrow> take (length kBootstrapPrefix) node_id = kBootstrapPrefix"

definition adopt_into :: "PeerInfo \<Rightarrow> PeerInfo \<Rightarrow> PeerInfo" where
  "adopt_into drp keep = keep\<lparr>
     pi_last_seen_ms := max (pi_last_seen_ms keep) (pi_last_seen_ms drp),
     pi_host := (if pi_host keep = [] then pi_host drp else pi_host keep),
     pi_p2p_port := (if pi_p2p_port keep = 0 then pi_p2p_port drp else pi_p2p_port keep),
     pi_ed25519_pubkey := (if pi_ed25519_pubkey keep = [] then pi_ed25519_pubkey drp else pi_ed25519_pubkey keep)\<rparr>"

definition AdoptIdentity :: "bytes \<Rightarrow> bytes \<Rightarrow> peer_table \<Rightarrow> bool \<times> peer_table" where
  "AdoptIdentity old_id real_id t =
     (if \<not> is_bootstrap old_id \<or> real_id = [] \<or> old_id = real_id then (False, t)
      else case map_of t old_id of
        None \<Rightarrow> (False, t)
      | Some p \<Rightarrow>
          (case map_of t real_id of
             Some _ \<Rightarrow> (True, map_erase old_id (map_adjust real_id (adopt_into p) t))
           | None \<Rightarrow> (True, map_put real_id (p\<lparr>pi_node_id := real_id\<rparr>) (map_erase old_id t))))"

definition SetState :: "bytes \<Rightarrow> NodeLifecycleState \<Rightarrow> peer_table \<Rightarrow> peer_table" where
  "SetState node_id state =
     map_adjust node_id (\<lambda>e. if ValidNodeTransition (pi_state e) state then e\<lparr>pi_state := state\<rparr> else e)"

definition NetworkMaxLedgerEntryId :: "peer_table \<Rightarrow> int" where
  "NetworkMaxLedgerEntryId t = fold (\<lambda>(_, p) m. max m (pf_ledger_freshness_entry_id (pi_fitness p))) t 0"

text \<open>
  \<^verbatim>\<open>std::sort\<close> by descending score with ties broken by ascending node id. The entries of a table
  have different ids, so the order is total on them and the result unique.
\<close>

definition Ranked :: "peer_table \<Rightarrow> PeerInfo list" where
  "Ranked t =
     (let network_max = NetworkMaxLedgerEntryId t
      in sort_key (\<lambda>p. (- Score (pi_fitness p) network_max, pi_node_id p)) (List_peers t))"

definition StalerThan :: "int \<Rightarrow> int \<Rightarrow> peer_table \<Rightarrow> PeerInfo list" where
  "StalerThan stale_ms now_ms t =
     filter (\<lambda>p. pi_last_seen_ms p \<noteq> 0 \<and> now_ms - pi_last_seen_ms p > stale_ms) (List_peers t)"

section \<open>Probing a peer\<close>

definition kPong :: byte where "kPong = 6"
definition kError :: byte where "kError = 7"
definition kHeartbeat :: byte where "kHeartbeat = 13"

definition condemn_dead :: "bytes \<Rightarrow> int \<Rightarrow> int \<Rightarrow> peer_table \<Rightarrow> peer_table" where
  "condemn_dead node_id now threshold t =
     (case map_of t node_id of
        Some current \<Rightarrow> if Suspicion current now threshold = kDead then SetState node_id kDegraded t else t
      | None \<Rightarrow> t)"

text \<open>
  \<open>resp\<close> is what the heartbeat request returned and \<open>ping\<close> what the legacy ping did, used
  only when the peer answered the heartbeat with an error message. The second component of the
  result says whether the placement ring is rebuilt.
\<close>

definition ProbePeer :: "bytes \<Rightarrow> int \<Rightarrow> WireMessage status_or \<Rightarrow> WireMessage status_or \<Rightarrow> double \<Rightarrow> int \<Rightarrow>
    PeerInfo \<Rightarrow> peer_table \<Rightarrow> peer_table \<times> bool" where
  "ProbePeer self liveness_threshold_ms resp ping rtt now peer t =
     (if pi_p2p_port peer = 0 \<or> pi_node_id peer = self then (t, False)
      else
        let threshold = (if liveness_threshold_ms > 0 then liveness_threshold_ms else 5000);
            legacy = (case resp of Inr m \<Rightarrow> wm_type m = kError | Inl _ \<Rightarrow> False);
            response = (if legacy then ping else resp);
            t = RecordProbe (pi_node_id peer) rtt
                  (case response of Inr m \<Rightarrow> wm_type m = kHeartbeat \<or> legacy \<and> wm_type m = kPong | Inl _ \<Rightarrow> False) t;
            key = pi_node_id peer
        in case response of
             Inr m \<Rightarrow>
               if wm_type m = kHeartbeat \<or> legacy \<and> wm_type m = kPong then
                 let (t, proven_id, peer) =
                       (if \<not> legacy then
                          (case Heartbeat_Decode (wm_payload m) of
                             Some hb \<Rightarrow>
                               (RecordReport key (ledger_tip_entry_id hb) (free_quota_mb hb) (quota_limited hb)
                                  (transit_bytes_held hb) (transit_budget_bytes hb) t,
                                hb_node_id hb, if is_supervisor hb then peer\<lparr>pi_is_supervisor := True\<rparr> else peer)
                           | None \<Rightarrow> (t, [], peer))
                        else (t, wm_payload m, peer));
                     (adopted, t) = (if proven_id \<noteq> [] \<and> proven_id \<noteq> key then AdoptIdentity key proven_id t else (False, t));
                     key = (if adopted then proven_id else key);
                     seen = (case map_of t key of Some s \<Rightarrow> s | None \<Rightarrow> peer)\<lparr>pi_node_id := key, pi_last_seen_ms := now\<rparr>;
                     seen = (if pi_is_supervisor peer then seen\<lparr>pi_is_supervisor := True\<rparr> else seen);
                     seen = (if pi_state seen = kDegraded then seen\<lparr>pi_state := kRunning\<rparr> else seen)
                 in (Upsert_peer seen kProbe t, pi_is_supervisor seen)
               else (condemn_dead key now threshold t, False)
           | Inl _ \<Rightarrow> (condemn_dead key now threshold t, False))"

section \<open>The score is a number between 0 and 1\<close>

definition score_of :: "double \<Rightarrow> double \<Rightarrow> double \<Rightarrow> double \<Rightarrow> double" where
  "score_of r l f c = dadd (dadd (dadd (dmul (rnd (45 / 100)) r) (dmul (rnd (25 / 100)) l)) (dmul (rnd (20 / 100)) f))
     (dmul (rnd (10 / 100)) c)"

lemma score_of_mono:
  assumes "0 \<le> r" "0 \<le> l" "0 \<le> f" "0 \<le> c" "r \<le> r'" "l \<le> l'" "f \<le> f'" "c \<le> c'"
  shows "score_of r l f c \<le> score_of r' l' f' c'"
  unfolding score_of_def by (intro dadd_mono dmul_mono double_nonneg rnd_nonneg assms) simp_all

lemma score_weights:
  "rnd (9 / 20) = 8106479329266893 / 2 ^ 54" "rnd (1 / 4) = 1 / 4"
  "rnd (1 / 5) = 7205759403792794 / 2 ^ 55" "rnd (1 / 10) = 7205759403792794 / 2 ^ 56"
  using rnd_eval [of "- 2" "9 / 20" 8106479329266893] rnd_exact [of "1 / 4" 1 "- 2"]
    rnd_eval [of "- 3" "1 / 5" 7205759403792794] rnd_eval [of "- 4" "1 / 10" 7205759403792794]
  by (simp_all add: power_int_minus)

lemma score_of_ones: "score_of 1 1 1 1 = 9007199254740991 / 2 ^ 53"
proof -
  have w: "dmul (rnd (45 / 100)) 1 = 8106479329266893 / 2 ^ 54" "dmul (rnd (25 / 100)) 1 = 1 / 4"
    "dmul (rnd (20 / 100)) 1 = 7205759403792794 / 2 ^ 55" "dmul (rnd (10 / 100)) 1 = 7205759403792794 / 2 ^ 56"
    using rnd_exact [of "8106479329266893 / 2 ^ 54" 8106479329266893 "- 54"] rnd_exact [of "7205759403792794 / 2 ^ 55" 7205759403792794 "- 55"]
      rnd_exact [of "7205759403792794 / 2 ^ 56" 7205759403792794 "- 56"]
    by (simp_all add: dmul_def score_weights power_int_minus)
  have s1: "dadd (8106479329266893 / 2 ^ 54) (1 / 4) = 6305039478318694 / 2 ^ 53"
    using rnd_eval [of "- 1" "8106479329266893 / 2 ^ 54 + 1 / 4" 6305039478318694] by (simp add: dadd_def power_int_minus)
  have s2: "dadd (6305039478318694 / 2 ^ 53) (7205759403792794 / 2 ^ 55) = 8106479329266892 / 2 ^ 53"
    using rnd_eval [of "- 1" "6305039478318694 / 2 ^ 53 + 7205759403792794 / 2 ^ 55" 8106479329266892] by (simp add: dadd_def power_int_minus)
  have s3: "dadd (8106479329266892 / 2 ^ 53) (7205759403792794 / 2 ^ 56) = 9007199254740991 / 2 ^ 53"
    using rnd_eval [of "- 1" "8106479329266892 / 2 ^ 53 + 7205759403792794 / 2 ^ 56" 9007199254740991] by (simp add: dadd_def power_int_minus)
  show ?thesis unfolding score_of_def w s1 s2 s3 ..
qed

definition latency_term :: "PeerFitness \<Rightarrow> double" where
  "latency_term f = (if pf_probes f = 0 then rnd (1 / 2) else ddiv 1 (dadd 1 (ddiv (max 0 (pf_latency_ms f)) 50)))"

lemma latency_term_unit: "0 \<le> latency_term f" "latency_term f \<le> 1"
proof -
  have "1 \<le> dadd 1 x" if "0 \<le> x" for x using that rnd_ge_exact [of 1 "1 + x"] by (simp add: dadd_def)
  then have d: "1 \<le> dadd 1 (ddiv (max 0 (pf_latency_ms f)) 50)" by simp
  then have "ddiv 1 (dadd 1 (ddiv (max 0 (pf_latency_ms f)) 50)) \<le> 1"
    unfolding ddiv_def [of 1] by (intro rnd_le_exact) (simp_all add: field_simps)
  moreover have "rnd (1 / 2) \<le> 1" by (rule rnd_le_exact) simp_all
  ultimately show "0 \<le> latency_term f" "latency_term f \<le> 1" using d by (simp_all add: latency_term_def rnd_nonneg)
qed

definition freshness_term :: "PeerFitness \<Rightarrow> int \<Rightarrow> double" where
  "freshness_term f m = (if m > 0 \<and> pf_ledger_freshness_entry_id f \<ge> 0
     then max 0 (min 1 (ddiv (double_of_int (pf_ledger_freshness_entry_id f)) (double_of_int m))) else rnd (1 / 2))"

lemma freshness_term_unit: "0 \<le> freshness_term f m" "freshness_term f m \<le> 1"
  using rnd_le_exact [of "1 / 2" 1] by (simp_all add: freshness_term_def rnd_nonneg)

lemma Score_terms:
  "Score f m = score_of (max 0 (min 1 (pf_success_rate f))) (latency_term f) (freshness_term f m)
     (min 1 (ddiv (double_of_int (uint (pf_free_quota_mb f))) 1024))"
  by (simp only: Score_def score_of_def latency_term_def freshness_term_def Let_def)

lemma Score_unit: "0 \<le> Score f m" "Score f m \<le> 1 - 1 / 2 ^ 53"
proof -
  have "score_of 0 0 0 0 \<le> Score f m" "Score f m \<le> score_of 1 1 1 1"
    unfolding Score_terms by (intro score_of_mono; simp add: latency_term_unit freshness_term_unit)+
  then show "0 \<le> Score f m" "Score f m \<le> 1 - 1 / 2 ^ 53"
    unfolding score_of_ones by (simp_all add: score_of_def dadd_def dmul_def)
qed

lemma Score_mono_success:
  assumes "pf_success_rate f \<le> s"
  shows "Score f m \<le> Score (f\<lparr>pf_success_rate := s\<rparr>) m"
proof -
  have "latency_term (f\<lparr>pf_success_rate := s\<rparr>) = latency_term f" "freshness_term (f\<lparr>pf_success_rate := s\<rparr>) m = freshness_term f m"
    by (simp_all add: latency_term_def freshness_term_def)
  then show ?thesis unfolding Score_terms using assms
    by simp (intro score_of_mono; simp add: latency_term_unit freshness_term_unit)
qed

section \<open>Success rates and liveness\<close>

lemma one_minus_alpha [simp]: "kFitnessAlpha = 1 / 4" "dsub 1 (1 / 4) = 3 / 4"
  using rnd_exact [of "3 / 4" 3 "- 2"] by (simp_all add: dsub_def kFitnessAlpha_def score_weights power_int_minus)

definition fitness_ok :: "PeerFitness \<Rightarrow> bool" where
  "fitness_ok f \<longleftrightarrow> 0 \<le> pf_success_rate f \<and> pf_success_rate f \<le> 1"

lemma probe_fitness_ok:
  assumes "fitness_ok f"
  shows "fitness_ok (probe_fitness l ok f)"
proof -
  let ?s = "pf_success_rate f"
  have a: "dmul (1 / 4) (if ok then 1 else 0) \<le> 1 / 4" "0 \<le> dmul (1 / 4) (if ok then 1 else 0)"
    by (simp_all add: dmul_def score_weights)
  have "rnd (3 / 4) = 3 / 4" using rnd_exact [of "3 / 4" 3 "- 2"] by (simp add: power_int_minus)
  then have b: "dmul (3 / 4) ?s \<le> 3 / 4" "0 \<le> dmul (3 / 4) ?s"
    using assms rnd_le_exact [of "3 / 4 * ?s" "3 / 4"] by (simp_all add: fitness_ok_def dmul_def rnd_nonneg)
  have "dadd (dmul (3 / 4) ?s) (dmul (1 / 4) (if ok then 1 else 0)) \<le> 1"
    unfolding dadd_def using a b by (intro rnd_le_exact) simp_all
  then show ?thesis using a(2) b(2) by (simp add: fitness_ok_def probe_fitness_def Let_def)
qed

text \<open>Failures decay the rate: after \<open>n\<close> of them in a row it is at most \<open>(3 / 4) ^ n\<close>.\<close>

lemma failed_probe_decays:
  assumes "0 \<le> pf_success_rate f" "pf_success_rate f \<le> of_int (3 ^ n) / 2 ^ (2 * n)" "n \<le> 32"
  shows "pf_success_rate (probe_fitness l False f) \<le> of_int (3 ^ Suc n) / 2 ^ (2 * Suc n)"
    "0 \<le> pf_success_rate (probe_fitness l False f)"
proof -
  let ?b = "of_int (3 ^ Suc n) / 2 ^ (2 * Suc n) :: rat"
  have "(3 :: int) ^ Suc n \<le> 3 ^ 33" using assms(3) by (intro power_increasing) simp_all
  also have "(3 :: int) ^ 33 < 2 ^ 53" by simp
  finally have m: "(3 :: int) ^ Suc n < 2 ^ 53" .
  have pow: "?b = of_int (3 ^ Suc n) * 2 powi (- int (2 * Suc n))" 
    by (simp only: power_int_minus power_int_of_nat divide_inverse)
  have "int n \<le> 32" using assms(3) by simp
  then have low: "- 1074 \<le> - int (2 * Suc n)" by simp
  have ex: "rnd ?b = ?b" by (rule rnd_exact [OF pow _ m low]) simp
  have "3 / 4 * pf_success_rate f \<le> ?b" using assms(2) by (simp add: power_mult power2_eq_square) 
  then have "dmul (3 / 4) (pf_success_rate f) \<le> ?b" unfolding dmul_def using assms(1) ex by (intro rnd_le_exact) simp_all
  then have "dadd (dmul (3 / 4) (pf_success_rate f)) 0 \<le> ?b" "0 \<le> dmul (3 / 4) (pf_success_rate f)"
    unfolding dadd_def using assms(1) ex by (auto intro!: rnd_le_exact)
  then show "pf_success_rate (probe_fitness l False f) \<le> ?b" "0 \<le> pf_success_rate (probe_fitness l False f)"
    by (simp_all add: probe_fitness_def Let_def dmul_def [of "1 / 4"])
qed

lemma Suspicion_state [simp]: "Suspicion (e\<lparr>pi_state := s\<rparr>) now thr = Suspicion e now thr"
  by (simp add: Suspicion_def)

lemma Suspicion_dead:
  assumes "pi_last_seen_ms e \<noteq> 0" "8 \<le> pf_probes (pi_fitness e)" "pf_success_rate (pi_fitness e) \<le> of_int (3 ^ 8) / 2 ^ 16"
  shows "Suspicion e now thr = kDead"
proof -
  have "of_int (3 ^ 8) / 2 ^ 16 < rnd (15 / 100)"
    using rnd_eval [of "- 3" "15 / 100" 5404319552844595] by (simp add: power_int_minus)
  then have "pf_success_rate (pi_fitness e) < rnd (15 / 100)" using assms(3) by linarith
  then show ?thesis using assms(1,2) by (simp add: Suspicion_def Let_def)
qed

definition failed_probe :: "int \<Rightarrow> int \<Rightarrow> double \<Rightarrow> PeerInfo \<Rightarrow> PeerInfo" where
  "failed_probe thr now rtt e =
     (let e1 = e\<lparr>pi_fitness := probe_fitness rtt False (pi_fitness e)\<rparr>
      in if Suspicion e1 now (if thr > 0 then thr else 5000) = kDead \<and> ValidNodeTransition (pi_state e) kDegraded
         then e1\<lparr>pi_state := kDegraded\<rparr> else e1)"

lemma ProbePeer_failed:
  assumes "map_of t (pi_node_id peer) = Some e" "pi_p2p_port peer \<noteq> 0" "pi_node_id peer \<noteq> self"
  shows "map_of (fst (ProbePeer self thr (Inl c) ping rtt now peer t)) (pi_node_id peer) = Some (failed_probe thr now rtt e)"
  using assms by (simp add: ProbePeer_def condemn_dead_def failed_probe_def RecordProbe_def update_fitness_def SetState_def Let_def)

lemma failed_probes:
  assumes "map_of t (pi_node_id peer) = Some e" "pi_p2p_port peer \<noteq> 0" "pi_node_id peer \<noteq> self"
    and "fitness_ok (pi_fitness e)" "unat (pf_probes (pi_fitness e)) + length rounds < 2 ^ 64"
  shows "\<exists>e'. map_of (fold (\<lambda>(c, rtt, now) t. fst (ProbePeer self thr (Inl c) ping rtt now peer t)) rounds t) (pi_node_id peer) = Some e' \<and>
    pi_last_seen_ms e' = pi_last_seen_ms e \<and> fitness_ok (pi_fitness e') \<and>
    pf_success_rate (pi_fitness e') \<le> of_int (3 ^ min 8 (length rounds)) / 2 ^ (2 * min 8 (length rounds)) \<and>
    unat (pf_probes (pi_fitness e')) = unat (pf_probes (pi_fitness e)) + length rounds \<and>
    (pi_last_seen_ms e \<noteq> 0 \<longrightarrow> 8 \<le> length rounds \<longrightarrow>
       pi_state e' = (if ValidNodeTransition (pi_state e) kDegraded then kDegraded else pi_state e)) \<and>
    pi_state e' \<in> {pi_state e, kDegraded} \<and> (pi_state e' \<noteq> pi_state e \<longrightarrow> ValidNodeTransition (pi_state e) kDegraded)"
  using assms(5)
proof (induction rounds rule: rev_induct)
  case Nil
  then show ?case using assms by (simp add: fitness_ok_def)
next
  case (snoc x rounds)
  obtain c rtt now where x: "x = (c, rtt, now)" by (metis surj_pair)
  let ?n = "min 8 (length rounds)"
  obtain e1 where m: "map_of (fold (\<lambda>(c, rtt, now) t. fst (ProbePeer self thr (Inl c) ping rtt now peer t)) rounds t) (pi_node_id peer) = Some e1"
    and seen: "pi_last_seen_ms e1 = pi_last_seen_ms e" and ok: "fitness_ok (pi_fitness e1)"
    and rate: "pf_success_rate (pi_fitness e1) \<le> of_int (3 ^ ?n) / 2 ^ (2 * ?n)"
    and pr: "unat (pf_probes (pi_fitness e1)) = unat (pf_probes (pi_fitness e)) + length rounds"
    and st: "pi_state e1 \<in> {pi_state e, kDegraded}" "pi_state e1 \<noteq> pi_state e \<longrightarrow> ValidNodeTransition (pi_state e) kDegraded"
    using snoc by auto
  let ?f = "probe_fitness rtt False (pi_fitness e1)"
  define e2 where "e2 = e1\<lparr>pi_fitness := ?f\<rparr>"
  have ok2: "fitness_ok ?f" using probe_fitness_ok [OF ok] .
  have "pf_success_rate ?f \<le> of_int (3 ^ Suc ?n) / 2 ^ (2 * Suc ?n)"
    using failed_probe_decays(1) [OF _ rate] ok by (simp add: fitness_ok_def)
  moreover have "of_int (3 ^ Suc ?n) / 2 ^ (2 * Suc ?n) \<le> (of_int (3 ^ min 8 (Suc (length rounds))) / 2 ^ (2 * min 8 (Suc (length rounds))) :: rat)"
  proof (cases "length rounds < 8")
    case True
    then have "min 8 (Suc (length rounds)) = Suc ?n" by simp
    then show ?thesis by simp
  qed simp
  ultimately have rate2: "pf_success_rate ?f \<le> of_int (3 ^ min 8 (Suc (length rounds))) / 2 ^ (2 * min 8 (Suc (length rounds)))" by linarith
  have pr2: "unat (pf_probes ?f) = unat (pf_probes (pi_fitness e)) + Suc (length rounds)"
    using pr snoc.prems by (simp add: probe_fitness_def Let_def unat_word_ariths)
  have dead: "Suspicion e2 now' thr' = kDead" if "pi_last_seen_ms e \<noteq> 0" "8 \<le> Suc (length rounds)" for now' thr'
    using that seen rate2 pr2 by (intro Suspicion_dead) (simp_all add: e2_def word_le_nat_alt)
  have "map_of (fold (\<lambda>(c, rtt, now) t. fst (ProbePeer self thr (Inl c) ping rtt now peer t)) (rounds @ [x]) t) (pi_node_id peer) =
      Some (failed_probe thr now rtt e1)"
    using ProbePeer_failed [OF m assms(2,3)] by (simp add: x)
  moreover have "failed_probe thr now rtt e1 = (if Suspicion e2 now (if thr > 0 then thr else 5000) = kDead \<and> ValidNodeTransition (pi_state e1) kDegraded
      then e2\<lparr>pi_state := kDegraded\<rparr> else e2)" by (simp add: failed_probe_def e2_def Let_def)
  ultimately show ?case
    using ok2 rate2 pr2 st seen dead by (auto simp: e2_def ValidNodeTransition.simps)
qed

section \<open>Sequences of operations\<close>

datatype table_op =
    OpUpsert PeerInfo PeerSource
  | OpProven bytes bytes bytes u16 int
  | OpProbe bytes double bool
  | OpReport bytes int u64 bool u64 u64
  | OpHeight bytes int
  | OpAdopt bytes bytes
  | OpState bytes NodeLifecycleState

fun table_step :: "table_op \<Rightarrow> peer_table \<Rightarrow> peer_table" where
  "table_step (OpUpsert info source) t = Upsert_peer info source t"
| "table_step (OpProven node_id pubkey host port now) t = MarkHandshakeProven node_id pubkey host port now t"
| "table_step (OpProbe node_id latency ok) t = RecordProbe node_id latency ok t"
| "table_step (OpReport node_id i free limited held budget) t = RecordReport node_id i free limited held budget t"
| "table_step (OpHeight node_id i) t = RecordLedgerHeight node_id i t"
| "table_step (OpAdopt old_id real_id) t = snd (AdoptIdentity old_id real_id t)"
| "table_step (OpState node_id state) t = SetState node_id state t"

text \<open>What reaches the table without an authenticated handshake: beacons, and the node's own records.\<close>

fun unsigned_op :: "table_op \<Rightarrow> bool" where
  "unsigned_op (OpUpsert _ source) \<longleftrightarrow> source = kDiscovery"
| "unsigned_op (OpProven _ _ _ _ _) \<longleftrightarrow> False"
| "unsigned_op (OpAdopt _ _) \<longleftrightarrow> False"
| "unsigned_op _ \<longleftrightarrow> True"

lemma length_map_adjust [simp]: "length (map_adjust k f m) = length m"
  by (simp add: map_adjust_def)

lemma length_map_put_le: "length (map_put k v m) \<le> Suc (length m)"
  by (simp add: map_put_def)

lemma length_map_erase_le: "length (map_erase k m) \<le> length m"
  by (simp add: map_erase_def)

lemma length_evict_dead: "evict_dead now t = Some t' \<Longrightarrow> length t' \<le> length t"
  by (auto simp: evict_dead_def length_map_erase_le split: option.splits)

lemma table_step_length: "length (table_step a t) \<le> Suc (length t)"
proof (cases a)
  case (OpUpsert info source)
  have "length (map_put k v t') \<le> Suc (length t)" if "length t' \<le> length t" for k v and t' :: peer_table
    using length_map_put_le [of k v t'] that by linarith
  then show ?thesis
    using OpUpsert by (auto simp: Upsert_peer_def Let_def split: option.splits if_splits dest!: length_evict_dead)
next
  case (OpAdopt old_id real_id)
  have "length (map_put real_id v (map_erase old_id t)) \<le> Suc (length t)" for v
    using length_map_put_le [of real_id v "map_erase old_id t"] length_map_erase_le [of old_id t] by linarith
  moreover have "length (map_erase old_id (map_adjust real_id f t)) \<le> Suc (length t)" for f
    using length_map_erase_le [of old_id "map_adjust real_id f t"] by simp
  ultimately show ?thesis using OpAdopt by (auto simp: AdoptIdentity_def split: option.splits)
qed (auto simp: MarkHandshakeProven_def RecordProbe_def RecordReport_def RecordLedgerHeight_def update_fitness_def
    SetState_def length_map_put_le split: option.splits)

text \<open>What a beacon may not change of a handshake-proven entry.\<close>

definition same_identity :: "PeerInfo \<Rightarrow> PeerInfo \<Rightarrow> bool" where
  "same_identity e e' \<longleftrightarrow> pi_handshake_proven e' \<and> pi_ed25519_pubkey e' = pi_ed25519_pubkey e \<and>
     pi_is_supervisor e' = pi_is_supervisor e \<and> (pi_host e \<noteq> [] \<longrightarrow> pi_host e' = pi_host e) \<and>
     (pi_p2p_port e \<noteq> 0 \<longrightarrow> pi_p2p_port e' = pi_p2p_port e) \<and> (pi_api_port e \<noteq> 0 \<longrightarrow> pi_api_port e' = pi_api_port e) \<and>
     (pi_hostname e \<noteq> [] \<longrightarrow> pi_hostname e' = pi_hostname e)"

lemma same_identity_trans: "same_identity a b \<Longrightarrow> same_identity b c \<Longrightarrow> same_identity a c"
  by (auto simp: same_identity_def)

lemma upsert_liveness_identity:
  "pi_handshake_proven e \<Longrightarrow> same_identity e (upsert_liveness info e)"
  by (simp add: same_identity_def upsert_liveness_def)

lemma unsigned_step_identity:
  assumes "map_of t i = Some e" "pi_handshake_proven e" "unsigned_op a" "length t < kMaxPeers"
  shows "\<exists>e'. map_of (table_step a t) i = Some e' \<and> same_identity e e'"
proof (cases a)
  case (OpUpsert info source)
  then show ?thesis
    using assms upsert_liveness_identity [of e info]
    by (auto simp: Upsert_peer_def upsert_existing_def Let_def same_identity_def split: option.splits)
next
  case (OpState node_id state)
  then show ?thesis using assms by (cases "node_id = i") (simp_all add: SetState_def same_identity_def)
qed (use assms in \<open>auto simp: same_identity_def RecordProbe_def RecordReport_def RecordLedgerHeight_def update_fitness_def\<close>)

lemma unsigned_steps_identity:
  assumes "map_of t i = Some e" "pi_handshake_proven e" "\<forall>a\<in>set ops. unsigned_op a" "length t + length ops \<le> kMaxPeers"
  shows "\<exists>e'. map_of (fold table_step ops t) i = Some e' \<and> same_identity e e'"
  using assms
proof (induction ops arbitrary: t e)
  case Nil
  then show ?case by (simp add: same_identity_def)
next
  case (Cons a ops)
  obtain e1 where e1: "map_of (table_step a t) i = Some e1" "same_identity e e1"
    using unsigned_step_identity [OF Cons.prems(1,2), of a] Cons.prems by auto
  then have "pi_handshake_proven e1" by (simp add: same_identity_def)
  then show ?case
    using Cons.IH [OF e1(1)] Cons.prems(3,4) table_step_length [of a t] same_identity_trans [OF e1(2)] by fastforce
qed

text \<open>No operation leaves the state \<^verbatim>\<open>kReclaimed\<close>.\<close>

lemma reclaimed_step:
  assumes "map_of t i = Some e" "pi_state e = kReclaimed" "\<not> is_bootstrap i" "length t < kMaxPeers"
  shows "\<exists>e'. map_of (table_step a t) i = Some e' \<and> pi_state e' = kReclaimed"
proof (cases a)
  case (OpUpsert info source)
  then show ?thesis using assms
    by (auto simp: Upsert_peer_def upsert_existing_def upsert_liveness_def Let_def ValidNodeTransition.simps split: option.splits)
next
  case (OpProven node_id pubkey host port now)
  then show ?thesis using assms by (auto simp: MarkHandshakeProven_def Let_def split: option.splits)
next
  case (OpAdopt old_id real_id)
  then show ?thesis using assms by (auto simp: AdoptIdentity_def adopt_into_def Let_def split: option.splits)
next
  case (OpState node_id state)
  then show ?thesis using assms by (cases "node_id = i") (auto simp: SetState_def ValidNodeTransition.simps)
qed (use assms in \<open>auto simp: RecordProbe_def RecordReport_def RecordLedgerHeight_def update_fitness_def\<close>)

lemma reclaimed_steps:
  assumes "map_of t i = Some e" "pi_state e = kReclaimed" "\<not> is_bootstrap i" "length t + length ops \<le> kMaxPeers"
  shows "\<exists>e'. map_of (fold table_step ops t) i = Some e' \<and> pi_state e' = kReclaimed"
  using assms
proof (induction ops arbitrary: t e)
  case (Cons a ops)
  obtain e1 where "map_of (table_step a t) i = Some e1" "pi_state e1 = kReclaimed"
    using reclaimed_step [OF Cons.prems(1,2,3), of a] Cons.prems(4) by auto
  then show ?case using Cons.IH [of "table_step a t" e1] Cons.prems(3,4) table_step_length [of a t] by simp
qed simp

section \<open>Properties\<close>


definition ex_proven :: PeerInfo where
  "ex_proven = default_peer\<lparr>pi_node_id := [1], pi_ed25519_pubkey := [7], pi_host := [10], pi_p2p_port := 7801,
     pi_last_seen_ms := 5, pi_handshake_proven := True, pi_state := kRunning\<rparr>"


text \<open>
  C38: The same does not hold for multicast DNS. Its answers are unauthenticated too but are upserted
  under another source, so one of them replaces the address of a proven peer and, having no time
  stamp, makes the peer look never seen, which exempts it from the staleness checks.
\<close>

theorem mdns_replaces_proven_address:
  assumes "map_of t node_id = Some e" "pi_handshake_proven e"
  shows "\<exists>e'. map_of (Upsert_peer (default_peer\<lparr>pi_node_id := node_id, pi_host := host, pi_p2p_port := port\<rparr>) kMdns t) node_id = Some e' \<and>
    pi_handshake_proven e' \<and> pi_host e' = host \<and> pi_p2p_port e' = port \<and>
    e' \<notin> set (StalerThan stale_ms now t') \<and> (pf_probes (pi_fitness e) < 8 \<longrightarrow> Suspicion e' now threshold = kSuspect)"
  using assms by (simp add: Upsert_peer_def upsert_existing_def default_peer_def StalerThan_def Suspicion_def)

theorem mdns_replaces_proven_address_witness:
  "\<exists>e'. map_of (Upsert_peer (default_peer\<lparr>pi_node_id := [1], pi_host := [66], pi_p2p_port := 9\<rparr>) kMdns [([1], ex_proven)]) [1] = Some e' \<and>
    pi_handshake_proven e' \<and> pi_host e' = [66] \<and> Suspicion e' 1000000 5000 = kSuspect"
  using mdns_replaces_proven_address [of "[([1], ex_proven)]" "[1]" ex_proven, where host = "[66]" and port = 9 and now = 1000000 and threshold = 5000]
  by (auto simp: ex_proven_def default_peer_def default_fitness_def)



text \<open>
  C30: The fitness score is a number from 0 up to, but excluding, 1 for any reported figures,
  including negative or absurd ones, and with every rounding taken into account; it grows with the
  measured success rate.
\<close>

theorem score_in_unit_interval:
  "0 \<le> Score f m \<and> Score f m < 1 \<and> (pf_success_rate f \<le> s \<longrightarrow> Score f m \<le> Score (f\<lparr>pf_success_rate := s\<rparr>) m)"
proof -
  have "(1 :: rat) - 1 / 2 ^ 53 < 1" by simp
  then show ?thesis using Score_unit [of f m] Score_mono_success [of f s m] by linarith
qed

theorem score_in_unit_interval_witness:
  "Score (default_fitness\<lparr>pf_success_rate := 0\<rparr>) 10 \<le> Score (default_fitness\<lparr>pf_success_rate := 1\<rparr>) 10"
  using score_in_unit_interval [of "default_fitness\<lparr>pf_success_rate := 0\<rparr>" 10 1] by simp

text \<open>A reclaimed node never comes back, whatever the table is told, while the table does not overflow.\<close>

theorem reclaimed_is_terminal:
  assumes "map_of t node_id = Some e" "pi_state e = kReclaimed" "\<not> is_bootstrap node_id" "length t + length ops \<le> kMaxPeers"
  shows "\<exists>e'. map_of (fold table_step ops t) node_id = Some e' \<and> pi_state e' = kReclaimed"
  using reclaimed_steps [OF assms] .

theorem reclaimed_is_terminal_witness:
  "\<exists>e'. map_of (fold table_step [OpState [1] kRunning, OpUpsert ex_proven kHandshake] [([1], ex_proven\<lparr>pi_state := kReclaimed\<rparr>)]) [1] = Some e' \<and>
     pi_state e' = kReclaimed"
  by (rule reclaimed_is_terminal [of _ _ "ex_proven\<lparr>pi_state := kReclaimed\<rparr>"])
    (simp_all add: is_bootstrap_def kBootstrapPrefix_def bytes_of_def kMaxPeers_def)

end
