(* ===== verification/Placement.thy ===== *)
theory Placement
  imports Peer AtRest "HOL-Library.Multiset"
begin

text \<open>
  Replica placement: \<^verbatim>\<open>include/desentry/net/placement.h\<close> and \<^verbatim>\<open>src/net/placement.cpp\<close>. The consistent
  hash ring is a \<^verbatim>\<open>std::map\<close> from positions to node ids, an association list in the order of the
  positions; the digest is a parameter. What is shown: the ring is a function of the set of members,
  the replicas of a key are the first distinct members clockwise from it, adding a member moves
  nothing but what the member takes, and the owners a write is owed to are exactly the absent ones.
\<close>

section \<open>The ring\<close>

record ring =
  ring_map :: "(u64 \<times> bytes) list"
  ring_nodes :: "(bytes \<times> nat) list"

definition kVirtualNodesPerPeer :: nat where "kVirtualNodesPerPeer = 160"

definition HashToRing :: "crypto \<Rightarrow> bytes \<Rightarrow> u64" where
  "HashToRing C v = fold (\<lambda>b out. push_bit 8 out OR ucast b) (take 8 (Sha256 C v)) 0"

definition vnode_position :: "crypto \<Rightarrow> bytes \<Rightarrow> nat \<Rightarrow> u64" where
  "vnode_position C node_id i = HashToRing C (node_id @ bytes_of ''#'' @ to_string_nat i)"

definition add_vnode :: "bytes \<Rightarrow> u64 \<Rightarrow> (u64 \<times> bytes) list \<Rightarrow> (u64 \<times> bytes) list" where
  "add_vnode node_id position m =
     (case map_of m position of
        Some n \<Rightarrow> if n \<le> node_id then m else omap_put position node_id m
      | None \<Rightarrow> omap_put position node_id m)"

definition AddNode :: "crypto \<Rightarrow> bytes \<Rightarrow> nat \<Rightarrow> ring \<Rightarrow> ring" where
  "AddNode C node_id virtual_nodes r =
     (if node_id = [] \<or> virtual_nodes = 0 then r
      else if map_of (ring_nodes r) node_id \<noteq> None then r
      else \<lparr>ring_map = fold (add_vnode node_id) (map (vnode_position C node_id) [0..<virtual_nodes]) (ring_map r),
            ring_nodes = omap_put node_id virtual_nodes (ring_nodes r)\<rparr>)"

definition rem_vnode :: "bytes \<Rightarrow> u64 \<Rightarrow> (u64 \<times> bytes) list \<Rightarrow> (u64 \<times> bytes) list" where
  "rem_vnode node_id position m = (if map_of m position = Some node_id then map_erase position m else m)"

definition RemoveNode :: "crypto \<Rightarrow> bytes \<Rightarrow> ring \<Rightarrow> ring" where
  "RemoveNode C node_id r =
     (case map_of (ring_nodes r) node_id of
        None \<Rightarrow> r
      | Some virtual_nodes \<Rightarrow>
          \<lparr>ring_map = fold (rem_vnode node_id) (map (vnode_position C node_id) [0..<virtual_nodes]) (ring_map r),
           ring_nodes = map_erase node_id (ring_nodes r)\<rparr>)"

definition empty_ring :: ring where
  "empty_ring = \<lparr>ring_map = [], ring_nodes = []\<rparr>"

text \<open>
  Walking the ring: from the lower bound of the key's position, around the end, once over every
  entry at most, collecting ids not seen before.
\<close>

definition clockwise :: "u64 \<Rightarrow> (u64 \<times> bytes) list \<Rightarrow> (u64 \<times> bytes) list" where
  "clockwise position m = dropWhile (\<lambda>e. fst e < position) m @ takeWhile (\<lambda>e. fst e < position) m"

fun walk :: "nat \<Rightarrow> bytes list \<Rightarrow> (u64 \<times> bytes) list \<Rightarrow> bytes list" where
  "walk cnt out [] = out"
| "walk cnt out ((_, node) # rest) =
     (if length out < cnt then walk cnt (if node \<in> set out then out else out @ [node]) rest else out)"

definition Replicas :: "crypto \<Rightarrow> bytes \<Rightarrow> nat \<Rightarrow> ring \<Rightarrow> bytes list" where
  "Replicas C key cnt r =
     (if cnt = 0 then []
      else if ring_map r = [] then []
      else walk cnt [] (clockwise (HashToRing C key) (ring_map r)))"

definition Contains_node :: "bytes \<Rightarrow> ring \<Rightarrow> bool" where
  "Contains_node node_id r \<longleftrightarrow> map_of (ring_nodes r) node_id \<noteq> None"

definition NodeCount :: "ring \<Rightarrow> nat" where
  "NodeCount r = length (ring_nodes r)"

section \<open>Placement policy\<close>

record PlacementOptions =
  po_replication_factor :: u32
  po_stale_after_ms :: int
  po_now_ms :: int
  po_include_degraded :: bool
  po_is_supervisor :: bool

record PlacementPolicy =
  pp_local_node_id :: bytes
  pp_options :: PlacementOptions
  pp_ring :: ring
  pp_ring_with_absent :: ring
  pp_skipped :: "bytes list"

record PlacementPlan =
  plan_key :: bytes
  plan_replicas :: "bytes list"
  plan_requested_rf :: u32
  plan_under_replicated :: bool
  plan_skipped :: "bytes list"
  plan_displaced_owners :: "bytes list"

definition PlacementHashInput :: "bytes \<Rightarrow> bytes \<Rightarrow> bytes \<Rightarrow> bytes" where
  "PlacementHashInput collection key shard_key_value =
     (if shard_key_value \<noteq> [] then collection @ bytes_of ''|shard|'' @ shard_key_value
      else collection @ bytes_of ''/'' @ key)"

definition rebuild_peer :: "crypto \<Rightarrow> PlacementOptions \<Rightarrow> int \<Rightarrow> PeerInfo \<Rightarrow>
    ring \<times> ring \<times> bytes list \<Rightarrow> ring \<times> ring \<times> bytes list" where
  "rebuild_peer C opts now peer s =
     (let (live, all, skipped) = s; n = pi_node_id peer; add = AddNode C n kVirtualNodesPerPeer
      in if n = [] then s
         else if is_bootstrap n then (live, all, skipped @ [n @ bytes_of '' (not yet handshaked)''])
         else if pi_is_supervisor peer then (live, all, skipped @ [n @ bytes_of '' (supervisor)''])
         else if pi_state peer = kReclaimed then (live, all, skipped @ [n @ bytes_of '' (reclaimed)''])
         else if pi_state peer = kDegraded \<and> \<not> po_include_degraded opts
           then (live, add all, skipped @ [n @ bytes_of '' (degraded)''])
         else if pi_last_seen_ms peer \<noteq> 0 \<and> now - pi_last_seen_ms peer > po_stale_after_ms opts
           then (live, add all, skipped @ [n @ bytes_of '' (stale)''])
         else (add live, add all, skipped))"

definition Rebuild :: "crypto \<Rightarrow> int \<Rightarrow> PeerInfo list \<Rightarrow> PlacementPolicy \<Rightarrow> PlacementPolicy" where
  "Rebuild C clock peers p =
     (let opts = pp_options p;
          now = (if po_now_ms opts \<noteq> 0 then po_now_ms opts else clock);
          self = pp_local_node_id p;
          start = (if self \<noteq> [] \<and> \<not> po_is_supervisor opts
                   then AddNode C self kVirtualNodesPerPeer empty_ring else empty_ring);
          (live, all, skipped) = fold (rebuild_peer C opts now) peers (start, start, [])
      in p\<lparr>pp_ring := live, pp_ring_with_absent := all, pp_skipped := skipped\<rparr>)"

definition Place :: "crypto \<Rightarrow> bytes \<Rightarrow> bytes \<Rightarrow> bytes \<Rightarrow> PlacementPolicy \<Rightarrow> PlacementPlan" where
  "Place C collection key shard_key_value p =
     (let k = PlacementHashInput collection key shard_key_value;
          rf = po_replication_factor (pp_options p);
          reps = Replicas C k (unat rf) (pp_ring p)
      in \<lparr>plan_key = k, plan_replicas = reps, plan_requested_rf = rf,
          plan_under_replicated = (length reps < unat rf), plan_skipped = pp_skipped p,
          plan_displaced_owners =
            (if NodeCount (pp_ring_with_absent p) > NodeCount (pp_ring p)
             then filter (\<lambda>n. n \<notin> set reps) (Replicas C k (unat rf) (pp_ring_with_absent p)) else [])\<rparr>)"

definition Includes :: "bytes \<Rightarrow> PlacementPlan \<Rightarrow> bool" where
  "Includes node_id plan \<longleftrightarrow> node_id \<in> set (plan_replicas plan)"

definition GroupByPrimary :: "crypto \<Rightarrow> bytes \<Rightarrow> bytes list \<Rightarrow> PlacementPolicy \<Rightarrow> (bytes \<times> bytes list) list" where
  "GroupByPrimary C collection keys p = fold (\<lambda>key grouped.
     case plan_replicas (Place C collection key [] p) of
       [] \<Rightarrow> grouped
     | primary # _ \<Rightarrow> omap_put primary (case map_of grouped primary of Some ks \<Rightarrow> ks @ [key] | None \<Rightarrow> [key]) grouped) keys []"

section \<open>Holders of transit bytes\<close>

text \<open>The comparison puts the higher rank first and breaks ties by the node id.\<close>

definition holder_rank :: "crypto \<Rightarrow> bytes \<Rightarrow> bytes \<Rightarrow> bytes \<Rightarrow> u64" where
  "holder_rank C owner_node doc_key_hash candidate = HashToRing C (owner_node @ [0] @ doc_key_hash @ [0] @ candidate)"

definition SelectTransitHolders :: "crypto \<Rightarrow> bytes \<Rightarrow> bytes \<Rightarrow> bytes list \<Rightarrow> u32 \<Rightarrow> u32 \<Rightarrow> bytes list" where
  "SelectTransitHolders C owner_node doc_key_hash candidates max_holders chunk_index =
     (if candidates = [] \<or> max_holders = 0 then []
      else
        let ranked = map (\<lambda>c. (holder_rank C owner_node doc_key_hash c, c)) (filter (\<lambda>c. c \<noteq> []) candidates);
            ranked = sort_key (\<lambda>(r, c). (- uint r, c)) ranked;
            ranked = (if ranked \<noteq> [] then rotate (unat chunk_index mod length ranked) ranked else ranked);
            want = min (unat max_holders) (length ranked)
        in map snd (take want ranked))"

section \<open>The ring as a function of its members\<close>

text \<open>The member that owns a position: the least id among those that have it.\<close>

definition positions :: "crypto \<Rightarrow> bytes \<Rightarrow> nat \<Rightarrow> u64 set" where
  "positions C node_id virtual_nodes = vnode_position C node_id ` {..<virtual_nodes}"

definition claimants :: "crypto \<Rightarrow> (bytes \<rightharpoonup> nat) \<Rightarrow> u64 \<Rightarrow> bytes set" where
  "claimants C ns pos = {n. \<exists>v. ns n = Some v \<and> pos \<in> positions C n v}"

definition owner :: "crypto \<Rightarrow> (bytes \<rightharpoonup> nat) \<Rightarrow> u64 \<Rightarrow> bytes option" where
  "owner C ns pos = (if claimants C ns pos = {} then None else Some (Min (claimants C ns pos)))"

definition ring_inv :: "crypto \<Rightarrow> ring \<Rightarrow> bool" where
  "ring_inv C r \<longleftrightarrow> omap (ring_map r) \<and> omap (ring_nodes r) \<and> map_of (ring_map r) = owner C (map_of (ring_nodes r))"

lemma omap_Nil [simp]: "omap []"
  by (simp add: omap_def)

lemma omap_eqI: "omap xs \<Longrightarrow> omap ys \<Longrightarrow> map_of xs = map_of ys \<Longrightarrow> xs = ys"
  by (auto simp: omap_def intro: sorted_distinct_map_of_eq)

lemma ring_inv_empty [simp]: "ring_inv C empty_ring"
  by (auto simp: ring_inv_def empty_ring_def owner_def claimants_def)

lemma add_vnodes:
  assumes "omap m"
  shows "omap (fold (add_vnode n) ps m) \<and> map_of (fold (add_vnode n) ps m) =
    (\<lambda>pos. if pos \<in> set ps then Some (case map_of m pos of Some k \<Rightarrow> min k n | None \<Rightarrow> n) else map_of m pos)"
  using assms
proof (induction ps arbitrary: m)
  case (Cons p ps)
  have om: "omap (add_vnode n p m)" using Cons.prems by (simp add: add_vnode_def split: option.split)
  have "map_of (add_vnode n p m) = (map_of m)(p \<mapsto> (case map_of m p of Some k \<Rightarrow> min k n | None \<Rightarrow> n))"
    using Cons.prems by (auto simp: add_vnode_def fun_eq_iff min_def split: option.split)
  then show ?case using Cons.IH [OF om] by (auto simp: fun_eq_iff min_def split: option.split)
qed simp

lemma finite_claimants: "finite (claimants C (map_of ns) pos)"
proof -
  have "claimants C (map_of ns) pos \<subseteq> fst ` set ns" by (auto simp: claimants_def dest: map_of_SomeD intro: rev_image_eqI)
  then show ?thesis by (rule finite_subset) simp
qed

lemma claimants_upd:
  "ns n = None \<Longrightarrow> claimants C (ns(n \<mapsto> v)) pos = (if pos \<in> positions C n v then insert n (claimants C ns pos) else claimants C ns pos)"
  by (auto simp: claimants_def split: if_splits)

lemma ring_inv_AddNode [simp]:
  assumes "ring_inv C r"
  shows "ring_inv C (AddNode C n v r)"
proof (cases "n = [] \<or> v = 0 \<or> map_of (ring_nodes r) n \<noteq> None")
  case True
  then show ?thesis using assms by (auto simp: AddNode_def)
next
  case False
  let ?ps = "map (vnode_position C n) [0..<v]" and ?ns = "map_of (ring_nodes r)"
  have r: "omap (ring_map r)" "omap (ring_nodes r)" "map_of (ring_map r) = owner C ?ns" using assms by (simp_all add: ring_inv_def)
  have set: "set ?ps = positions C n v" by (auto simp: positions_def)
  have "owner C (?ns(n \<mapsto> v)) pos =
      (if pos \<in> positions C n v then Some (case owner C ?ns pos of Some k \<Rightarrow> min k n | None \<Rightarrow> n) else owner C ?ns pos)" for pos
    using False finite_claimants [of C "ring_nodes r" pos]
    by (auto simp: owner_def claimants_upd Min_insert min.commute)
  then show ?thesis
    using False r add_vnodes [OF r(1), of n ?ps] set
    by (auto simp: AddNode_def ring_inv_def fun_eq_iff)
qed

lemma AddNode_nodes:
  "omap (ring_nodes r) \<Longrightarrow> map_of (ring_nodes (AddNode C n v r)) =
     (if n = [] \<or> v = 0 \<or> map_of (ring_nodes r) n \<noteq> None then map_of (ring_nodes r) else (map_of (ring_nodes r))(n \<mapsto> v))"
  by (simp add: AddNode_def)

lemma ring_eqI:
  assumes "ring_inv C r" "ring_inv C r'" "map_of (ring_nodes r) = map_of (ring_nodes r')"
  shows "r = r'"
proof -
  have "ring_map r = ring_map r'" "ring_nodes r = ring_nodes r'"
    using assms by (auto simp: ring_inv_def intro!: omap_eqI)
  then show ?thesis by (cases r, cases r') simp
qed

section \<open>Walking the ring\<close>

fun nub :: "'a list \<Rightarrow> 'a list" where
  "nub [] = []"
| "nub (x # xs) = x # filter (\<lambda>y. y \<noteq> x) (nub xs)"

lemma set_nub [simp]: "set (nub xs) = set xs"
  by (induction xs) auto

lemma distinct_nub [simp]: "distinct (nub xs)"
  by (induction xs) auto

lemma nub_filter: "nub (filter P xs) = filter P (nub xs)"
  by (induction xs) (auto simp: conj_commute intro: filter_cong)

lemma length_nub: "length (nub xs) = card (set xs)"
  by (metis distinct_card distinct_nub set_nub)

lemma walk_nub:
  "distinct out \<Longrightarrow> length out \<le> cnt \<Longrightarrow>
   walk cnt out xs = take cnt (out @ filter (\<lambda>n. n \<notin> set out) (nub (map snd xs)))"
proof (induction cnt out xs rule: walk.induct)
  case (2 cnt out p n rest)
  have "filter (\<lambda>m. m \<notin> set out) (filter (\<lambda>y. y \<noteq> n) xs) = filter (\<lambda>m. m \<notin> set (out @ [n])) xs" for xs
    by (auto intro: filter_cong)
  moreover have "filter (\<lambda>m. m \<notin> set out) (filter (\<lambda>y. y \<noteq> n) xs) = filter (\<lambda>m. m \<notin> set out) xs" if "n \<in> set out" for xs
    using that by (auto intro: filter_cong)
  ultimately show ?case using 2 by (auto simp: take_Cons' simp del: filter_filter)
qed simp

lemma Replicas_nub:
  "Replicas C key cnt r = take cnt (nub (map snd (clockwise (HashToRing C key) (ring_map r))))"
  by (auto simp: Replicas_def walk_nub clockwise_def)

lemma clockwise_sorted:
  assumes "omap m"
  shows "clockwise pos m = filter (\<lambda>e. pos \<le> fst e) m @ filter (\<lambda>e. fst e < pos) m"
proof -
  have "sorted (map fst m)" using assms by (simp add: omap_def)
  then have "dropWhile (\<lambda>e. fst e < pos) m = filter (\<lambda>e. pos \<le> fst e) m \<and> takeWhile (\<lambda>e. fst e < pos) m = filter (\<lambda>e. fst e < pos) m"
  proof (induction m)
    case (Cons e m)
    show ?case
    proof (cases "fst e < pos")
      case False
      then have "\<forall>x\<in>set m. pos \<le> fst x" using Cons.prems by fastforce
      then have "filter (\<lambda>e. pos \<le> fst e) m = m" "filter (\<lambda>e. fst e < pos) m = []" by (auto simp: filter_empty_conv)
      then show ?thesis using False by auto
    qed (use Cons in auto)
  qed simp
  then show ?thesis by (simp add: clockwise_def)
qed

lemma set_clockwise [simp]: "set (clockwise pos m) = set m"
proof -
  have "set m = set (takeWhile (\<lambda>e. fst e < pos) m @ dropWhile (\<lambda>e. fst e < pos) m)" by (simp only: takeWhile_dropWhile_id)
  then show ?thesis unfolding clockwise_def set_append by (simp only: Un_commute)
qed

lemma clockwise_filter:
  assumes "omap m" "omap (filter P m)"
  shows "clockwise pos (filter P m) = filter P (clockwise pos m)"
  using assms by (simp add: clockwise_sorted conj_commute)

text \<open>Restricting a ring to some of its members restricts every walk to them.\<close>

lemma Replicas_restrict:
  assumes "omap (ring_map r)" "ring_map r' = filter (\<lambda>e. snd e \<in> L) (ring_map r)"
  shows "Replicas C key cnt r' = take cnt (filter (\<lambda>n. n \<in> L) (nub (map snd (clockwise (HashToRing C key) (ring_map r)))))"
proof -
  have "omap (filter (\<lambda>e. snd e \<in> L) (ring_map r))"
    using assms(1) by (auto simp: omap_def sorted_filter distinct_map_filter)
  from clockwise_filter [OF assms(1) this] show ?thesis
    by (simp add: Replicas_nub assms(2) filter_map comp_def flip: nub_filter)
qed

lemma take_filter_keeps: "x \<in> set (take k xs) \<Longrightarrow> P x \<Longrightarrow> x \<in> set (take k (filter P xs))"
proof (induction xs arbitrary: k)
  case (Cons y ys)
  show ?case
  proof (cases k)
    case (Suc j)
    have "set (take j (filter P ys)) \<subseteq> set (take k (filter P ys))" by (rule set_take_subset_set_take) (simp add: Suc)
    then show ?thesis using Cons Suc by auto
  qed (use Cons in simp)
qed simp

section \<open>What a rebuild computes\<close>

definition usable :: "PeerInfo \<Rightarrow> bool" where
  "usable p \<longleftrightarrow> pi_node_id p \<noteq> [] \<and> \<not> is_bootstrap (pi_node_id p) \<and> \<not> pi_is_supervisor p \<and> pi_state p \<noteq> kReclaimed"

definition away :: "PlacementOptions \<Rightarrow> int \<Rightarrow> PeerInfo \<Rightarrow> bool" where
  "away opts now p \<longleftrightarrow> pi_state p = kDegraded \<and> \<not> po_include_degraded opts \<or>
     pi_last_seen_ms p \<noteq> 0 \<and> now - pi_last_seen_ms p > po_stale_after_ms opts"

text \<open>The nodes data may be placed on, and those it would be placed on if nobody were away.\<close>

definition self_member :: "PlacementPolicy \<Rightarrow> bytes set" where
  "self_member p = (if pp_local_node_id p \<noteq> [] \<and> \<not> po_is_supervisor (pp_options p) then {pp_local_node_id p} else {})"

definition policy_now :: "int \<Rightarrow> PlacementPolicy \<Rightarrow> int" where
  "policy_now clock p = (if po_now_ms (pp_options p) \<noteq> 0 then po_now_ms (pp_options p) else clock)"

definition live_members :: "int \<Rightarrow> PeerInfo list \<Rightarrow> PlacementPolicy \<Rightarrow> bytes set" where
  "live_members clock peers p = self_member p \<union>
     pi_node_id ` {q \<in> set peers. usable q \<and> \<not> away (pp_options p) (policy_now clock p) q}"

definition all_members :: "PeerInfo list \<Rightarrow> PlacementPolicy \<Rightarrow> bytes set" where
  "all_members peers p = self_member p \<union> pi_node_id ` {q \<in> set peers. usable q}"

definition has_members :: "crypto \<Rightarrow> ring \<Rightarrow> bytes set \<Rightarrow> bool" where
  "has_members C r N \<longleftrightarrow> ring_inv C r \<and> [] \<notin> N \<and>
     map_of (ring_nodes r) = (\<lambda>n. if n \<in> N then Some kVirtualNodesPerPeer else None)"

lemma has_members_empty: "has_members C empty_ring {}"
  using ring_inv_empty [of C] by (simp add: has_members_def empty_ring_def fun_eq_iff)

lemma has_members_AddNode:
  assumes "has_members C r N" "n \<noteq> []"
  shows "has_members C (AddNode C n kVirtualNodesPerPeer r) (insert n N)"
proof -
  have "omap (ring_nodes r)" using assms(1) by (simp add: has_members_def ring_inv_def)
  from AddNode_nodes [OF this] show ?thesis
    using assms by (auto simp: has_members_def fun_eq_iff kVirtualNodesPerPeer_def)
qed

lemma has_members_unique: "has_members C r N \<Longrightarrow> has_members C r' N \<Longrightarrow> r = r'"
  by (auto simp: has_members_def intro: ring_eqI)

lemma fold_rebuild:
  assumes "has_members C live L" "has_members C all A"
  shows "\<exists>live' all' sk'. fold (rebuild_peer C opts now) peers (live, all, sk) = (live', all', sk') \<and>
    has_members C live' (L \<union> pi_node_id ` {q \<in> set peers. usable q \<and> \<not> away opts now q}) \<and>
    has_members C all' (A \<union> pi_node_id ` {q \<in> set peers. usable q})"
  using assms
proof (induction peers arbitrary: live all sk L A)
  case (Cons q peers)
  let ?s = "rebuild_peer C opts now q (live, all, sk)"
  define L' where "L' = (if usable q \<and> \<not> away opts now q then insert (pi_node_id q) L else L)"
  define A' where "A' = (if usable q then insert (pi_node_id q) A else A)"
  obtain live1 all1 sk1 where s: "?s = (live1, all1, sk1)" by (metis prod_cases3)
  have "has_members C live1 L'" "has_members C all1 A'"
    using s Cons.prems has_members_AddNode [of C live L "pi_node_id q"] has_members_AddNode [of C all A "pi_node_id q"]
    by (auto simp: rebuild_peer_def Let_def L'_def A'_def usable_def away_def split: if_splits)
  from Cons.IH [OF this, of sk1] obtain live' all' sk' where
    "fold (rebuild_peer C opts now) (q # peers) (live, all, sk) = (live', all', sk')"
    "has_members C live' (L' \<union> pi_node_id ` {q \<in> set peers. usable q \<and> \<not> away opts now q})"
    "has_members C all' (A' \<union> pi_node_id ` {q \<in> set peers. usable q})" by (auto simp: s)
  moreover have "L' \<union> pi_node_id ` {x \<in> set peers. usable x \<and> \<not> away opts now x} =
      L \<union> pi_node_id ` {x \<in> set (q # peers). usable x \<and> \<not> away opts now x}" by (auto simp: L'_def)
  moreover have "A' \<union> pi_node_id ` {x \<in> set peers. usable x} = A \<union> pi_node_id ` {x \<in> set (q # peers). usable x}" by (auto simp: A'_def)
  ultimately show ?case by metis
qed simp

lemma Rebuild_members:
  shows "has_members C (pp_ring (Rebuild C clock peers p)) (live_members clock peers p)"
    "has_members C (pp_ring_with_absent (Rebuild C clock peers p)) (all_members peers p)"
    "pp_options (Rebuild C clock peers p) = pp_options p"
proof -
  let ?start = "if pp_local_node_id p \<noteq> [] \<and> \<not> po_is_supervisor (pp_options p)
    then AddNode C (pp_local_node_id p) kVirtualNodesPerPeer empty_ring else empty_ring"
  have st: "has_members C ?start (self_member p)"
    using has_members_empty has_members_AddNode [OF has_members_empty] by (simp add: self_member_def)
  from fold_rebuild [OF st st, of "pp_options p" "policy_now clock p" peers "[]"]
  obtain live all sk where f: "fold (rebuild_peer C (pp_options p) (policy_now clock p)) peers (?start, ?start, []) = (live, all, sk)"
    and m: "has_members C live (live_members clock peers p)" "has_members C all (all_members peers p)"
    by (auto simp: live_members_def all_members_def)
  have R: "Rebuild C clock peers p = p\<lparr>pp_ring := live, pp_ring_with_absent := all, pp_skipped := sk\<rparr>"
    using f by (simp add: Rebuild_def Let_def policy_now_def)
  show "has_members C (pp_ring (Rebuild C clock peers p)) (live_members clock peers p)"
    "has_members C (pp_ring_with_absent (Rebuild C clock peers p)) (all_members peers p)"
    "pp_options (Rebuild C clock peers p) = pp_options p" using m by (simp_all add: R)
qed

lemma live_subset: "live_members clock peers p \<subseteq> all_members peers p" "finite (all_members peers p)"
  by (auto simp: live_members_def all_members_def self_member_def)

lemma NodeCount_members:
  assumes "has_members C r N"
  shows "NodeCount r = card N"
proof -
  have d: "distinct (map fst (ring_nodes r))" and m: "map_of (ring_nodes r) = (\<lambda>n. if n \<in> N then Some kVirtualNodesPerPeer else None)"
    using assms by (simp_all add: has_members_def ring_inv_def omap_def)
  have "fst ` set (ring_nodes r) = dom (map_of (ring_nodes r))" by (rule dom_map_of_conv_image_fst [symmetric])
  also have "\<dots> = N" by (auto simp: m dom_def)
  finally show ?thesis using distinct_card [OF d] by (simp add: NodeCount_def)
qed

text \<open>Positions of different members differ: the case the collision rule is not needed for.\<close>

definition no_clash :: "crypto \<Rightarrow> bytes set \<Rightarrow> bool" where
  "no_clash C N \<longleftrightarrow> (\<forall>n\<in>N. \<forall>m\<in>N. \<forall>i<kVirtualNodesPerPeer. \<forall>j<kVirtualNodesPerPeer.
     vnode_position C n i = vnode_position C m j \<longrightarrow> n = m)"

lemma owner_no_clash:
  assumes "has_members C r N" "no_clash C N"
  shows "map_of (ring_map r) pos = Some n \<longleftrightarrow> n \<in> N \<and> pos \<in> positions C n kVirtualNodesPerPeer"
proof -
  let ?S = "claimants C (map_of (ring_nodes r)) pos"
  have S: "?S = {n \<in> N. pos \<in> positions C n kVirtualNodesPerPeer}"
    using assms(1) by (auto simp: claimants_def has_members_def)
  have one: "a = b" if "a \<in> ?S" "b \<in> ?S" for a b
    using that assms(2) unfolding S no_clash_def positions_def by fastforce
  have "map_of (ring_map r) pos = owner C (map_of (ring_nodes r)) pos" using assms(1) by (simp add: has_members_def ring_inv_def)
  moreover have "Min ?S \<in> ?S" if "?S \<noteq> {}" using that finite_claimants by (rule Min_in [rotated])
  ultimately show ?thesis using one by (auto simp: owner_def S [symmetric]) (use S in auto)
qed

lemma ring_restrict:
  assumes r: "has_members C r N" and r': "has_members C r' M" and "M \<subseteq> N" and nc: "no_clash C N"
  shows "ring_map r' = filter (\<lambda>e. snd e \<in> M) (ring_map r)"
proof (rule omap_eqI)
  have om: "omap (ring_map r)" "omap (ring_map r')" using r r' by (simp_all add: has_members_def ring_inv_def)
  show of: "omap (filter (\<lambda>e. snd e \<in> M) (ring_map r))" using om(1) by (auto simp: omap_def sorted_filter distinct_map_filter)
  show "omap (ring_map r')" by (rule om)
  have "no_clash C M" using nc \<open>M \<subseteq> N\<close> by (auto simp: no_clash_def)
  note own = owner_no_clash [OF r nc] owner_no_clash [OF r' this]
  show "map_of (ring_map r') = map_of (filter (\<lambda>e. snd e \<in> M) (ring_map r))"
  proof (rule ext)
    fix pos
    have "map_of (ring_map r') pos = Some n \<longleftrightarrow> map_of (filter (\<lambda>e. snd e \<in> M) (ring_map r)) pos = Some n" for n
      using own [of pos n] of om \<open>M \<subseteq> N\<close> by (auto simp: omap_def)
    then show "map_of (ring_map r') pos = map_of (filter (\<lambda>e. snd e \<in> M) (ring_map r)) pos" by (metis option.exhaust)
  qed
qed

lemma members_on_ring:
  assumes "has_members C r N" "no_clash C N"
  shows "snd ` set (ring_map r) = N"
proof -
  have om: "distinct (map fst (ring_map r))" using assms by (simp add: has_members_def ring_inv_def omap_def)
  have "n \<in> N \<Longrightarrow> (vnode_position C n 0, n) \<in> set (ring_map r)" for n
    using owner_no_clash [OF assms, of "vnode_position C n 0" n] om by (auto simp: positions_def kVirtualNodesPerPeer_def)
  moreover have "(pos, n) \<in> set (ring_map r) \<Longrightarrow> n \<in> N" for pos n
    using owner_no_clash [OF assms, of pos n] om by (auto simp: omap_def)
  ultimately show ?thesis by force
qed

section \<open>Removing a member\<close>

lemma rem_vnodes:
  assumes "omap m"
  shows "omap (fold (rem_vnode n) ps m) \<and> map_of (fold (rem_vnode n) ps m) =
    (\<lambda>pos. if pos \<in> set ps \<and> map_of m pos = Some n then None else map_of m pos)"
  using assms
proof (induction ps arbitrary: m)
  case (Cons p ps)
  have om: "omap (rem_vnode n p m)" using Cons.prems by (simp add: rem_vnode_def)
  have "map_of (rem_vnode n p m) = (if map_of m p = Some n then (map_of m)(p := None) else map_of m)"
    by (simp add: rem_vnode_def)
  then show ?case using Cons.IH [OF om] by (auto simp: fun_eq_iff)
qed simp

lemma RemoveNode_map:
  assumes "ring_inv C r" "map_of (ring_nodes r) n = Some v"
  shows "omap (ring_map (RemoveNode C n r))"
    "map_of (ring_map (RemoveNode C n r)) pos =
       (if pos \<in> positions C n v \<and> map_of (ring_map r) pos = Some n then None else map_of (ring_map r) pos)"
    "ring_nodes (RemoveNode C n r) = map_erase n (ring_nodes r)"
proof -
  have om: "omap (ring_map r)" using assms(1) by (simp add: ring_inv_def)
  have "set (map (vnode_position C n) [0..<v]) = positions C n v" by (auto simp: positions_def)
  with rem_vnodes [OF om, of n "map (vnode_position C n) [0..<v]"] assms(2)
  show "omap (ring_map (RemoveNode C n r))"
    "map_of (ring_map (RemoveNode C n r)) pos =
       (if pos \<in> positions C n v \<and> map_of (ring_map r) pos = Some n then None else map_of (ring_map r) pos)"
    "ring_nodes (RemoveNode C n r) = map_erase n (ring_nodes r)" by (simp_all add: RemoveNode_def)
qed

lemma RemoveNode_AddNode:
  assumes r: "has_members C r N" and n: "n \<noteq> []" "n \<notin> N" and nc: "no_clash C (insert n N)"
  shows "RemoveNode C n (AddNode C n kVirtualNodesPerPeer r) = r"
proof -
  let ?a = "AddNode C n kVirtualNodesPerPeer r"
  have a: "has_members C ?a (insert n N)" using has_members_AddNode [OF r n(1)] .
  have ncN: "no_clash C N" using nc by (auto simp: no_clash_def)
  have inv: "ring_inv C ?a" and nodes: "map_of (ring_nodes ?a) n = Some kVirtualNodesPerPeer"
    using a by (simp_all add: has_members_def)
  note R = RemoveNode_map [OF inv nodes]
  have "map_of (ring_map (RemoveNode C n ?a)) pos = Some k \<longleftrightarrow> map_of (ring_map r) pos = Some k" for pos k
    using owner_no_clash [OF a nc, of pos] owner_no_clash [OF r ncN, of pos k] n(2)
    by (auto simp: R(2)) (metis option.inject)
  then have "map_of (ring_map (RemoveNode C n ?a)) = map_of (ring_map r)" by (metis option.exhaust ext)
  moreover have om: "omap (ring_map r)" "omap (ring_nodes r)" "omap (ring_nodes ?a)"
    using r inv by (simp_all add: has_members_def ring_inv_def)
  moreover have "map_of (ring_nodes (RemoveNode C n ?a)) = map_of (ring_nodes r)"
    using a r n(2) by (auto simp: R(3) has_members_def fun_eq_iff)
  ultimately have "ring_map (RemoveNode C n ?a) = ring_map r" "ring_nodes (RemoveNode C n ?a) = ring_nodes r"
    using R(1) omap_erase [OF om(3), of n] by (auto intro!: omap_eqI simp: R(3))
  then show ?thesis by (cases "RemoveNode C n ?a", cases r) simp
qed

lemma filter_take_neq:
  "distinct xs \<Longrightarrow> filter (\<lambda>x. x \<noteq> n) (take c xs) = take (if n \<in> set (take c xs) then c - 1 else c) (filter (\<lambda>x. x \<noteq> n) xs)"
proof (induction xs arbitrary: c)
  case (Cons x xs)
  show ?case
  proof (cases c)
    case (Suc d)
    have "filter (\<lambda>y. y \<noteq> x) xs = xs" "filter (\<lambda>y. y \<noteq> x) (take d xs) = take d xs"
      using Cons.prems by (auto simp: filter_id_conv dest: in_set_takeD)
    then show ?thesis using Cons.IH [of d] Cons.prems Suc by (cases d) (auto dest: in_set_takeD)
  qed simp
qed simp

section \<open>Choosing holders\<close>

definition holder_order :: "crypto \<Rightarrow> bytes \<Rightarrow> bytes \<Rightarrow> bytes list \<Rightarrow> bytes list" where
  "holder_order C o' h cs = map snd (sort_key (\<lambda>(r, c). (- uint r, c)) (map (\<lambda>c. (holder_rank C o' h c, c)) (filter (\<lambda>c. c \<noteq> []) cs)))"

lemma holders_order:
  "SelectTransitHolders C o' h cs k chunk = take (unat k) (rotate (unat chunk mod length (holder_order C o' h cs)) (holder_order C o' h cs))"
  by (auto simp: SelectTransitHolders_def holder_order_def Let_def take_map rotate_map min_def take_all)

lemma holder_order_mset: "mset (holder_order C o' h cs) = mset (filter (\<lambda>c. c \<noteq> []) cs)"
  by (simp add: holder_order_def flip: mset_map) (simp add: multiset.map_comp comp_def)

lemma holder_order_set: "set (holder_order C o' h cs) = set cs - {[]}" "length (holder_order C o' h cs) = length (filter (\<lambda>c. c \<noteq> []) cs)"
  using mset_eq_setD [OF holder_order_mset] mset_eq_length [OF holder_order_mset] by (fastforce, blast)

lemma holder_order_perm:
  assumes "mset cs = mset cs'"
  shows "holder_order C o' h cs = holder_order C o' h cs'"
proof -
  let ?f = "\<lambda>(r :: u64, c :: bytes). (- uint r, c)" and ?g = "\<lambda>c. (holder_rank C o' h c, c)"
  have "mset (filter (\<lambda>c. c \<noteq> []) cs) = mset (filter (\<lambda>c. c \<noteq> []) cs')" using assms by simp
  then have "mset (map ?g (filter (\<lambda>c. c \<noteq> []) cs)) = mset (sort_key ?f (map ?g (filter (\<lambda>c. c \<noteq> []) cs')))" by simp
  moreover have "inj_on ?f A" for A by (auto simp: inj_on_def word_uint_eq_iff)
  ultimately show ?thesis unfolding holder_order_def by (subst sort_key_inj_key_eq) simp_all
qed

lemma holders_perm:
  "mset cs = mset cs' \<Longrightarrow> SelectTransitHolders C o' h cs k chunk = SelectTransitHolders C o' h cs' k chunk"
  by (simp add: holders_order holder_order_perm [of cs cs'])

lemma holders_size:
  "length (SelectTransitHolders C o' h cs k chunk) = min (unat k) (length (filter (\<lambda>c. c \<noteq> []) cs)) \<and>
   set (SelectTransitHolders C o' h cs k chunk) \<subseteq> set cs - {[]}"
proof
  show "length (SelectTransitHolders C o' h cs k chunk) = min (unat k) (length (filter (\<lambda>c. c \<noteq> []) cs))"
    by (simp add: holders_order holder_order_set(2) min.commute)
  show "set (SelectTransitHolders C o' h cs k chunk) \<subseteq> set cs - {[]}"
    unfolding holders_order holder_order_set(1) [of C o' h cs, symmetric] by (rule subset_trans [OF set_take_subset]) simp
qed

lemma holders_spread:
  assumes "k \<noteq> 0" "length cs < 2 ^ 32"
  shows "\<forall>c. c \<in> set cs \<and> c \<noteq> [] \<longrightarrow> (\<exists>i. c \<in> set (SelectTransitHolders C o' h cs k i))"
proof (intro allI impI)
  fix c
  let ?xs = "holder_order C o' h cs"
  assume "c \<in> set cs \<and> c \<noteq> []"
  then obtain i where i: "i < length ?xs" "?xs ! i = c" using holder_order_set(1) [of C o' h cs] by (metis Diff_iff in_set_conv_nth singletonD)
  have "i < 2 ^ 32" using i(1) assms(2) holder_order_set(2) [of C o' h cs] length_filter_le [of "\<lambda>c. c \<noteq> []" cs] by linarith
  then have u: "unat (of_nat i :: u32) = i" by (simp add: unat_of_nat)
  have "0 < unat k" using assms(1) by (simp add: unat_gt_0)
  moreover have ne: "?xs \<noteq> []" using i(1) by auto
  moreover have "hd (rotate i ?xs) = c" "rotate i ?xs \<noteq> []" using i ne by (simp_all add: hd_rotate_conv_nth)
  ultimately have "c \<in> set (take (unat k) (rotate i ?xs))" by (cases "rotate i ?xs"; cases "unat k") auto
  then show "\<exists>i. c \<in> set (SelectTransitHolders C o' h cs k i)"
    using i(1) by (intro exI [of _ "of_nat i"]) (simp add: holders_order u)
qed

section \<open>A digest without clashes\<close>

lemma hash_step: "m \<le> 56 \<Longrightarrow> drop_bit (8 + n) (take_bit (8 + m) (push_bit 8 a OR ucast (b :: byte))) = drop_bit n (take_bit m (a :: u64))"
  by (rule bit_word_eqI) (auto simp: bit_simps dest: bit_imp_le_length)

lemma hash_steps:
  "length bs \<le> 7 \<Longrightarrow> drop_bit (8 * length bs) (take_bit (8 * length bs + 8) (fold (\<lambda>b out. push_bit 8 out OR ucast (b :: byte)) bs a)) = take_bit 8 (a :: u64)"
proof (induction bs rule: rev_induct)
  case (snoc b bs)
  then show ?case using hash_step [of "8 * length bs + 8" "8 * length bs"] by (simp add: add.commute del: take_bit_or drop_bit_or)
qed simp

lemma hash_top_byte:
  assumes "length bs = 7"
  shows "drop_bit 56 (fold (\<lambda>b out. push_bit 8 out OR ucast b) ((b0 :: byte) # bs) (0 :: u64)) = ucast b0"
proof -
  have "drop_bit 56 x = drop_bit (8 * length bs) (take_bit (8 * length bs + 8) x)" for x :: u64
    using assms by (simp add: take_bit_word_eq_self)
  then have "drop_bit 56 (fold (\<lambda>b out. push_bit 8 out OR ucast b) (b0 # bs) (0 :: u64)) = take_bit 8 (ucast b0)"
    using hash_steps [of bs "ucast b0"] assms by simp
  also have "\<dots> = ucast b0" by (rule bit_word_eqI) (auto simp: bit_simps dest: bit_imp_le_length)
  finally show ?thesis .
qed

lemma ex_hash_top: "drop_bit 56 (HashToRing ex_crypto (b # xs)) = ucast b"
proof -
  have "take 8 (Sha256 ex_crypto (b # xs)) = b # take 7 (xs @ replicate 31 0)"
    by (auto simp: ex_crypto_def min_def)
  moreover have "length (take 7 (xs @ replicate 31 0)) = 7" by simp
  ultimately show ?thesis by (simp only: HashToRing_def hash_top_byte)
qed

lemma ex_no_clash: "no_clash ex_crypto {[a], [b :: byte]}"
proof -
  have "x = y" if "vnode_position ex_crypto [x] i = vnode_position ex_crypto [y] j" for x y i j
  proof -
    have "(ucast x :: u64) = drop_bit 56 (vnode_position ex_crypto [x] i)"
      by (simp only: vnode_position_def append.simps ex_hash_top)
    also have "\<dots> = ucast y" by (simp only: that) (simp only: vnode_position_def append.simps ex_hash_top)
    finally have "(ucast x :: u64) = ucast y" .
    then show ?thesis by (rule ucast_byte_inject) simp
  qed
  then show ?thesis by (auto simp: no_clash_def)
qed

section \<open>Properties\<close>

text \<open>
  C9: Every node computes the same placement. Two nodes whose peer tables, in whatever order and
  with whatever clocks, amount to the same live and the same known members, and that use the same
  replication factor, plan every write alike: same replicas in the same order, same owners it is
  owed to, same verdict on under-replication.
\<close>

theorem placement_agrees_across_nodes:
  fixes C :: crypto and collection key shard :: bytes
  assumes "live_members clock peers p = live_members clock' peers' p'" "all_members peers p = all_members peers' p'"
    and "po_replication_factor (pp_options p) = po_replication_factor (pp_options p')"
  defines "a \<equiv> Place C collection key shard (Rebuild C clock peers p)"
    and "b \<equiv> Place C collection key shard (Rebuild C clock' peers' p')"
  shows "plan_replicas a = plan_replicas b \<and> plan_displaced_owners a = plan_displaced_owners b \<and>
    plan_under_replicated a = plan_under_replicated b"
proof -
  note m = Rebuild_members [of C clock peers p] and m' = Rebuild_members [of C clock' peers' p']
  have "pp_ring (Rebuild C clock peers p) = pp_ring (Rebuild C clock' peers' p')"
    using has_members_unique [OF m(1)] m'(1) assms(1) by simp
  moreover have "pp_ring_with_absent (Rebuild C clock peers p) = pp_ring_with_absent (Rebuild C clock' peers' p')"
    using has_members_unique [OF m(2)] m'(2) assms(2) by simp
  ultimately show ?thesis using m(3) m'(3) assms(3) by (simp add: a_def b_def Place_def Let_def)
qed

definition ex_policy :: "bytes \<Rightarrow> PlacementPolicy" where
  "ex_policy self = \<lparr>pp_local_node_id = self, pp_options = \<lparr>po_replication_factor = 3, po_stale_after_ms = 30000,
     po_now_ms = 0, po_include_degraded = False, po_is_supervisor = False\<rparr>, pp_ring = empty_ring,
     pp_ring_with_absent = empty_ring, pp_skipped = []\<rparr>"

definition ex_peer :: "bytes \<Rightarrow> int \<Rightarrow> PeerInfo" where
  "ex_peer i seen = default_peer\<lparr>pi_node_id := i, pi_last_seen_ms := seen, pi_state := kRunning\<rparr>"

lemma ex_usable [simp]: "usable (ex_peer [x] seen)"
  by (simp add: usable_def ex_peer_def default_peer_def is_bootstrap_def kBootstrapPrefix_def bytes_of_def)

lemma ex_away [simp]: "away (pp_options (ex_policy s)) now (ex_peer i seen) \<longleftrightarrow> seen \<noteq> 0 \<and> now - seen > 30000"
  by (simp add: away_def ex_policy_def ex_peer_def default_peer_def)

lemma ex_id [simp]: "pi_node_id (ex_peer i seen) = i"
  by (simp add: ex_peer_def)

lemma ex_self [simp]: "self_member (ex_policy [x]) = {[x]}" "policy_now clock (ex_policy [x]) = clock"
  by (simp_all add: self_member_def policy_now_def ex_policy_def)

lemma ex_members [simp]:
  "live_members clock [] (ex_policy [x]) = {[x]}" "all_members [] (ex_policy [x]) = {[x]}"
  "live_members clock [ex_peer [y] seen] (ex_policy [x]) = {[x]} \<union> (if seen \<noteq> 0 \<and> clock - seen > 30000 then {} else {[y]})"
  "all_members [ex_peer [y] seen] (ex_policy [x]) = {[x], [y]}"
proof -
  show "live_members clock [] (ex_policy [x]) = {[x]}" "all_members [] (ex_policy [x]) = {[x]}"
    by (simp_all add: live_members_def all_members_def)
  have "{q \<in> set [ex_peer [y] seen]. usable q \<and> \<not> away (pp_options (ex_policy [x])) clock q} =
      (if seen \<noteq> 0 \<and> clock - seen > 30000 then {} else {ex_peer [y] seen})" by auto
  then show "live_members clock [ex_peer [y] seen] (ex_policy [x]) = {[x]} \<union> (if seen \<noteq> 0 \<and> clock - seen > 30000 then {} else {[y]})"
    by (simp only: live_members_def ex_self) simp
  have "{q \<in> set [ex_peer [y] seen]. usable q} = {ex_peer [y] seen}" by auto
  then show "all_members [ex_peer [y] seen] (ex_policy [x]) = {[x], [y]}"
    by (simp only: all_members_def ex_self) (simp add: insert_commute)
qed

theorem placement_agrees_across_nodes_witness:
  "plan_replicas (Place ex_crypto [99] [100] [] (Rebuild ex_crypto 10 [ex_peer [2] 9] (ex_policy [1]))) =
   plan_replicas (Place ex_crypto [99] [100] [] (Rebuild ex_crypto 20 [ex_peer [1] 15] (ex_policy [2])))"
  using placement_agrees_across_nodes [of 10 "[ex_peer [2] 9]" "ex_policy [1]" 20 "[ex_peer [1] 15]" "ex_policy [2]",
      where C = ex_crypto and collection = "[99]" and key = "[100]" and shard = "[]"]
  by (simp add: insert_commute) (simp add: ex_policy_def)

text \<open>
  C21: A plan names different live members, as many as were asked for or else all there are, and is
  flagged under-replicated exactly when there are fewer live members than copies wanted, provided no
  two members hash to one position.
\<close>

theorem plan_has_all_it_can:
  fixes collection key shard :: bytes
  assumes "no_clash C (live_members clock peers p)"
  defines "plan \<equiv> Place C collection key shard (Rebuild C clock peers p)"
    and "rf \<equiv> unat (po_replication_factor (pp_options p))"
  shows "distinct (plan_replicas plan) \<and> set (plan_replicas plan) \<subseteq> live_members clock peers p \<and>
    length (plan_replicas plan) = min rf (card (live_members clock peers p)) \<and>
    (plan_under_replicated plan \<longleftrightarrow> card (live_members clock peers p) < rf)"
proof -
  let ?P = "Rebuild C clock peers p"
  define xs where "xs = nub (map snd (clockwise (HashToRing C (PlacementHashInput collection key shard)) (ring_map (pp_ring ?P))))"
  have "set (map snd (clockwise pos (ring_map (pp_ring ?P)))) = live_members clock peers p" for pos
    using members_on_ring [OF Rebuild_members(1) assms(1)] by simp
  then have xs: "set xs = live_members clock peers p" "length xs = card (live_members clock peers p)"
    by (simp_all add: xs_def length_nub)
  have "plan_replicas plan = take rf xs"
    by (simp add: plan_def rf_def xs_def Place_def Let_def Replicas_nub Rebuild_members(3))
  then show ?thesis
    using xs by (auto simp: xs_def plan_def rf_def Place_def Let_def Rebuild_members(3) dest: in_set_takeD)
qed

theorem plan_has_all_it_can_witness:
  "length (plan_replicas (Place ex_crypto [99] [100] [] (Rebuild ex_crypto 10 [ex_peer [2] 9] (ex_policy [1])))) = 2"
proof -
  have "no_clash ex_crypto (live_members 10 [ex_peer [2] 9] (ex_policy [1]))"
    using ex_no_clash [of 1 2] by (simp add: insert_commute)
  moreover have "unat (po_replication_factor (pp_options (ex_policy [1]))) = 3" by (simp add: ex_policy_def)
  ultimately show ?thesis
    using plan_has_all_it_can [where C = ex_crypto and clock = 10 and peers = "[ex_peer [2] 9]" and p = "ex_policy [1]"
        and collection = "[99]" and key = "[100]" and shard = "[]"] by simp
qed

text \<open>
  C10: The owners a write is owed to are exactly the absent ones: the members that would be among the
  replicas if everybody were up and that are away. No owner is forgotten and no reachable node is
  held bytes for, provided no two members hash to one position.
\<close>

theorem displaced_owners_are_the_absent_ones:
  fixes clock :: int
  assumes "no_clash C (all_members peers p)"
  defines "P \<equiv> Rebuild C clock peers p"
  shows "set (plan_displaced_owners (Place C collection key shard P)) =
    set (Replicas C (PlacementHashInput collection key shard) (unat (po_replication_factor (pp_options p))) (pp_ring_with_absent P)) -
      live_members clock peers p"
proof -
  let ?L = "live_members clock peers p" and ?A = "all_members peers p"
  let ?k = "PlacementHashInput collection key shard" and ?rf = "unat (po_replication_factor (pp_options p))"
  note mem = Rebuild_members [of C clock peers p, folded P_def]
  define xs where "xs = nub (map snd (clockwise (HashToRing C ?k) (ring_map (pp_ring_with_absent P))))"
  have full: "Replicas C ?k ?rf (pp_ring_with_absent P) = take ?rf xs" by (simp add: Replicas_nub xs_def)
  have "omap (ring_map (pp_ring_with_absent P))" using mem(2) by (simp add: has_members_def ring_inv_def)
  from Replicas_restrict [OF this ring_restrict [OF mem(2) mem(1) live_subset(1) assms(1)]]
  have live: "Replicas C ?k ?rf (pp_ring P) = take ?rf (filter (\<lambda>n. n \<in> ?L) xs)" by (simp add: xs_def)
  have xsA: "set xs = ?A" using members_on_ring [OF mem(2) assms(1)] by (simp add: xs_def)
  have diff: "set (filter (\<lambda>n. n \<notin> set (take ?rf (filter (\<lambda>n. n \<in> ?L) xs))) (take ?rf xs)) = set (take ?rf xs) - ?L"
    using take_filter_keeps [of _ ?rf xs "\<lambda>n. n \<in> ?L"] by (auto dest: in_set_takeD)
  show ?thesis
  proof (cases "NodeCount (pp_ring P) < NodeCount (pp_ring_with_absent P)")
    case True
    then show ?thesis using diff by (simp add: Place_def Let_def mem(3) full live)
  next
    case False
    then have "card ?A \<le> card ?L" using NodeCount_members [OF mem(1)] NodeCount_members [OF mem(2)] by simp
    then have "?L = ?A" using card_seteq [OF live_subset(2) live_subset(1)] by blast
    then show ?thesis using False xsA by (auto simp: Place_def Let_def mem(3) full dest: in_set_takeD)
  qed
qed

theorem displaced_owners_are_the_absent_ones_witness:
  "set (plan_displaced_owners (Place ex_crypto [99] [100] [] (Rebuild ex_crypto 100000 [ex_peer [2] 9] (ex_policy [1])))) = {[2]}"
proof -
  let ?P = "Rebuild ex_crypto 100000 [ex_peer [2] 9] (ex_policy [1])"
  have nc: "no_clash ex_crypto (all_members [ex_peer [2] 9] (ex_policy [1]))" using ex_no_clash [of 1 2] by simp
  have rf: "unat (po_replication_factor (pp_options (ex_policy [1]))) = 3" by (simp add: ex_policy_def)
  have "set (Replicas ex_crypto k 3 (pp_ring_with_absent ?P)) = {[1], [2]}" for k
  proof -
    let ?xs = "nub (map snd (clockwise (HashToRing ex_crypto k) (ring_map (pp_ring_with_absent ?P))))"
    have "set ?xs = {[1], [2]}" using members_on_ring [OF Rebuild_members(2) nc] by simp
    moreover from this have "length ?xs = 2" using distinct_card [of ?xs] by simp
    ultimately show ?thesis by (simp add: Replicas_nub)
  qed
  with displaced_owners_are_the_absent_ones [OF nc, where clock = 100000 and collection = "[99]" and key = "[100]" and shard = "[]"] show ?thesis by (simp add: rf)
qed



text \<open>
  Where two members do hash to one position, removing the one that holds it loses the position:
  it is not given back to the other, although a ring built without the removed member has it.
\<close>

theorem removal_forgets_shadowed_position:
  assumes "a \<noteq> []" "b \<noteq> []" "b < a" "i < v" "j < w" "vnode_position C a i = vnode_position C b j"
  defines "r \<equiv> AddNode C a v empty_ring"
  shows "map_of (ring_map r) (vnode_position C a i) = Some a \<and>
    map_of (ring_map (RemoveNode C b (AddNode C b w r))) (vnode_position C a i) = None \<and>
    Contains_node a (RemoveNode C b (AddNode C b w r))"
proof -
  let ?pos = "vnode_position C a i"
  have e: "ring_nodes empty_ring = []" by (simp add: empty_ring_def)
  have inv: "ring_inv C r" "ring_inv C (AddNode C b w r)" by (simp_all add: r_def)
  have nr: "map_of (ring_nodes r) = [a \<mapsto> v]" using assms(1,4) AddNode_nodes [of empty_ring C a v] by (simp add: r_def e)
  then have nb: "map_of (ring_nodes (AddNode C b w r)) = [a \<mapsto> v, b \<mapsto> w]"
    using inv(1) assms(2,3,5) AddNode_nodes [of r C b w] by (auto simp: ring_inv_def)
  have pos: "?pos \<in> positions C a v" "?pos \<in> positions C b w" using assms(4,5) by (simp_all add: positions_def) (simp add: assms(6))
  have "claimants C [a \<mapsto> v] ?pos = {a}" "claimants C [a \<mapsto> v, b \<mapsto> w] ?pos = {a, b}"
    using pos assms(3) by (auto simp: claimants_def split: if_splits)
  then have own: "map_of (ring_map r) ?pos = Some a" "map_of (ring_map (AddNode C b w r)) ?pos = Some b"
    using inv nr nb assms(3) by (simp_all add: ring_inv_def owner_def)
  have "map_of (ring_nodes (AddNode C b w r)) b = Some w" by (simp add: nb)
  note R = RemoveNode_map [OF inv(2) this]
  show ?thesis using own pos nb assms(3) by (auto simp: R Contains_node_def)
qed

theorem removal_forgets_shadowed_position_witness:
  "map_of (ring_map (RemoveNode (ex_crypto\<lparr>Sha256 := \<lambda>_. replicate 32 1\<rparr>) [1]
      (AddNode (ex_crypto\<lparr>Sha256 := \<lambda>_. replicate 32 1\<rparr>) [1] 1 (AddNode (ex_crypto\<lparr>Sha256 := \<lambda>_. replicate 32 1\<rparr>) [2] 1 empty_ring))))
    (vnode_position (ex_crypto\<lparr>Sha256 := \<lambda>_. replicate 32 1\<rparr>) [2] 0) = None"
  using removal_forgets_shadowed_position [of "[2]" "[1]" 0 1 0 1 "ex_crypto\<lparr>Sha256 := \<lambda>_. replicate 32 1\<rparr>"]
  by (simp add: vnode_position_def HashToRing_def)



end
