(* ===== verification/Spec2Isabelle.thy ===== *)
theory Spec2Isabelle
  imports Checksum CrdtCodec Wire WalChain TransitStore OutboxStore StorageRouter ChangeFeed Checkpoint
    JsonText SlottedPage Placement
begin

text \<open>
  Verification library of De-Sentry, a peer-to-peer document database in C++ (sources under
  \<^verbatim>\<open>src/src\<close> and \<^verbatim>\<open>src/include/desentry\<close>). A node stores documents as state-based CRDTs, records every
  write in a hash-chained ledger, replicates by gossip and eager broadcast, places replicas by
  consistent hashing, and keeps bytes for owners that are offline until they collect them.

  \<^bold>\<open>Reading the model.\<close> Byte strings are lists of 8-bit words; fixed-width unsigned integers are words;
  \<^verbatim>\<open>int64_t\<close> times and sequence numbers are \<open>int\<close>, with the bounds written out where they matter; a
  \<^verbatim>\<open>StatusOr<T>\<close> is a sum type, a thrown exception is \<open>None\<close> (or an error value in the JSON parser).
  Clocks, random nonces, the outcomes of disk and socket calls and the cryptographic primitives are
  arguments; what is assumed of the primitives are \<open>digest_laws\<close> and \<open>aead_laws\<close>, satisfied by the
  concrete \<open>ex_crypto\<close> of the witnesses. Hash maps are association lists whose order stands for the
  unspecified order of iteration, \<^verbatim>\<open>std::map\<close> is an ordered one. Mutexes and log lines are left out.

  \<^bold>\<open>Theories and sources.\<close>
  \<^item> \<^verbatim>\<open>Prelude\<close>: words, byte strings, status codes (\<^verbatim>\<open>common/status.h\<close>), decimal rendering, maps.
  \<^item> \<^verbatim>\<open>ByteBuffer\<close> (\<^verbatim>\<open>common/byte_buffer.h\<close>): writer and reader, the locale \<open>codec\<close> of round trips, and the
    refinement of the cursor reader to a parser. \<^verbatim>\<open>Checksum\<close> (\<^verbatim>\<open>common/crc32.cpp\<close>, \<^verbatim>\<open>hex.h\<close>): the table-driven
    CRC equals the bit-serial one and detects any change of one byte. \<^verbatim>\<open>Double\<close>: rounding of \<^verbatim>\<open>double\<close>
    arithmetic to nearest even.
  \<^item> \<^verbatim>\<open>Json\<close>, \<^verbatim>\<open>JsonText\<close> (\<^verbatim>\<open>common/json.h\<close>, \<^verbatim>\<open>json.cpp\<close>): values, parser, printer; printed text parses back,
    parsed values are well typed, doubles do not survive their text.
  \<^item> \<^verbatim>\<open>Hlc\<close> (\<^verbatim>\<open>crdt/hlc.cpp\<close>): the hybrid logical clock never repeats or goes back while its counter does not
    wrap. \<^verbatim>\<open>CrdtDocument\<close>, \<^verbatim>\<open>CrdtMerge\<close>, \<^verbatim>\<open>CrdtUpdate\<close>, \<^verbatim>\<open>CrdtCodec\<close> (\<^verbatim>\<open>crdt/document.cpp\<close>): the document tree; merge is
    a join on documents of one shape (locale \<open>state_based_crdt\<close>), so replicas converge to identical
    bytes; local writes inflate and read back; the codec round-trips up to the decoder's depth limit 64.
  \<^item> \<^verbatim>\<open>Wire\<close> (\<^verbatim>\<open>net/wire_protocol.cpp\<close>): all payloads, the envelope, and frames over a socket that may split,
    interrupt or end the stream anywhere; the handshake transcript is injective.
  \<^item> \<^verbatim>\<open>AtRest\<close> (\<^verbatim>\<open>security/at_rest.cpp\<close>): sealing of records, files and pages; sealed and plain never mix.
  \<^item> \<^verbatim>\<open>Wal\<close>, \<^verbatim>\<open>WalRecovery\<close>, \<^verbatim>\<open>WalChain\<close> (\<^verbatim>\<open>storage/wal.cpp\<close>): the ledger's operations; acknowledged appends survive
    restarts and crashes, equal tips mean equal histories, pruning removes exactly what is settled; and
    the two failure modes in which acknowledged records are lost.
  \<^item> \<^verbatim>\<open>RecordLog\<close>: the append log that \<^verbatim>\<open>TransitStore\<close>, \<^verbatim>\<open>OutboxStore\<close> (\<^verbatim>\<open>ledger/*.cpp\<close>) and \<^verbatim>\<open>StorageRouter\<close>
    (\<^verbatim>\<open>storage/router.cpp\<close>) each write out, as the locale \<open>record_log\<close> with an interpretation per store.
  \<^item> \<^verbatim>\<open>ChangeFeed\<close>, \<^verbatim>\<open>Checkpoint\<close> (\<^verbatim>\<open>ledger/*.cpp\<close>): the waiting loop returns by its deadline; a checkpoint composes
    the quorum gate, the ledger's append and prune and the transit store's release.
  \<^item> \<^verbatim>\<open>SlottedPage\<close> (\<^verbatim>\<open>storage/slotted_page.cpp\<close>): the 4096 bytes of a page refine a list of optional records.
  \<^item> \<^verbatim>\<open>Peer\<close>, \<^verbatim>\<open>Placement\<close> (\<^verbatim>\<open>net/peer.cpp\<close>, \<^verbatim>\<open>net/placement.cpp\<close>, the probe of \<^verbatim>\<open>net/network_manager.cpp\<close>): what may
    change a proven peer, liveness and fitness; the hash ring as a function of its members, replicas,
    displaced owners and transit holders.

  \<^bold>\<open>Termination and bounds.\<close> No operation uses fuel: the loops recurse on the bytes, records, rounds or
  entries that remain, and the parser's mutual recursion on the unread text. The waiting loop of the
  change feed runs over a list of rounds, and the theorem says that it returns by the first round at or
  after the deadline. Hypotheses such as \<open>no_wrap\<close>, \<open>no_clash\<close> or the sizes that fit a length prefix
  are named definitions, each with a witness.

  \<^bold>\<open>Not modelled.\<close> Sockets, threads, HTTP, operating-system calls and hardware scanning; OpenSSL and the
  third-party database backends, which are not part of the repository; page files, page cache, B+ tree
  and the engine backends above them; catalog, storage engine and node engine, which orchestrate those
  backends; gossip, admission control and receipts, whose payloads, merge and peer table are modelled;
  the desktop application, clients and tests.
\<close>

end
